(* ===== verification/Prelude.thy ===== *)
theory Prelude
  imports Main "HOL-Library.Word" "HOL-Library.Multiset"
begin

text \<open>
  Shared vocabulary of the development: the machine integers of the C sources, the ways a
  C operation can go wrong, the sequencing of fallible operations, and the generic lemmas on
  words, lists and multisets that the component theories rely on.
\<close>

unbundle bit_operations_syntax

section \<open>Types\<close>

type_synonym u8 = "8 word"
type_synonym u32 = "32 word"
type_synonym u64 = "64 word"

text \<open>
  The ways an operation of the runtime can fail.  \<open>AssertFailed\<close> is a failing
  \<open>assert\<close> (the shipped build passes \<open>-DNDEBUG\<close>, so the theorems show that the
  assertion cannot fail rather than that it is caught); \<open>NullDeref\<close> and \<open>OutOfBounds\<close>
  are the memory errors that C leaves undefined; \<open>Aborted\<close> is a call of \<open>abort\<close> or \<open>exit\<close>;
  \<open>Spins\<close> is a busy-wait whose condition no step of the code under consideration changes;
  \<open>OutOfFuel\<close> is not a fault of the code: the bound on the depth of the evaluation was reached.
\<close>

datatype c_fault = AssertFailed | NullDeref | OutOfBounds | Aborted | Spins | OutOfFuel

type_synonym 'a res = "c_fault + 'a"

definition ebind :: "'a res \<Rightarrow> ('a \<Rightarrow> 'b res) \<Rightarrow> 'b res" where
  "ebind m f = (case m of Inl e \<Rightarrow> Inl e | Inr x \<Rightarrow> f x)"

definition c_assert :: "bool \<Rightarrow> unit res" where
  "c_assert b = (if b then Inr () else Inl AssertFailed)"

text \<open>A \<open>for\<close> loop over the values \<open>xs\<close> of its counter.\<close>

primrec efold :: "('a \<Rightarrow> 's \<Rightarrow> 's res) \<Rightarrow> 'a list \<Rightarrow> 's \<Rightarrow> 's res" where
  "efold f [] s = Inr s"
| "efold f (x # xs) s = ebind (f x s) (efold f xs)"

text \<open>Reading and writing an array cell; C leaves an index outside the array undefined.\<close>

definition c_index :: "'a list \<Rightarrow> int \<Rightarrow> 'a res" where
  "c_index xs i = (if 0 \<le> i \<and> i < int (length xs) then Inr (xs ! nat i) else Inl OutOfBounds)"

definition c_store :: "'a list \<Rightarrow> int \<Rightarrow> 'a \<Rightarrow> 'a list res" where
  "c_store xs i x =
     (if 0 \<le> i \<and> i < int (length xs) then Inr (xs[nat i := x]) else Inl OutOfBounds)"

section \<open>Collections\<close>

named_theorems fault_simps \<open>unfolding the sequencing of fallible operations\<close>
named_theorems counter_simps \<open>byte-wide counters and their unbounded positions\<close>

lemma ebind_Inr [simp]: "ebind (Inr x) f = f x"
  by (simp add: ebind_def)

lemma ebind_Inl [simp]: "ebind (Inl e) f = Inl e"
  by (simp add: ebind_def)

lemma ebind_eq_Inr [fault_simps]: "ebind m f = Inr y \<longleftrightarrow> (\<exists>x. m = Inr x \<and> f x = Inr y)"
  by (cases m) simp_all

lemma ebind_eq_Inl [fault_simps]:
  "ebind m f = Inl e \<longleftrightarrow> m = Inl e \<or> (\<exists>x. m = Inr x \<and> f x = Inl e)"
  by (cases m) simp_all

lemma c_assert_True [simp]: "c_assert True = Inr ()"
  by (simp add: c_assert_def)

lemma c_assert_eq_Inr [fault_simps]: "c_assert b = Inr u \<longleftrightarrow> b"
  by (simp add: c_assert_def)

lemma c_index_eq_Inr [fault_simps]:
  "c_index xs i = Inr x \<longleftrightarrow> 0 \<le> i \<and> i < int (length xs) \<and> x = xs ! nat i"
  by (auto simp: c_index_def)

lemma c_store_eq_Inr [fault_simps]:
  "c_store xs i x = Inr ys \<longleftrightarrow> 0 \<le> i \<and> i < int (length xs) \<and> ys = xs[nat i := x]"
  by (auto simp: c_store_def)

lemma efold_append: "efold f (xs @ ys) s = ebind (efold f xs s) (efold f ys)"
  by (induction xs arbitrary: s) (auto simp: ebind_def split: sum.splits)

text \<open>A loop whose body keeps an invariant and never fails neither fails nor breaks it.\<close>

lemma efold_invariant:
  assumes "I s" and "\<And>x s. x \<in> set xs \<Longrightarrow> I s \<Longrightarrow> \<exists>s'. f x s = Inr s' \<and> I s'"
  shows "\<exists>s'. efold f xs s = Inr s' \<and> I s'"
  using assms
proof (induction xs arbitrary: s)
  case Nil
  then show ?case by simp
next
  case (Cons x xs)
  then obtain s1 where "f x s = Inr s1" "I s1" by fastforce
  with Cons show ?case by (auto simp: Cons.IH)
qed

text \<open>What every turn of a loop guarantees, the loop guarantees.\<close>

lemma efold_rel:
  assumes "efold f xs s = Inr s'" and "\<And>s. R s s"
    and "\<And>s t u. R s t \<Longrightarrow> R t u \<Longrightarrow> R s u"
    and "\<And>x s s'. x \<in> set xs \<Longrightarrow> f x s = Inr s' \<Longrightarrow> R s s'"
  shows "R s s'"
  using assms(1,4)
proof (induction xs arbitrary: s)
  case Nil
  then show ?case using assms(2) by simp
next
  case (Cons x xs)
  then obtain s1 where s1: "f x s = Inr s1" "efold f xs s1 = Inr s'" by (auto simp: fault_simps)
  then have "R s s1" "R s1 s'" using Cons by auto
  then show ?case by (rule assms(3))
qed

lemma unat_of_nat_u32: "a < 2 ^ 32 \<Longrightarrow> unat (of_nat a :: u32) = a"
  by (simp add: unat_of_nat take_bit_nat_eq_self)

lemma of_nat_u32_inj: "a < 2 ^ 32 \<Longrightarrow> b < 2 ^ 32 \<Longrightarrow> (of_nat a :: u32) = of_nat b \<Longrightarrow> a = b"
  by (metis unat_of_nat_u32)

text \<open>Chaining the equations that relate a counter to what it counts.\<close>

lemma count_trans:
  fixes a b c w w1 w' :: "'a :: ring_1"
  assumes "w1 + a = w + b" and "w' + b = w1 + c"
  shows "w' + a = w + c"
proof -
  have "a = w + b - w1" using assms(1) by (metis add_diff_cancel_left')
  moreover have "w' = w1 + c - b" using assms(2) by (metis add_diff_cancel_right')
  ultimately show ?thesis by simp
qed

lemma None_neq_conv: "None \<noteq> x \<longleftrightarrow> (\<exists>y. x = Some y)"
  by (cases x) auto

text \<open>A part of a multiset without repetitions has none, and shares nothing with the rest.\<close>

lemma mset_split_distinct:
  assumes "mset xs = mset ys + M" and "distinct xs"
  shows "distinct ys \<and> set ys \<inter> set_mset M = {} \<and> set ys \<subseteq> set xs"
proof -
  obtain zs where M: "M = mset zs" by (metis ex_mset)
  with assms(1) have "mset xs = mset (ys @ zs)" by simp
  then have "distinct (ys @ zs)" "set xs = set (ys @ zs)"
    using assms(2) mset_eq_imp_distinct_iff mset_eq_setD by blast+
  then show ?thesis by (auto simp: M)
qed

section \<open>Byte-wide counters\<close>

text \<open>
  The deque indexes its 128 slots with counters of type \<open>uint8_t\<close> that wrap at 256.  The
  lemmas below relate such a counter to the unbounded position it stands for.
\<close>

lemma of_nat_u8_eq_iff [counter_simps]:
  "(of_nat a :: u8) = of_nat b \<longleftrightarrow> a mod 256 = b mod 256"
  by (simp add: word_of_nat_eq_iff take_bit_eq_mod)

lemma unat_of_nat_u8 [counter_simps]: "unat (of_nat a :: u8) = a mod 256"
  by (simp add: unat_of_nat)

lemma of_nat_u8_eq_near:
  assumes "a \<le> b" and "b < a + 256" and "(of_nat a :: u8) = of_nat b"
  shows "a = b"
proof -
  have "a mod 256 = b mod 256" using assms(3) by (simp add: of_nat_u8_eq_iff)
  then have "(b - a) mod 256 = 0"
    using assms(1) by (metis dvd_eq_mod_eq_0 mod_eq_dvd_iff_nat)
  moreover have "b - a < 256" using assms(2) by simp
  ultimately have "b - a = 0" by simp
  with assms(1) show ?thesis by simp
qed

lemma of_nat_u8_diff:
  assumes "a \<le> b" and "b < a + 256"
  shows "unat ((of_nat b :: u8) - of_nat a) = b - a"
proof -
  have "(of_nat b :: u8) - of_nat a = of_nat (b - a)"
    using assms(1) by simp
  moreover have "b - a < 256" using assms by simp
  ultimately show ?thesis by (simp add: unat_of_nat del: of_nat_diff)
qed

lemma u8_slot [counter_simps]:
  "unat (ucast (b :: u8) AND (127 :: u32)) = unat b mod 128"
proof -
  have "ucast b AND (127 :: u32) = take_bit 7 (ucast b)"
    by (simp add: take_bit_eq_mask mask_eq_exp_minus_1)
  moreover have "unat (take_bit 7 (ucast b :: u32)) = take_bit 7 (unat b)"
    by (simp add: unsigned_take_bit_eq unsigned_ucast_eq)
  ultimately show ?thesis by (simp add: take_bit_eq_mod)
qed

lemma of_nat_u8_slot [counter_simps]:
  "unat (ucast (of_nat n :: u8) AND (127 :: u32)) = n mod 128"
  by (simp add: u8_slot unat_of_nat_u8 mod_mod_cancel)

text \<open>The full test of the deque: two bytes differ exactly in their top bit.\<close>

lemma u8_xor_128: "(x :: u8) XOR 128 = x + 128"
proof -
  have "x XOR 128 = flip_bit 7 x"
    by (simp add: flip_bit_eq_xor)
  also have "\<dots> = x + 128"
  proof (cases "bit x 7")
    case True
    have "x - 128 = x + 128" by (simp add: diff_eq_eq add.assoc)
    with True show ?thesis by (simp add: flip_bit_eq_if unset_bit_eq)
  next
    case False
    then show ?thesis by (simp add: flip_bit_eq_if set_bit_eq)
  qed
  finally show ?thesis .
qed

lemma u8_xor_eq_128 [counter_simps]: "(b :: u8) XOR t = 128 \<longleftrightarrow> b = t + 128"
proof
  assume "b XOR t = 128"
  then have "(b XOR t) XOR t = t XOR 128" by (simp add: xor.commute)
  then show "b = t + 128" by (simp add: xor.assoc u8_xor_128)
next
  assume "b = t + 128"
  then have "b XOR t = (t XOR 128) XOR t" by (simp add: u8_xor_128)
  also have "\<dots> = (t XOR t) XOR 128" by (simp only: ac_simps)
  finally show "b XOR t = 128" by simp
qed

lemma ucast_u8_u32_128: "ucast (128 :: u8) = (128 :: u32)"
  by simp

lemma ucast_u8_u32_inj: "(ucast (x :: u8) :: u32) = ucast y \<longleftrightarrow> x = y"
proof
  assume "(ucast x :: u32) = ucast y"
  then have "unat (ucast x :: u32) = unat (ucast y :: u32)" by simp
  then have "unat x = unat y"
    by (simp add: unsigned_ucast_eq take_bit_nat_eq_self [OF order_less_trans [OF unsigned_less]])
  then show "x = y" by (rule unsigned_word_eqI)
qed simp

end
