(* ===== verification/Deque_Spec.thy ===== *)
theory Deque_Spec
  imports Prelude
begin

text \<open>
  The interface of the work-stealing deque: what its clients in \<open>src/runtime.c\<close> rely on.
  The owner pushes and pops at the back of a list of at most \<open>capacity\<close> items, thieves take
  from the front.  The locale also carries the facts every client needs: a run of operations is
  indistinguishable from a run on a plain list, and no run loses or duplicates an item.
\<close>

section \<open>Runs of operations\<close>

datatype 't deque_op = Push 't | Pop | Steal

text \<open>The outcome of an operation: its return code and the item it hands out.\<close>

type_synonym 't outcome = "int \<times> 't option"

fun run_ops :: "('t \<Rightarrow> 'q \<Rightarrow> int \<times> 'q) \<Rightarrow> ('q \<Rightarrow> 't option \<times> 'q) \<Rightarrow>
    ('q \<Rightarrow> int \<times> 't option \<times> 'q) \<Rightarrow> 't deque_op list \<Rightarrow> 'q \<Rightarrow> 't outcome list \<times> 'q" where
  "run_ops push pop steal [] q = ([], q)"
| "run_ops push pop steal (a # as) q =
     (case a of
        Push x \<Rightarrow> (let (r, q') = push x q; (rs, q'') = run_ops push pop steal as q'
                   in ((r, None) # rs, q''))
      | Pop \<Rightarrow> (let (v, q') = pop q; (rs, q'') = run_ops push pop steal as q'
                 in ((0, v) # rs, q''))
      | Steal \<Rightarrow> (let (r, v, q') = steal q; (rs, q'') = run_ops push pop steal as q'
                   in ((r, v) # rs, q'')))"

text \<open>The plain list the deque stands for.\<close>

definition list_push :: "nat \<Rightarrow> 't \<Rightarrow> 't list \<Rightarrow> int \<times> 't list" where
  "list_push cap x xs = (if length xs = cap then (0, xs) else (1, xs @ [x]))"

definition list_pop :: "'t list \<Rightarrow> 't option \<times> 't list" where
  "list_pop xs = (if xs = [] then (None, []) else (Some (last xs), butlast xs))"

fun list_steal :: "'t list \<Rightarrow> int \<times> 't option \<times> 't list" where
  "list_steal [] = (0, None, [])"
| "list_steal (x # xs) = (1, Some x, xs)"

text \<open>The items accepted and handed out in a run.\<close>

fun accepted :: "'t deque_op list \<Rightarrow> 't outcome list \<Rightarrow> 't multiset" where
  "accepted (Push x # as) ((r, v) # rs) = (if r = 1 then {#x#} else {#}) + accepted as rs"
| "accepted (_ # as) (_ # rs) = accepted as rs"
| "accepted _ _ = {#}"

definition handed_out :: "'t outcome list \<Rightarrow> 't multiset" where
  "handed_out rs = mset (concat (map (\<lambda>(r, v). case v of None \<Rightarrow> [] | Some x \<Rightarrow> [x]) rs))"

lemma handed_out_simps [simp]:
  "handed_out [] = {#}"
  "handed_out ((r, None) # rs) = handed_out rs"
  "handed_out ((r, Some x) # rs) = {#x#} + handed_out rs"
  by (simp_all add: handed_out_def)

text \<open>Lists conserve their items.\<close>

lemma list_conserves:
  assumes "run_ops (list_push cap) list_pop list_steal as xs = (rs, ys)"
  shows "mset xs + accepted as rs = handed_out rs + mset ys"
  using assms
proof (induction as arbitrary: xs rs ys)
  case Nil
  then show ?case by simp
next
  case (Cons a as)
  show ?case
  proof (cases a)
    case (Push x)
    obtain rs' where r: "run_ops (list_push cap) list_pop list_steal as (snd (list_push cap x xs))
        = (rs', ys)" and rs: "rs = (fst (list_push cap x xs), None) # rs'"
      using Cons.prems Push by (auto split: prod.splits)
    from Cons.IH [OF r] show ?thesis
      by (auto simp: Push rs list_push_def split: if_splits)
  next
    case Pop
    obtain rs' where r: "run_ops (list_push cap) list_pop list_steal as (snd (list_pop xs))
        = (rs', ys)" and rs: "rs = (0, fst (list_pop xs)) # rs'"
      using Cons.prems Pop by (auto split: prod.splits)
    from Cons.IH [OF r] show ?thesis
      by (cases xs rule: rev_cases) (auto simp: Pop rs list_pop_def)
  next
    case Steal
    from Cons.prems Steal show ?thesis
      using Cons.IH by (cases xs) (fastforce split: prod.splits)+
  qed
qed

section \<open>The interface\<close>

locale bounded_deque =
  fixes items :: "'q \<Rightarrow> 't list"
    and inv :: "'q \<Rightarrow> bool"
    and capacity :: nat
    and push :: "'t \<Rightarrow> 'q \<Rightarrow> int \<times> 'q"
    and pop :: "'q \<Rightarrow> 't option \<times> 'q"
    and steal :: "'q \<Rightarrow> int \<times> 't option \<times> 'q"
  assumes bounded: "inv q \<Longrightarrow> length (items q) \<le> capacity"
    and push_full: "inv q \<Longrightarrow> length (items q) = capacity \<Longrightarrow> push x q = (0, q)"
    and push_room: "inv q \<Longrightarrow> length (items q) < capacity \<Longrightarrow>
           \<exists>q'. push x q = (1, q') \<and> inv q' \<and> items q' = items q @ [x]"
    and pop_empty: "inv q \<Longrightarrow> items q = [] \<Longrightarrow> pop q = (None, q)"
    and pop_last: "inv q \<Longrightarrow> items q = xs @ [x] \<Longrightarrow>
           \<exists>q'. pop q = (Some x, q') \<and> inv q' \<and> items q' = xs"
    and steal_empty: "inv q \<Longrightarrow> items q = [] \<Longrightarrow> steal q = (0, None, q)"
    and steal_first: "inv q \<Longrightarrow> items q = x # xs \<Longrightarrow>
           \<exists>q'. steal q = (1, Some x, q') \<and> inv q' \<and> items q' = xs"
begin

lemma push_sim:
  assumes "inv q"
  shows "\<exists>q'. push x q = (fst (list_push capacity x (items q)), q') \<and> inv q'
           \<and> items q' = snd (list_push capacity x (items q))"
  using assms push_full push_room [of q x] bounded [of q]
  by (cases "length (items q) = capacity") (auto simp: list_push_def)

lemma pop_sim:
  assumes "inv q"
  shows "\<exists>q'. pop q = (fst (list_pop (items q)), q') \<and> inv q' \<and> items q' = snd (list_pop (items q))"
  using assms pop_empty pop_last
  by (cases "items q" rule: rev_cases) (auto simp: list_pop_def)

lemma steal_sim:
  assumes "inv q"
  shows "\<exists>q'. steal q = (fst (list_steal (items q)), fst (snd (list_steal (items q))), q') \<and> inv q'
           \<and> items q' = snd (snd (list_steal (items q)))"
  using assms steal_empty steal_first by (cases "items q") auto

text \<open>A run on the deque and a run on the list it stands for give the same outcomes.\<close>

lemma run_refines:
  assumes "inv q"
  shows "\<exists>q'. run_ops push pop steal as q
           = (fst (run_ops (list_push capacity) list_pop list_steal as (items q)), q') \<and> inv q'
           \<and> items q' = snd (run_ops (list_push capacity) list_pop list_steal as (items q))"
  using assms
proof (induction as arbitrary: q)
  case Nil
  then show ?case by simp
next
  case (Cons a as)
  show ?case
  proof (cases a)
    case (Push x)
    obtain q1 where "push x q = (fst (list_push capacity x (items q)), q1)" "inv q1"
      "items q1 = snd (list_push capacity x (items q))" using push_sim Cons.prems by blast
    with Cons.IH [of q1] Push show ?thesis by (auto split: prod.splits)
  next
    case Pop
    obtain q1 where "pop q = (fst (list_pop (items q)), q1)" "inv q1"
      "items q1 = snd (list_pop (items q))" using pop_sim Cons.prems by blast
    with Cons.IH [of q1] Pop show ?thesis by (auto split: prod.splits)
  next
    case Steal
    obtain q1 where "steal q = (fst (list_steal (items q)), fst (snd (list_steal (items q))), q1)"
      "inv q1" "items q1 = snd (snd (list_steal (items q)))" using steal_sim Cons.prems by blast
    with Cons.IH [of q1] Steal show ?thesis by (auto split: prod.splits)
  qed
qed

lemma run_conserves:
  assumes "inv q" and "run_ops push pop steal as q = (rs, q')"
  shows "mset (items q) + accepted as rs = handed_out rs + mset (items q')"
  using run_refines [OF assms(1), of as] assms(2)
    list_conserves [of capacity as "items q" rs "items q'"]
  by (metis Pair_inject prod.collapse)

end

end
