(* ===== verification/Deque.thy ===== *)
theory Deque
  imports Deque_Spec
begin

text \<open>
  \<open>src/queue.c\<close>: the bounded work-stealing deque, one per worker, as its operations behave
  when they run one at a time.  A deque is 128 slots and two byte counters, \<open>bottom\<close> (moved by
  the owner) and \<open>top\<close> (moved by thieves and by the owner on its last element); both wrap at
  256 and a slot is addressed by the low seven bits of a counter.  The theory proves that the
  byte arithmetic implements a bounded double-ended queue of lists (locale
  \<open>bounded_deque\<close>).  \<open>Deque_Conc\<close> takes the same code apart into its memory accesses
  and interleaves owner and thieves.
\<close>

section \<open>Data and operations\<close>

definition MAX_QUEUE_ENTRIES :: nat where
  "MAX_QUEUE_ENTRIES = 128"

text \<open>A slot holds a pointer to a task, so it is an option: \<open>None\<close> is \<open>NULL\<close>.\<close>

record 't queue_t =
  bottom :: u8
  top :: u8
  size :: u32
  entries :: "'t option list"

text \<open>
  \<open>new_Queue\<close>: the two allocators are the C library's and libnuma's, so their results are
  parameters (\<open>None\<close> for a failed allocation); the memory they return is not initialised.
\<close>

definition new_Queue :: "int \<Rightarrow> 't queue_t option \<Rightarrow> 't queue_t option \<Rightarrow> 't queue_t res" where
  "new_Queue numa_available malloc numa_alloc_local =
     ebind (c_assert (MAX_QUEUE_ENTRIES = 128)) (\<lambda>_.
     ebind (c_assert (\<not> (of_nat MAX_QUEUE_ENTRIES :: u32) AND (of_nat MAX_QUEUE_ENTRIES - 1) \<noteq> 0)) (\<lambda>_.
     case (if numa_available = -1 then malloc else numa_alloc_local) of
       None \<Rightarrow> Inl AssertFailed
     | Some q \<Rightarrow> Inr q))"

definition init_queue :: "'t queue_t \<Rightarrow> 't queue_t" where
  "init_queue Queue =
     (let zeroed = Queue\<lparr>bottom := 0, top := 0, size := 0,
                         entries := replicate MAX_QUEUE_ENTRIES None\<rparr>
      in zeroed\<lparr>size := of_nat MAX_QUEUE_ENTRIES\<rparr>)"

definition isEmpty_Queue :: "'t queue_t \<Rightarrow> bool" where
  "isEmpty_Queue Queue =
     (let b = bottom Queue; t = top Queue in b = t \<or> b + 1 = t)"

definition isFull_Queue :: "'t queue_t \<Rightarrow> bool" where
  "isFull_Queue Queue =
     (let b = bottom Queue; t = top Queue in ucast (b XOR t) = size Queue)"

text \<open>The slot a counter addresses: \<open>c & (Queue->size - 1)\<close>.\<close>

definition slot :: "u8 \<Rightarrow> 't queue_t \<Rightarrow> nat" where
  "slot c Queue = unat (ucast c AND (size Queue - 1))"

definition enqueue :: "'t \<Rightarrow> 't queue_t \<Rightarrow> int \<times> 't queue_t" where
  "enqueue data Queue =
     (let b = bottom Queue; t = top Queue in
      if ucast (b XOR t) = size Queue then (0, Queue)
      else
        let i = slot b Queue;
            Queue = Queue\<lparr>entries := (entries Queue)[i := Some data]\<rparr>
        in (1, Queue\<lparr>bottom := b + 1\<rparr>))"

text \<open>\<open>__sync_bool_compare_and_swap\<close> on the \<open>top\<close> counter.\<close>

definition cas_top :: "u8 \<Rightarrow> u8 \<Rightarrow> 't queue_t \<Rightarrow> bool \<times> 't queue_t" where
  "cas_top old new Queue =
     (if top Queue = old then (True, Queue\<lparr>top := new\<rparr>) else (False, Queue))"

definition dequeue_front :: "'t queue_t \<Rightarrow> 't option \<times> 't queue_t" where
  "dequeue_front Queue =
     (let b = bottom Queue - 1;
          Queue = Queue\<lparr>bottom := b\<rparr>;
          t = top Queue
      in if b + 1 = t then (None, Queue\<lparr>bottom := t\<rparr>)
         else
           let ret_val = entries Queue ! slot b Queue
           in if b \<noteq> t then (ret_val, Queue)
              else
                let (ok, Queue) = cas_top t (t + 1) Queue;
                    ret_val = (if \<not> ok then None else ret_val)
                in (ret_val, Queue\<lparr>bottom := t + 1\<rparr>))"

text \<open>
  The result is the return code, the out-parameter \<open>*ret_val\<close> (which the empty case leaves
  as it found it) and the new deque.
\<close>

definition dequeue_back :: "'t queue_t \<Rightarrow> 't option \<Rightarrow> int \<times> 't option \<times> 't queue_t" where
  "dequeue_back Queue ret_val =
     (let t = top Queue; b = bottom Queue in
      if b = t \<or> b + 1 = t then (0, ret_val, Queue)
      else
        let ret_val = entries Queue ! slot t Queue;
            (ok, Queue) = cas_top t (t + 1) Queue
        in if ok then (1, ret_val, Queue) else (-1, None, Queue))"

datatype deallocator = Free | NumaFree nat

definition release_queue :: "int \<Rightarrow> deallocator" where
  "release_queue numa_available =
     (if numa_available = -1 then Free else NumaFree MAX_QUEUE_ENTRIES)"

section \<open>Positions\<close>

text \<open>
  \<open>slots es T B\<close> reads the slots of the unbounded positions \<open>T, \<dots>, B - 1\<close>; a counter
  is the low byte of a position.
\<close>

definition slots :: "'t option list \<Rightarrow> nat \<Rightarrow> nat \<Rightarrow> 't option list" where
  "slots es T B = map (\<lambda>k. es ! (k mod 128)) [T..<B]"

lemma slots_empty [simp]: "slots es T T = []"
  by (simp add: slots_def)

lemma length_slots [simp]: "length (slots es T B) = B - T"
  by (simp add: slots_def)

lemma slots_snoc: "T \<le> B \<Longrightarrow> slots es T (Suc B) = slots es T B @ [es ! (B mod 128)]"
  by (simp add: slots_def)

lemma slots_cons: "T < B \<Longrightarrow> slots es T B = es ! (T mod 128) # slots es (Suc T) B"
  by (simp add: slots_def upt_conv_Cons)

lemma slots_butlast: "T < B \<Longrightarrow> slots es T B = slots es T (B - 1) @ [es ! ((B - 1) mod 128)]"
  using slots_snoc [of T "B - 1" es] by simp

lemma live_slot_neq: "T \<le> k \<Longrightarrow> k < B \<Longrightarrow> B < T + 128 \<Longrightarrow> k mod 128 \<noteq> B mod (128::nat)"
proof
  assume "T \<le> k" "k < B" "B < T + 128" and eq: "k mod 128 = B mod 128"
  then have "128 dvd B - k" by (metis eq less_imp_le mod_eq_dvd_iff_nat)
  moreover have "0 < B - k" "B - k < 128" using \<open>T \<le> k\<close> \<open>k < B\<close> \<open>B < T + 128\<close> by auto
  ultimately show False by (auto dest: dvd_imp_le)
qed

text \<open>Writing the slot of the next free position leaves the live slots alone.\<close>

lemma slots_update_free:
  "B < T + 128 \<Longrightarrow> slots (es[B mod 128 := x]) T B = slots es T B"
  unfolding slots_def
  by (rule map_cong [OF refl], rule nth_list_update_neq) (auto dest: live_slot_neq)

lemma in_slots: "T \<le> k \<Longrightarrow> k < B \<Longrightarrow> es ! (k mod 128) \<in> set (slots es T B)"
  by (auto simp: slots_def)

section \<open>Representation\<close>

definition rep :: "'t queue_t \<Rightarrow> nat \<Rightarrow> nat \<Rightarrow> bool" where
  "rep q T B \<longleftrightarrow>
     size q = 128 \<and> length (entries q) = 128 \<and> top q = of_nat T \<and> bottom q = of_nat B
     \<and> T \<le> B \<and> B \<le> T + 128 \<and> None \<notin> set (slots (entries q) T B)"

definition dq_len :: "'t queue_t \<Rightarrow> nat" where
  "dq_len q = unat (bottom q - top q)"

definition dq_list :: "'t queue_t \<Rightarrow> 't list" where
  "dq_list q = map the (slots (entries q) (unat (top q)) (unat (top q) + dq_len q))"

definition dq_inv :: "'t queue_t \<Rightarrow> bool" where
  "dq_inv q \<longleftrightarrow>
     size q = 128 \<and> length (entries q) = 128 \<and> dq_len q \<le> 128
     \<and> None \<notin> set (slots (entries q) (unat (top q)) (unat (top q) + dq_len q))"

lemma dq_inv_rep: "dq_inv q \<Longrightarrow> rep q (unat (top q)) (unat (top q) + dq_len q)"
  by (simp add: dq_inv_def rep_def dq_len_def)

lemma slots_mod256:
  "slots es (T mod 256) (T mod 256 + (B - T)) = slots es T B"
proof (rule nth_equalityI)
  show "length (slots es (T mod 256) (T mod 256 + (B - T))) = length (slots es T B)"
    by simp
next
  fix i assume "i < length (slots es (T mod 256) (T mod 256 + (B - T)))"
  moreover have "(T mod 256 + i) mod 128 = (T + i) mod 128"
  proof -
    have "T mod 256 mod 128 = T mod 128" by (simp add: mod_mod_cancel)
    then show ?thesis by (metis mod_add_left_eq)
  qed
  ultimately show "slots es (T mod 256) (T mod 256 + (B - T)) ! i = slots es T B ! i"
    by (simp add: slots_def)
qed

lemma rep_len: "rep q T B \<Longrightarrow> dq_len q = B - T"
  unfolding rep_def dq_len_def by (auto intro!: of_nat_u8_diff)

lemma rep_list: "rep q T B \<Longrightarrow> dq_list q = map the (slots (entries q) T B)"
proof -
  assume r: "rep q T B"
  then have "unat (top q) = T mod 256" by (simp add: rep_def unat_of_nat_u8)
  with r show ?thesis by (simp only: dq_list_def rep_len slots_mod256)
qed

lemma rep_inv: "rep q T B \<Longrightarrow> dq_inv q"
proof -
  assume r: "rep q T B"
  then have "unat (top q) = T mod 256" by (simp add: rep_def unat_of_nat_u8)
  with r show ?thesis
    unfolding dq_inv_def by (simp only: rep_len slots_mod256) (auto simp: rep_def)
qed

lemma dq_inv_iff: "dq_inv q \<longleftrightarrow> (\<exists>T B. rep q T B)"
  using dq_inv_rep rep_inv by blast

lemma rep_length: "rep q T B \<Longrightarrow> length (dq_list q) = B - T"
  by (simp add: rep_list)

lemma rep_slot: "size q = 128 \<Longrightarrow> slot (of_nat n) q = n mod 128"
  by (simp add: slot_def of_nat_u8_slot)

section \<open>The operations on positions\<close>

lemma rep_full: "rep q T B \<Longrightarrow> ucast (bottom q XOR top q) = size q \<longleftrightarrow> B = T + 128"
proof -
  assume r: "rep q T B"
  have "ucast (bottom q XOR top q) = (128 :: u32) \<longleftrightarrow> bottom q XOR top q = 128"
    by (metis ucast_u8_u32_128 ucast_u8_u32_inj)
  also have "\<dots> \<longleftrightarrow> (of_nat B :: u8) = of_nat (T + 128)"
    using r by (simp add: rep_def u8_xor_eq_128)
  also have "\<dots> \<longleftrightarrow> B = T + 128"
    using r by (auto simp: rep_def intro: of_nat_u8_eq_near [of B "T + 128"])
  finally show ?thesis using r by (simp add: rep_def)
qed

lemma rep_empty: "rep q T B \<Longrightarrow> bottom q = top q \<longleftrightarrow> B = T"
  by (auto simp: rep_def intro: of_nat_u8_eq_near [of T B, symmetric])

lemma rep_not_wrapped: "rep q T B \<Longrightarrow> bottom q + 1 \<noteq> top q"
proof
  assume r: "rep q T B" and eq: "bottom q + 1 = top q"
  then have "(of_nat T :: u8) = of_nat (Suc B)" by (simp add: rep_def add.commute)
  with r have "T = Suc B"
    using of_nat_u8_eq_near [of T "Suc B"] by (simp add: rep_def)
  with r show False by (simp add: rep_def)
qed

lemma enqueue_rep:
  assumes r: "rep q T B"
  shows "B = T + 128 \<Longrightarrow> enqueue x q = (0, q)"
    and "B < T + 128 \<Longrightarrow> \<exists>q'. enqueue x q = (1, q') \<and> rep q' T (Suc B)
           \<and> dq_list q' = dq_list q @ [x]"
proof -
  note full = rep_full [OF r]
  show "B = T + 128 \<Longrightarrow> enqueue x q = (0, q)"
    using full by (simp add: enqueue_def)
  assume lt: "B < T + 128"
  define q' where "q' = q\<lparr>entries := (entries q)[B mod 128 := Some x], bottom := of_nat (Suc B)\<rparr>"
  have "enqueue x q = (1, q')"
    using full lt r by (simp add: enqueue_def q'_def rep_slot rep_def add.commute)
  moreover have sl: "slots (entries q') T (Suc B) = slots (entries q) T B @ [Some x]"
    using r lt by (simp add: q'_def slots_snoc slots_update_free rep_def)
  moreover have "rep q' T (Suc B)"
    using r lt sl by (simp add: rep_def) (simp add: q'_def)
  ultimately show "\<exists>q'. enqueue x q = (1, q') \<and> rep q' T (Suc B) \<and> dq_list q' = dq_list q @ [x]"
    using r by (auto simp: rep_list)
qed

lemma dequeue_front_rep:
  assumes r: "rep q T B"
  shows "B = T \<Longrightarrow> dequeue_front q = (None, q)"
    and "dq_list q = xs @ [x] \<Longrightarrow> \<exists>q' T' B'. dequeue_front q = (Some x, q') \<and> rep q' T' B'
           \<and> dq_list q' = xs"
proof -
  show "B = T \<Longrightarrow> dequeue_front q = (None, q)"
    using rep_empty [OF r] by (simp add: dequeue_front_def Let_def)
  assume xs: "dq_list q = xs @ [x]"
  then have lt: "T < B"
    using rep_length [OF r] by simp
  then obtain B1 where B1: "B = Suc B1" "T \<le> B1" by (cases B) auto
  have ne: "bottom q \<noteq> top q" using rep_empty [OF r] lt by simp
  have b: "bottom q - 1 = of_nat B1" using r B1 by (simp add: rep_def)
  have sl: "slots (entries q) T B = slots (entries q) T B1 @ [entries q ! (B1 mod 128)]"
    using B1 by (simp add: slots_snoc)
  have e: "entries q ! (B1 mod 128) = Some x" "dq_list q = map the (slots (entries q) T B1) @ [x]"
    using r xs rep_list [OF r] by (auto simp: sl rep_def)
  have s: "slot (of_nat B1) (q\<lparr>bottom := of_nat B1\<rparr>) = B1 mod 128"
    using r by (simp add: rep_slot rep_def)
  show "\<exists>q' T' B'. dequeue_front q = (Some x, q') \<and> rep q' T' B' \<and> dq_list q' = xs"
  proof (cases "B1 = T")
    case True
    let ?q = "q\<lparr>bottom := of_nat (Suc T), top := of_nat (Suc T)\<rparr>"
    have t: "top q = of_nat T" using r by (simp add: rep_def)
    have "dequeue_front q = (Some x, ?q)"
      using ne b s e(1) t True
      by (simp add: dequeue_front_def Let_def cas_top_def add.commute)
    moreover have "rep ?q (Suc T) (Suc T)" using r by (simp add: rep_def)
    moreover have "xs = []" using xs e(2) True by simp
    ultimately show ?thesis by (auto simp: rep_list)
  next
    case False
    let ?q = "q\<lparr>bottom := of_nat B1\<rparr>"
    have "of_nat B1 \<noteq> top q"
      using False B1 r of_nat_u8_eq_near [of T B1] by (auto simp: rep_def)
    moreover have "of_nat B1 + 1 = bottom q" using b by (metis diff_add_cancel)
    ultimately have "dequeue_front q = (Some x, ?q)"
      using ne b s e(1) by (simp add: dequeue_front_def Let_def)
    moreover have "rep ?q T B1" using r B1 sl by (simp add: rep_def)
    moreover have "dq_list ?q = xs" using xs e(2) \<open>rep ?q T B1\<close> by (simp add: rep_list)
    ultimately show ?thesis by blast
  qed
qed

lemma dequeue_back_rep:
  assumes r: "rep q T B"
  shows "B = T \<Longrightarrow> dequeue_back q ret = (0, ret, q)"
    and "dq_list q = x # xs \<Longrightarrow> \<exists>q'. dequeue_back q ret = (1, Some x, q') \<and> rep q' (Suc T) B
           \<and> dq_list q' = xs"
proof -
  show "B = T \<Longrightarrow> dequeue_back q ret = (0, ret, q)"
    using rep_empty [OF r] by (simp add: dequeue_back_def Let_def)
  assume xs: "dq_list q = x # xs"
  then have lt: "T < B"
    using rep_length [OF r] by simp
  have sl: "slots (entries q) T B = entries q ! (T mod 128) # slots (entries q) (Suc T) B"
    using lt by (simp add: slots_cons)
  let ?q = "q\<lparr>top := of_nat (Suc T)\<rparr>"
  have "entries q ! (T mod 128) = Some x" using r xs rep_list [OF r] by (auto simp: sl rep_def)
  then have "dequeue_back q ret = (1, Some x, ?q)"
    using rep_empty [OF r] rep_not_wrapped [OF r] lt r
    by (simp add: dequeue_back_def Let_def cas_top_def rep_slot rep_def add.commute)
  moreover have "rep ?q (Suc T) B" using r lt sl by (simp add: rep_def)
  moreover have "dq_list ?q = xs" using \<open>rep ?q (Suc T) B\<close> xs r by (simp add: rep_list sl)
  ultimately show "\<exists>q'. dequeue_back q ret = (1, Some x, q') \<and> rep q' (Suc T) B \<and> dq_list q' = xs"
    by blast
qed

section \<open>The deque implements the interface\<close>

lemma dq_pop_empty: "dq_inv q \<Longrightarrow> dq_list q = [] \<Longrightarrow> dequeue_front q = (None, q)"
  using dq_inv_rep dequeue_front_rep(1) rep_length by (metis diff_is_0_eq dq_inv_iff le_antisym
      list.size(3) rep_def)

lemma dq_steal_empty: "dq_inv q \<Longrightarrow> dq_list q = [] \<Longrightarrow> dequeue_back q r = (0, r, q)"
  using dequeue_back_rep(1) rep_length by (metis diff_is_0_eq dq_inv_iff le_antisym
      list.size(3) rep_def)

interpretation dq: bounded_deque dq_list dq_inv MAX_QUEUE_ENTRIES enqueue dequeue_front
  "\<lambda>q. dequeue_back q None"
proof unfold_locales
  fix q :: "'a queue_t" and x :: 'a and xs
  assume i: "dq_inv q"
  then obtain T B where r: "rep q T B" by (auto simp: dq_inv_iff)
  have len: "length (dq_list q) = B - T" "B \<le> T + 128" "T \<le> B"
    using r by (auto simp: rep_length rep_def)
  show "length (dq_list q) \<le> MAX_QUEUE_ENTRIES" using len by (simp add: MAX_QUEUE_ENTRIES_def)
  show "length (dq_list q) = MAX_QUEUE_ENTRIES \<Longrightarrow> enqueue x q = (0, q)"
    using len enqueue_rep(1) [OF r] by (simp add: MAX_QUEUE_ENTRIES_def)
  have room: "length (dq_list q) < MAX_QUEUE_ENTRIES \<Longrightarrow> B < T + 128"
    using len by (simp add: MAX_QUEUE_ENTRIES_def)
  show "length (dq_list q) < MAX_QUEUE_ENTRIES \<Longrightarrow>
    \<exists>q'. enqueue x q = (1, q') \<and> dq_inv q' \<and> dq_list q' = dq_list q @ [x]"
    using enqueue_rep(2) [OF r room, of x] by (auto simp: dq_inv_iff)
  show "dq_list q = [] \<Longrightarrow> dequeue_front q = (None, q)" using i by (rule dq_pop_empty)
  show "dq_list q = xs @ [x] \<Longrightarrow>
    \<exists>q'. dequeue_front q = (Some x, q') \<and> dq_inv q' \<and> dq_list q' = xs"
    using dequeue_front_rep(2) [OF r] by (auto simp: dq_inv_iff)
  show "dq_list q = [] \<Longrightarrow> dequeue_back q None = (0, None, q)" using i by (rule dq_steal_empty)
  show "dq_list q = x # xs \<Longrightarrow>
    \<exists>q'. dequeue_back q None = (1, Some x, q') \<and> dq_inv q' \<and> dq_list q' = xs"
    using dequeue_back_rep(2) [OF r, of x xs None] rep_inv by metis
qed

lemma init_queue_rep: "rep (init_queue q) 0 0"
  by (simp add: rep_def init_queue_def Let_def MAX_QUEUE_ENTRIES_def)

lemma init_queue_inv [simp]: "dq_inv (init_queue q)"
  using init_queue_rep rep_inv by blast

lemma init_queue_list [simp]: "dq_list (init_queue q) = []"
  using rep_list [OF init_queue_rep] by simp

lemma isEmpty_Queue_iff: "dq_inv q \<Longrightarrow> isEmpty_Queue q \<longleftrightarrow> dq_list q = []"
proof -
  assume "dq_inv q"
  then obtain T B where r: "rep q T B" by (auto simp: dq_inv_iff)
  have "dq_list q = [] \<longleftrightarrow> B = T"
    using rep_length [OF r] r by (auto simp: rep_def simp flip: length_0_conv)
  with rep_empty [OF r] rep_not_wrapped [OF r] show ?thesis by (simp add: isEmpty_Queue_def Let_def)
qed

lemma isFull_Queue_iff: "dq_inv q \<Longrightarrow> isFull_Queue q \<longleftrightarrow> length (dq_list q) = MAX_QUEUE_ENTRIES"
proof -
  assume "dq_inv q"
  then obtain T B where r: "rep q T B" by (auto simp: dq_inv_iff)
  have "length (dq_list q) = 128 \<longleftrightarrow> B = T + 128"
    using rep_length [OF r] r by (auto simp: rep_def)
  with rep_full [OF r] show ?thesis by (simp add: isFull_Queue_def Let_def MAX_QUEUE_ENTRIES_def)
qed

section \<open>Properties\<close>

text \<open>
  C5: any sequence of pushes, pops and steals on a freshly initialised deque returns the same
  codes and the same tasks as the sequence on a list of at most 128 items (push and pop at the
  back, steal at the front), and leaves that list in the deque, however often the byte counters
  wrap.
\<close>

theorem deque_refines_list:
  "map_prod id dq_list (run_ops enqueue dequeue_front (\<lambda>q. dequeue_back q None) as (init_queue q0))
     = run_ops (list_push MAX_QUEUE_ENTRIES) list_pop list_steal as []"
  using dq.run_refines [OF init_queue_inv [of q0], of as] by (auto simp: prod_eq_iff)

text \<open>
  No run of deque operations loses or duplicates a task: what was in the deque and what was
  accepted is exactly what was handed out and what is left.
\<close>

lemma deque_conserves:
  assumes "dq_inv q"
    and "run_ops enqueue dequeue_front (\<lambda>q. dequeue_back q None) as q = (rs, q')"
  shows "mset (dq_list q) + accepted as rs = handed_out rs + mset (dq_list q')"
  using assms by (rule dq.run_conserves)

text \<open>
  On a well-formed deque the emptiness and fullness tests are exact and every slot a counter
  addresses lies inside the 128-entry array.
\<close>

lemma deque_tests_exact:
  assumes "dq_inv q"
  shows "(isEmpty_Queue q \<longleftrightarrow> dq_list q = []) \<and> (isFull_Queue q \<longleftrightarrow> length (dq_list q) = 128)
     \<and> slot c q < length (entries q)"
  using assms isEmpty_Queue_iff isFull_Queue_iff
  by (auto simp: MAX_QUEUE_ENTRIES_def slot_def dq_inv_def u8_slot)

end
