(* ===== verification/Deque_Conc.thy ===== *)
theory Deque_Conc
  imports Deque
begin

text \<open>
  \<open>src/queue.c\<close> again, taken apart into its accesses to shared memory: one owner running
  \<open>enqueue\<close> and \<open>dequeue_front\<close> and any number of thieves running \<open>dequeue_back\<close>,
  interleaved arbitrarily.  Each step is one read, write or compare-and-swap of the C code on a
  sequentially consistent memory (the fences of the source, \<open>__sync_synchronize\<close>, order the
  store to \<open>bottom\<close> before the load of \<open>top\<close>).

  The state carries four ghost components that no step of the code reads: the unbounded
  positions \<open>gT\<close> and \<open>gB\<close> of the two ends, and the logs of the tasks accepted and
  handed out.  A thief also remembers, as a ghost, the position it read \<open>top\<close> at.  The
  main result is that no task is lost or handed out twice as long as no steal is overtaken by 256
  increments of \<open>top\<close> (\<open>window\<close>), and that without this proviso a task can be handed
  out twice (the ABA problem of the one-byte counter).
\<close>

section \<open>Program points\<close>

text \<open>The owner inside \<open>enqueue\<close> (\<open>E...\<close>) or \<open>dequeue_front\<close> (\<open>P...\<close>), with its locals.\<close>

datatype 't owner_pc =
    OIdle
  | ETop 't u8              \<comment> \<open>\<open>b\<close> read, about to read \<open>top\<close>\<close>
  | EWrite 't u8            \<comment> \<open>not full, about to store the entry\<close>
  | EPublish 't u8          \<comment> \<open>entry stored, about to store \<open>bottom\<close>\<close>
  | PTop u8                 \<comment> \<open>\<open>bottom\<close> decremented to \<open>b\<close>, about to read \<open>top\<close>\<close>
  | PEmpty u8               \<comment> \<open>found empty, about to restore \<open>bottom\<close> to \<open>t\<close>\<close>
  | PRead u8 u8             \<comment> \<open>about to read the entry of \<open>b\<close>, with \<open>t\<close>\<close>
  | PCas u8 "'t option"     \<comment> \<open>last entry: about to race for \<open>top\<close>\<close>
  | PRestore u8 "'t option" \<comment> \<open>about to set \<open>bottom\<close> to \<open>t + 1\<close> and return\<close>

text \<open>A thief inside \<open>dequeue_back\<close>; the \<open>nat\<close> is the ghost position of its \<open>t\<close>.\<close>

datatype 't thief_pc =
    TIdle
  | TBottom u8 nat
  | TRead u8 nat
  | TCas u8 nat "'t option"

record 't dq_sys =
  queue :: "'t queue_t"
  owner :: "'t owner_pc"
  thief :: "nat \<Rightarrow> 't thief_pc"
  gT :: nat
  gB :: nat
  pushed :: "'t list"
  taken :: "'t list"

definition log_taken :: "'t option \<Rightarrow> 't dq_sys \<Rightarrow> 't dq_sys" where
  "log_taken v s = (case v of None \<Rightarrow> s | Some x \<Rightarrow> s\<lparr>taken := x # taken s\<rparr>)"

definition dq_start :: "'t queue_t \<Rightarrow> 't dq_sys" where
  "dq_start q0 = \<lparr>queue = init_queue q0, owner = OIdle, thief = (\<lambda>_. TIdle),
                  gT = 0, gB = 0, pushed = [], taken = []\<rparr>"

section \<open>Steps\<close>

text \<open>One step of the owner; \<open>call\<close> says which operation an idle owner starts.\<close>

definition owner_step :: "'t option \<Rightarrow> 't dq_sys \<Rightarrow> 't dq_sys" where
  "owner_step call s =
     (case owner s of
        OIdle \<Rightarrow>
          (case call of
             Some x \<Rightarrow> s\<lparr>owner := ETop x (bottom (queue s))\<rparr>
           | None \<Rightarrow> s\<lparr>queue := (queue s)\<lparr>bottom := bottom (queue s) - 1\<rparr>, owner := PTop (bottom (queue s) - 1)\<rparr>)
      | ETop x b \<Rightarrow>
          if ucast (b XOR top (queue s)) = size (queue s) then s\<lparr>owner := OIdle\<rparr>
          else s\<lparr>owner := EWrite x b\<rparr>
      | EWrite x b \<Rightarrow>
          s\<lparr>queue := (queue s)\<lparr>entries := (entries (queue s))[slot b (queue s) := Some x]\<rparr>, owner := EPublish x b\<rparr>
      | EPublish x b \<Rightarrow>
          s\<lparr>queue := (queue s)\<lparr>bottom := b + 1\<rparr>, owner := OIdle, gB := gB s + 1, pushed := x # pushed s\<rparr>
      | PTop b \<Rightarrow>
          (let t = top (queue s) in
           if b + 1 = t then s\<lparr>owner := PEmpty t\<rparr>
           else s\<lparr>owner := PRead b t, gB := (if b \<noteq> t then gB s - 1 else gB s)\<rparr>)
      | PEmpty t \<Rightarrow> s\<lparr>queue := (queue s)\<lparr>bottom := t\<rparr>, owner := OIdle\<rparr>
      | PRead b t \<Rightarrow>
          (let v = entries (queue s) ! slot b (queue s) in
           if b \<noteq> t then log_taken v (s\<lparr>owner := OIdle\<rparr>)
           else s\<lparr>owner := PCas t v\<rparr>)
      | PCas t v \<Rightarrow>
          (let (ok, q') = cas_top t (t + 1) (queue s) in
           s\<lparr>queue := q', gT := (if ok then gT s + 1 else gT s),
             owner := PRestore t (if \<not> ok then None else v)\<rparr>)
      | PRestore t v \<Rightarrow> log_taken v (s\<lparr>queue := (queue s)\<lparr>bottom := t + 1\<rparr>, owner := OIdle\<rparr>))"

text \<open>One step of thief \<open>j\<close>.\<close>

definition thief_step :: "nat \<Rightarrow> 't dq_sys \<Rightarrow> 't dq_sys" where
  "thief_step j s =
     (case thief s j of
        TIdle \<Rightarrow> s\<lparr>thief := (thief s)(j := TBottom (top (queue s)) (gT s))\<rparr>
      | TBottom t g \<Rightarrow>
          (let b = bottom (queue s) in
           if b = t \<or> b + 1 = t then s\<lparr>thief := (thief s)(j := TIdle)\<rparr>
           else s\<lparr>thief := (thief s)(j := TRead t g)\<rparr>)
      | TRead t g \<Rightarrow> s\<lparr>thief := (thief s)(j := TCas t g (entries (queue s) ! slot t (queue s)))\<rparr>
      | TCas t g v \<Rightarrow>
          (let (ok, q') = cas_top t (t + 1) (queue s); s' = s\<lparr>thief := (thief s)(j := TIdle)\<rparr> in
           if ok then log_taken v (s'\<lparr>queue := q', gT := gT s + 1\<rparr>) else s'))"

inductive dq_step :: "'t dq_sys \<Rightarrow> 't dq_sys \<Rightarrow> bool" where
  owner: "dq_step s (owner_step call s)"
| thief: "dq_step s (thief_step j s)"

text \<open>No steal in flight has been overtaken by 256 increments of \<open>top\<close>.\<close>

definition window :: "'t dq_sys \<Rightarrow> bool" where
  "window s \<longleftrightarrow> (\<forall>j t g v. thief s j = TCas t g v \<longrightarrow> gT s < g + 256)"

text \<open>Executions from a fresh deque: all of them, and those that stay inside the window.\<close>

inductive dq_run :: "'t dq_sys \<Rightarrow> bool" where
  start: "dq_run (dq_start q0)"
| step: "dq_run s \<Longrightarrow> dq_step s s' \<Longrightarrow> dq_run s'"

inductive dq_run_window :: "'t dq_sys \<Rightarrow> bool" where
  start_window: "dq_run_window (dq_start q0)"
| step_window: "dq_run_window s \<Longrightarrow> dq_step s s' \<Longrightarrow> window s' \<Longrightarrow> dq_run_window s'"

lemma log_taken_simps [simp]:
  "queue (log_taken v s) = queue s" "owner (log_taken v s) = owner s" "thief (log_taken v s) = thief s"
  "gT (log_taken v s) = gT s" "gB (log_taken v s) = gB s" "pushed (log_taken v s) = pushed s"
  "mset (taken (log_taken v s)) = mset (taken s) + (case v of None \<Rightarrow> {#} | Some x \<Rightarrow> {#x#})"
  by (simp_all add: log_taken_def split: option.splits)

section \<open>The invariant\<close>

text \<open>The tasks in the deque, between the two ghost positions.\<close>

definition live :: "'t dq_sys \<Rightarrow> 't option list" where
  "live s = slots (entries (queue s)) (gT s) (gB s)"

definition shared_ok :: "'t dq_sys \<Rightarrow> bool" where
  "shared_ok s \<longleftrightarrow>
     size (queue s) = 128 \<and> length (entries (queue s)) = 128 \<and> top (queue s) = of_nat (gT s)
     \<and> gT s \<le> gB s \<and> gB s \<le> gT s + 128 \<and> None \<notin> set (live s)"

text \<open>Where \<open>bottom\<close> stands, by the owner's program point.\<close>

definition owner_ok :: "'t dq_sys \<Rightarrow> bool" where
  "owner_ok s =
     (case owner s of
        OIdle \<Rightarrow> bottom (queue s) = of_nat (gB s)
      | ETop x b \<Rightarrow> bottom (queue s) = of_nat (gB s) \<and> b = of_nat (gB s)
      | EWrite x b \<Rightarrow> bottom (queue s) = of_nat (gB s) \<and> b = of_nat (gB s) \<and> gB s < gT s + 128
      | EPublish x b \<Rightarrow> bottom (queue s) = of_nat (gB s) \<and> b = of_nat (gB s) \<and> gB s < gT s + 128
          \<and> entries (queue s) ! (gB s mod 128) = Some x
      | PTop b \<Rightarrow> bottom (queue s) = of_nat (gB s) - 1 \<and> b = of_nat (gB s) - 1
      | PEmpty t \<Rightarrow> bottom (queue s) = of_nat (gB s) - 1 \<and> t = of_nat (gB s) \<and> gT s = gB s
      | PRead b t \<Rightarrow>
          if b \<noteq> t
          then bottom (queue s) = of_nat (gB s) \<and> b = of_nat (gB s) \<and> gB s < gT s + 128
            \<and> entries (queue s) ! (gB s mod 128) \<noteq> None
          else bottom (queue s) = of_nat (gB s) - 1 \<and> b = of_nat (gB s) - 1 \<and> 0 < gB s
            \<and> gB s \<le> gT s + 1 \<and> entries (queue s) ! ((gB s - 1) mod 128) \<noteq> None
      | PCas t v \<Rightarrow> bottom (queue s) = of_nat (gB s) - 1 \<and> t = of_nat (gB s) - 1 \<and> 0 < gB s
          \<and> gB s \<le> gT s + 1 \<and> v = entries (queue s) ! ((gB s - 1) mod 128) \<and> v \<noteq> None
      | PRestore t v \<Rightarrow> bottom (queue s) = of_nat (gB s) - 1 \<and> t = of_nat (gB s) - 1 \<and> gT s = gB s)"

definition thief_ok :: "'t dq_sys \<Rightarrow> 't thief_pc \<Rightarrow> bool" where
  "thief_ok s p =
     (case p of
        TIdle \<Rightarrow> True
      | TBottom t g \<Rightarrow> t = of_nat g \<and> g \<le> gT s
      | TRead t g \<Rightarrow> t = of_nat g \<and> g \<le> gT s \<and> (g = gT s \<longrightarrow> gT s < gB s)
      | TCas t g v \<Rightarrow> t = of_nat g \<and> g \<le> gT s
          \<and> (g = gT s \<longrightarrow> gT s < gB s \<and> v = entries (queue s) ! (g mod 128)))"

text \<open>The task the owner has taken out of the deque and not returned yet.\<close>

definition pending :: "'t dq_sys \<Rightarrow> 't multiset" where
  "pending s =
     (case owner s of
        PRead b t \<Rightarrow> if b \<noteq> t then {#the (entries (queue s) ! (gB s mod 128))#} else {#}
      | PRestore t (Some x) \<Rightarrow> {#x#}
      | _ \<Rightarrow> {#})"

definition conserved :: "'t dq_sys \<Rightarrow> bool" where
  "conserved s \<longleftrightarrow> mset (pushed s) = mset (taken s) + pending s + mset (map the (live s))"

definition dq_ok :: "'t dq_sys \<Rightarrow> bool" where
  "dq_ok s \<longleftrightarrow> shared_ok s \<and> owner_ok s \<and> (\<forall>j. thief_ok s (thief s j)) \<and> conserved s"

lemma dq_start_ok: "dq_ok (dq_start q0)"
  by (simp add: dq_ok_def shared_ok_def owner_ok_def thief_ok_def conserved_def dq_start_def
      live_def pending_def init_queue_def Let_def MAX_QUEUE_ENTRIES_def)

section \<open>Counters near each other\<close>

lemma bottom_cases:
  "owner_ok s \<Longrightarrow> bottom (queue s) = of_nat (gB s) \<or> bottom (queue s) = of_nat (gB s) - 1"
  unfolding owner_ok_def by (cases "owner s") (simp_all split: if_splits)

lemma near_eq: "shared_ok s \<Longrightarrow> (of_nat (gB s) :: u8) = of_nat (gT s) \<longleftrightarrow> gB s = gT s"
proof
  assume sh: "shared_ok s" and eq: "(of_nat (gB s) :: u8) = of_nat (gT s)"
  have "gT s = gB s"
    by (rule of_nat_u8_eq_near) (use sh eq in \<open>simp_all add: shared_ok_def\<close>)
  then show "gB s = gT s" by simp
qed simp

lemma near_full: "shared_ok s \<Longrightarrow>
    ucast ((of_nat (gB s) :: u8) XOR of_nat (gT s)) = (128 :: u32) \<longleftrightarrow> gB s = gT s + 128"
proof -
  assume sh: "shared_ok s"
  have "ucast ((of_nat (gB s) :: u8) XOR of_nat (gT s)) = (128 :: u32) \<longleftrightarrow>
      (of_nat (gB s) :: u8) XOR of_nat (gT s) = 128"
    by (metis ucast_u8_u32_128 ucast_u8_u32_inj)
  also have "\<dots> \<longleftrightarrow> (of_nat (gB s) :: u8) = of_nat (gT s + 128)"
    by (simp add: u8_xor_eq_128)
  also have "\<dots> \<longleftrightarrow> gB s = gT s + 128"
  proof
    assume eq: "(of_nat (gB s) :: u8) = of_nat (gT s + 128)"
    show "gB s = gT s + 128"
      by (rule of_nat_u8_eq_near [OF _ _ eq]) (use sh in \<open>simp_all add: shared_ok_def\<close>)
  qed simp
  finally show ?thesis .
qed

lemma near_last: "shared_ok s \<Longrightarrow> (of_nat (gB s) :: u8) - 1 = of_nat (gT s) \<longleftrightarrow> gB s = gT s + 1"
proof -
  assume sh: "shared_ok s"
  have "(of_nat (gB s) :: u8) - 1 = of_nat (gT s) \<longleftrightarrow> (of_nat (gB s) :: u8) = of_nat (gT s + 1)"
    by (simp add: diff_eq_eq add.commute)
  also have "\<dots> \<longleftrightarrow> gB s = gT s + 1"
  proof
    assume eq: "(of_nat (gB s) :: u8) = of_nat (gT s + 1)"
    show "gB s = gT s + 1"
    proof (cases "gB s \<le> gT s + 1")
      case True
      show ?thesis
        by (rule of_nat_u8_eq_near [OF True _ eq]) (use sh in \<open>simp add: shared_ok_def\<close>)
    next
      case False
      have "gT s + 1 = gB s"
        by (rule of_nat_u8_eq_near [OF _ _ eq [symmetric]])
           (use sh False in \<open>simp_all add: shared_ok_def\<close>)
      then show ?thesis by simp
    qed
  qed simp
  finally show ?thesis .
qed

lemma last_slot: "size qq = 128 \<Longrightarrow> 0 < n \<Longrightarrow> slot (of_nat n - 1) qq = (n - 1) mod 128"
  using rep_slot [of qq "n - 1"] by simp

section \<open>Framing the thieves\<close>

lemma thief_ok_frame:
  assumes "thief_ok s p" and "gT s' = gT s"
    and "gT s < gB s \<Longrightarrow> gT s < gB s'"
    and "gT s < gB s \<Longrightarrow> entries (queue s') ! (gT s mod 128) = entries (queue s) ! (gT s mod 128)"
  shows "thief_ok s' p"
  using assms unfolding thief_ok_def by (cases p) auto

lemma thief_ok_advance: "thief_ok s p \<Longrightarrow> gT s' = Suc (gT s) \<Longrightarrow> thief_ok s' p"
  unfolding thief_ok_def by (cases p) auto

lemma dq_okI:
  assumes "shared_ok s'" and "owner_ok s'" and "conserved s'"
    and "\<And>j. thief_ok s' (thief s' j)"
  shows "dq_ok s'"
  using assms by (simp add: dq_ok_def)

lemma head_is_task:
  assumes "shared_ok s" and "gT s < gB s"
  shows "\<exists>x. entries (queue s) ! (gT s mod 128) = Some x"
  using assms by (cases "entries (queue s) ! (gT s mod 128)") (auto simp: shared_ok_def live_def slots_cons)

lemmas dq_defs = dq_ok_def shared_ok_def owner_ok_def conserved_def live_def pending_def

section \<open>Every step of the owner keeps the invariant\<close>

lemma owner_moves:
  assumes "dq_ok s" and "thief s' = thief s" and "gT s' = gT s"
    and "shared_ok s'" and "owner_ok s'" and "conserved s'"
    and "gT s < gB s \<Longrightarrow> gT s < gB s'"
    and "gT s < gB s \<Longrightarrow> entries (queue s') ! (gT s mod 128) = entries (queue s) ! (gT s mod 128)"
  shows "dq_ok s'"
proof (rule dq_okI)
  show "thief_ok s' (thief s' j)" for j
    unfolding assms(2) by (rule thief_ok_frame [of s]) (use assms in \<open>auto simp: dq_ok_def\<close>)
qed (use assms in auto)

lemma step_idle: "dq_ok s \<Longrightarrow> owner s = OIdle \<Longrightarrow> dq_ok (owner_step call s)"
  by (rule owner_moves [of s]; cases call) (auto simp: dq_defs owner_step_def)

lemma step_etop:
  assumes ok: "dq_ok s" and o: "owner s = ETop x b"
  shows "dq_ok (owner_step call s)"
  by (rule owner_moves [OF ok])
     (use near_full [of s] ok o in \<open>auto simp: dq_defs owner_step_def\<close>)

lemma step_ewrite:
  assumes ok: "dq_ok s" and o: "owner s = EWrite x b"
  shows "dq_ok (owner_step call s)"
  by (rule owner_moves [OF ok])
     (use live_slot_neq [of "gT s" "gT s" "gB s"] ok o in
        \<open>auto simp: dq_defs owner_step_def rep_slot slots_update_free\<close>)

lemma step_epublish: "dq_ok s \<Longrightarrow> owner s = EPublish x b \<Longrightarrow> dq_ok (owner_step call s)"
  by (rule owner_moves [of s]) (auto simp: dq_defs owner_step_def slots_snoc add.commute)

lemma step_pempty: "dq_ok s \<Longrightarrow> owner s = PEmpty t \<Longrightarrow> dq_ok (owner_step call s)"
  by (rule owner_moves [of s]) (auto simp: dq_defs owner_step_def)

lemma step_pread: "dq_ok s \<Longrightarrow> owner s = PRead b t \<Longrightarrow> dq_ok (owner_step call s)"
  by (rule owner_moves [of s])
     (auto simp: dq_defs owner_step_def Let_def rep_slot last_slot split: if_splits)

lemma step_prestore: "dq_ok s \<Longrightarrow> owner s = PRestore t v \<Longrightarrow> dq_ok (owner_step call s)"
  by (rule owner_moves [of s]) (auto simp: dq_defs owner_step_def split: option.splits)

lemma step_ptop:
  assumes ok: "dq_ok s" and o: "owner s = PTop b"
  shows "dq_ok (owner_step call s)"
proof -
  have sh: "shared_ok s" using ok by (simp add: dq_ok_def)
  have b: "b = of_nat (gB s) - 1" "bottom (queue s) = of_nat (gB s) - 1"
    and t: "top (queue s) = of_nat (gT s)"
    using ok o by (auto simp: dq_defs)
  consider "gB s = gT s" | "gB s = gT s + 1" | "gT s + 1 < gB s"
    using sh by (fastforce simp: shared_ok_def)
  then show ?thesis
  proof cases
    case 1
    then show ?thesis
      by (intro owner_moves [OF ok]) (use sh o b t ok in \<open>auto simp: dq_defs owner_step_def\<close>)
  next
    case 2
    then obtain y where "entries (queue s) ! (gT s mod 128) = Some y"
      using head_is_task [OF sh] by auto
    with 2 show ?thesis
      by (intro owner_moves [OF ok]) (use sh o b t ok in \<open>auto simp: dq_defs owner_step_def Let_def\<close>)
  next
    case 3
    then have "b \<noteq> top (queue s)" "b + 1 \<noteq> top (queue s)"
      using b t near_last [OF sh] near_eq [OF sh] by auto
    then have s': "owner_step call s = s\<lparr>owner := PRead b (top (queue s)), gB := gB s - 1\<rparr>"
      using o by (simp add: owner_step_def Let_def)
    obtain B where B: "gB s = Suc B" "gT s < B" using 3 by (cases "gB s") auto
    with 3 show ?thesis unfolding s'
      by (intro owner_moves [OF ok])
         (use sh o b t ok \<open>b \<noteq> top (queue s)\<close> in
           \<open>auto simp: dq_defs slots_snoc None_neq_conv\<close>)
  qed
qed

lemma step_pcas:
  assumes ok: "dq_ok s" and o: "owner s = PCas t v"
  shows "dq_ok (owner_step call s)"
proof (cases "top (queue s) = t")
  case False
  then have s': "owner_step call s = s\<lparr>owner := PRestore t None\<rparr>"
    using o by (simp add: owner_step_def cas_top_def)
  have "gT s = gB s"
    using ok o False near_last [of s] by (auto simp: dq_defs le_Suc_eq)
  then show ?thesis unfolding s'
    by (intro owner_moves [OF ok]) (use ok o in \<open>auto simp: dq_defs\<close>)
next
  case True
  have last: "gB s = gT s + 1"
    using ok o True near_last [of s] by (auto simp: dq_defs)
  have s': "owner_step call s
      = s\<lparr>queue := (queue s)\<lparr>top := t + 1\<rparr>, gT := gT s + 1, owner := PRestore t v\<rparr>"
    using o True by (simp add: owner_step_def cas_top_def)
  show ?thesis
  proof (rule dq_okI)
    show "thief_ok (owner_step call s) (thief (owner_step call s) j)" for j
      by (rule thief_ok_advance [of s]) (use ok in \<open>auto simp: s' dq_ok_def\<close>)
  qed (use ok o last True in \<open>auto simp: s' dq_defs slots_cons add.commute\<close>)
qed

lemma owner_step_ok: "dq_ok s \<Longrightarrow> dq_ok (owner_step call s)"
  by (cases "owner s") (auto intro: step_idle step_etop step_ewrite step_epublish step_ptop
      step_pempty step_pread step_pcas step_prestore)

section \<open>Every step of a thief keeps the invariant\<close>

lemma thief_quiet:
  assumes ok: "dq_ok s" and p: "thief_ok s p"
  shows "dq_ok (s\<lparr>thief := (thief s)(j := p)\<rparr>)"
proof (rule dq_okI)
  let ?s = "s\<lparr>thief := (thief s)(j := p)\<rparr>"
  show "thief_ok ?s (thief ?s i)" for i
  proof -
    have "thief_ok s (thief ?s i)" using ok p by (simp add: dq_ok_def)
    then show ?thesis by (rule thief_ok_frame) simp_all
  qed
qed (use ok in \<open>cases "owner s"; auto simp: dq_defs split: option.splits\<close>)+

lemma thief_step_ok:
  assumes ok: "dq_ok s" and w: "window s"
  shows "dq_ok (thief_step j s)"
proof (cases "thief s j")
  case TIdle
  then show ?thesis
    using thief_quiet [OF ok] ok by (simp add: thief_step_def thief_ok_def dq_ok_def shared_ok_def)
next
  case (TBottom t g)
  have th: "t = of_nat g" "g \<le> gT s" using ok TBottom by (auto simp: dq_ok_def thief_ok_def dest!: spec [of _ j])
  show ?thesis
  proof (cases "bottom (queue s) = t \<or> bottom (queue s) + 1 = t")
    case True
    then show ?thesis using TBottom thief_quiet [OF ok, of TIdle j]
      by (simp add: thief_step_def thief_ok_def Let_def)
  next
    case False
    have "gT s < gB s" if "g = gT s"
      using False th that bottom_cases [of s] ok by (auto simp: dq_ok_def shared_ok_def nat_less_le)
    then show ?thesis using False TBottom th thief_quiet [OF ok, of "TRead t g" j]
      by (simp add: thief_step_def thief_ok_def Let_def)
  qed
next
  case (TRead t g)
  have "thief_ok s (TRead t g)" using ok TRead by (metis dq_ok_def)
  then have "thief_ok s (TCas t g (entries (queue s) ! slot t (queue s)))"
    using ok by (auto simp: thief_ok_def rep_slot dq_ok_def shared_ok_def)
  then show ?thesis using TRead thief_quiet [OF ok] by (simp add: thief_step_def)
next
  case (TCas t g v)
  have th: "thief_ok s (TCas t g v)" using ok TCas by (metis dq_ok_def)
  show ?thesis
  proof (cases "top (queue s) = t")
    case False
    then show ?thesis using TCas thief_quiet [OF ok, of TIdle j]
      by (simp add: thief_step_def cas_top_def thief_ok_def)
  next
    case True
    have "g = gT s"
    proof (rule of_nat_u8_eq_near)
      show "gT s < g + 256" using w TCas by (auto simp: window_def)
    qed (use True th ok in \<open>auto simp: thief_ok_def dq_ok_def shared_ok_def\<close>)
    then have head: "gT s < gB s" "v = entries (queue s) ! (gT s mod 128)" "t = of_nat (gT s)"
      using th by (auto simp: thief_ok_def)
    then obtain y where y: "v = Some y" "entries (queue s) ! (gT s mod 128) = Some y"
      using head_is_task [of s] ok by (auto simp: dq_ok_def)
    have s': "thief_step j s = log_taken v (s\<lparr>thief := (thief s)(j := TIdle),
        queue := (queue s)\<lparr>top := t + 1\<rparr>, gT := gT s + 1\<rparr>)"
      using True TCas by (simp add: thief_step_def cas_top_def)
    show ?thesis
    proof (rule dq_okI)
      show "thief_ok (thief_step j s) (thief (thief_step j s) i)" for i
        by (rule thief_ok_advance [of s]) (use ok in \<open>auto simp: s' dq_ok_def thief_ok_def\<close>)
      show "shared_ok (thief_step j s)"
        using ok head by (auto simp: s' dq_defs slots_cons add.commute)
      show "conserved (thief_step j s)"
        using ok head(1,3) y by (cases "owner s") (auto simp: s' dq_defs slots_cons split: option.splits)
      show "owner_ok (thief_step j s)"
        using ok head(1,3) y by (cases "owner s") (auto simp: s' dq_defs split: if_splits)
    qed
  qed
qed

lemma dq_step_ok: "dq_step s s' \<Longrightarrow> dq_ok s \<Longrightarrow> window s \<Longrightarrow> dq_ok s'"
  by (induction rule: dq_step.induct) (auto intro: owner_step_ok thief_step_ok)

lemma dq_run_window_ok: "dq_run_window s \<Longrightarrow> dq_ok s \<and> window s"
proof (induction rule: dq_run_window.induct)
  case (start_window q0)
  show ?case using dq_start_ok by (simp add: window_def dq_start_def)
next
  case (step_window s s')
  then show ?case by (blast intro: dq_step_ok)
qed

lemma owner_step_thief: "thief (owner_step c s) = thief s"
  by (cases "owner s") (auto simp: owner_step_def Let_def cas_top_def split: option.splits)

lemma dq_run_window_owner:
  assumes "dq_run_window s \<and> thief s = (\<lambda>_. TIdle)"
  shows "dq_run_window (owner_step c s) \<and> thief (owner_step c s) = (\<lambda>_. TIdle)"
  using assms dq_run_window.step_window [OF _ dq_step.owner, of s c]
  by (simp add: owner_step_thief window_def)

section \<open>The one-byte counter wraps\<close>

text \<open>A push by the owner and a steal by thief 1, uninterrupted.\<close>

definition push_all :: "'t \<Rightarrow> 't dq_sys \<Rightarrow> 't dq_sys" where
  "push_all x = owner_step (Some x) \<circ> owner_step (Some x) \<circ> owner_step (Some x) \<circ> owner_step (Some x)"

definition steal_all :: "nat \<Rightarrow> 't dq_sys \<Rightarrow> 't dq_sys" where
  "steal_all j = thief_step j \<circ> thief_step j \<circ> thief_step j \<circ> thief_step j"

lemma dq_run_owner: "dq_run s \<Longrightarrow> dq_run (owner_step c s)"
  by (rule dq_run.step [OF _ dq_step.owner])

lemma dq_run_thief: "dq_run s \<Longrightarrow> dq_run (thief_step j s)"
  by (rule dq_run.step [OF _ dq_step.thief])

lemma dq_run_all: "dq_run s \<Longrightarrow> dq_run (push_all x s)" "dq_run s \<Longrightarrow> dq_run (steal_all j s)"
  by (simp_all add: push_all_def steal_all_def dq_run_owner dq_run_thief)

definition at_rest :: "nat \<Rightarrow> 't dq_sys \<Rightarrow> bool" where
  "at_rest n s \<longleftrightarrow> owner s = OIdle \<and> thief s 1 = TIdle \<and> size (queue s) = 128
     \<and> length (entries (queue s)) = 128 \<and> bottom (queue s) = of_nat n \<and> top (queue s) = of_nat n"

lemma push_at_rest:
  assumes "at_rest n s"
  shows "push_all x s = s\<lparr>queue := (queue s)\<lparr>entries := (entries (queue s))[n mod 128 := Some x],
      bottom := of_nat n + 1\<rparr>, gB := gB s + 1, pushed := x # pushed s\<rparr>"
  using assms by (simp add: at_rest_def push_all_def owner_step_def rep_slot)

lemma round_at_rest:
  assumes "at_rest n s"
  shows "at_rest (Suc n) (steal_all 1 (push_all x s))
    \<and> thief (steal_all 1 (push_all x s)) = thief s
    \<and> pushed (steal_all 1 (push_all x s)) = x # pushed s
    \<and> taken (steal_all 1 (push_all x s)) = x # taken s"
proof -
  have "(of_nat n :: u8) + 1 \<noteq> of_nat n" by simp
  moreover have "(of_nat n :: u8) + 1 + 1 \<noteq> of_nat n" by (simp add: add.assoc)
  moreover have "n mod 128 < 128" by simp
  ultimately show ?thesis
    using assms unfolding push_at_rest [OF assms]
    by (simp add: at_rest_def steal_all_def thief_step_def Let_def rep_slot cas_top_def log_taken_def
        fun_upd_idem add.commute)
qed

fun rounds :: "nat \<Rightarrow> nat dq_sys \<Rightarrow> nat dq_sys" where
  "rounds 0 s = s"
| "rounds (Suc n) s = steal_all 1 (push_all (Suc n) (rounds n s))"

text \<open>
  Task 0 is pushed, thief 0 reads it but is delayed before its compare-and-swap, thief 1 takes it;
  255 more tasks go through the deque, so \<open>top\<close> is back at 0; task 256 is pushed and thief 0
  resumes.
\<close>

definition aba_prefix :: "nat dq_sys \<Rightarrow> nat dq_sys" where
  "aba_prefix s = steal_all 1 (thief_step 0 (thief_step 0 (thief_step 0 (push_all 0 s))))"

definition aba_run :: "nat queue_t \<Rightarrow> nat dq_sys" where
  "aba_run q0 = thief_step 0 (push_all 256 (rounds 255 (aba_prefix (dq_start q0))))"

lemma aba_prefix_state:
  "at_rest 1 (aba_prefix (dq_start q0)) \<and> thief (aba_prefix (dq_start q0)) 0 = TCas 0 0 (Some 0)
    \<and> pushed (aba_prefix (dq_start q0)) = [0] \<and> taken (aba_prefix (dq_start q0)) = [0]"
  by (simp add: aba_prefix_def push_all_def steal_all_def dq_start_def owner_step_def thief_step_def
      Let_def init_queue_def MAX_QUEUE_ENTRIES_def slot_def cas_top_def log_taken_def at_rest_def)

lemma rounds_state:
  assumes "at_rest 1 s" and "thief s 0 = p" and "pushed s = [0]" and "taken s = [0]"
  shows "at_rest (Suc n) (rounds n s) \<and> thief (rounds n s) 0 = p
    \<and> pushed (rounds n s) = rev [0..<Suc n] \<and> taken (rounds n s) = rev [0..<Suc n]"
proof (induction n)
  case 0
  then show ?case using assms by simp
next
  case (Suc n)
  then show ?case
    using round_at_rest [of "Suc n" "rounds n s" "Suc n"] by simp
qed

lemma dq_run_rounds: "dq_run s \<Longrightarrow> dq_run (rounds n s)"
  by (induction n) (simp_all add: dq_run_all)

lemma dq_run_aba: "dq_run (aba_run q0)"
  by (simp add: aba_run_def aba_prefix_def dq_run_thief dq_run_all dq_run_rounds dq_run.start)

lemma aba_state:
  "pushed (aba_run q0) = rev [0..<257] \<and> taken (aba_run q0) = 0 # rev [0..<256]
   \<and> isEmpty_Queue (queue (aba_run q0)) \<and> owner (aba_run q0) = OIdle"
proof -
  let ?s = "rounds 255 (aba_prefix (dq_start q0))"
  have r: "at_rest 256 ?s" "thief ?s 0 = TCas 0 0 (Some 0)" "pushed ?s = rev [0..<256]"
    "taken ?s = rev [0..<256]"
    using rounds_state [of "aba_prefix (dq_start q0)" _ 255] aba_prefix_state [of q0]
    by (simp_all only: simp_thms) simp_all
  then have t: "top (queue ?s) = 0" by (simp add: at_rest_def)
  have upt: "[0..<257] = [0..<256] @ [256]" using upt_Suc_append [of 0 256] by simp
  show ?thesis
    unfolding aba_run_def push_at_rest [OF r(1)] thief_step_def
    using r(1-4) t by (simp add: cas_top_def log_taken_def isEmpty_Queue_def at_rest_def upt)
qed

section \<open>Properties\<close>

text \<open>
  C6: in every interleaving of the owner with any number of thieves in which no steal is
  overtaken by 256 increments of \<open>top\<close>, each task accepted by \<open>enqueue\<close> is, with its
  multiplicity, either handed out, in the owner's hands, or live in the deque; the deque never
  holds more than 128 tasks and no live slot is empty.
\<close>

theorem deque_linear:
  assumes "dq_run_window s"
  shows "mset (pushed s) = mset (taken s) + pending s + mset (map the (live s))
    \<and> length (live s) \<le> 128 \<and> None \<notin> set (live s)"
  using dq_run_window_ok [OF assms] by (auto simp: dq_defs)

theorem deque_linear_witness:
  "mset (pushed (push_all 5 (dq_start \<lparr>bottom = 3, top = 9, size = 0, entries = []\<rparr>)))
    = mset (taken (push_all (5::nat) (dq_start \<lparr>bottom = 3, top = 9, size = 0, entries = []\<rparr>)))
      + {#5#}"
proof -
  let ?q = "\<lparr>bottom = 3, top = 9, size = 0, entries = []\<rparr> :: nat queue_t"
  have "dq_run_window (dq_start ?q) \<and> thief (dq_start ?q) = (\<lambda>_. TIdle)"
    by (simp add: dq_run_window.start_window) (simp add: dq_start_def)
  from dq_run_window_owner [OF dq_run_window_owner [OF dq_run_window_owner
      [OF dq_run_window_owner [OF this]]], of "Some 5" "Some 5" "Some 5" "Some 5"]
  have "dq_run_window (push_all 5 (dq_start ?q))"
    by (simp add: push_all_def)
  from deque_linear [OF this] show ?thesis
    by (simp add: push_all_def dq_start_def owner_step_def Let_def init_queue_def
        MAX_QUEUE_ENTRIES_def slot_def pending_def live_def slots_def)
qed

text \<open>
  As long as the tasks pushed are distinct, no task is handed out twice, to the owner or to
  any thief, and no task handed out is still in the deque (same proviso on overtaken steals).
\<close>

lemma deque_at_most_once:
  assumes "dq_run_window s" and "distinct (pushed s)"
  shows "distinct (taken s) \<and> set (taken s) \<inter> set (map the (live s)) = {}
    \<and> set (taken s) \<subseteq> set (pushed s)"
proof -
  have m: "mset (pushed s) = mset (taken s) + (pending s + mset (map the (live s)))"
    using dq_run_window_ok [OF assms(1)] by (simp add: dq_ok_def conserved_def add.assoc)
  from mset_split_distinct [OF m assms(2)] show ?thesis by auto
qed

text \<open>
  C8: without that proviso the deque is not safe: there is an execution of one owner and two
  thieves that pushes 257 different tasks, hands task 0 out twice and loses task 256, because
  \<open>top\<close> has come back to the value a delayed thief remembers.
\<close>

theorem deque_aba:
  "\<exists>s. dq_run s \<and> distinct (pushed s) \<and> count (mset (taken s)) (0::nat) = 2
     \<and> 256 \<in> set (pushed s) \<and> 256 \<notin> set (taken s) \<and> isEmpty_Queue (queue s) \<and> owner s = OIdle"
proof -
  let ?s = "aba_run \<lparr>bottom = 0, top = 0, size = 0, entries = []\<rparr>"
  note st = aba_state [of "\<lparr>bottom = 0, top = 0, size = 0, entries = []\<rparr>"]
  have "count (mset (taken ?s)) 0 = 2"
    using st distinct_count_atmost_1 [of "rev [0..<256]"] by (simp del: upt_rec_numeral)
  with st have "distinct (pushed ?s) \<and> count (mset (taken ?s)) 0 = 2 \<and> 256 \<in> set (pushed ?s)
      \<and> 256 \<notin> set (taken ?s) \<and> isEmpty_Queue (queue ?s) \<and> owner ?s = OIdle"
    by (simp del: upt_rec_numeral)
  with dq_run_aba show ?thesis by blast
qed

end
