(* ===== verification/NotifyStack.thy ===== *)
theory NotifyStack
  imports Prelude
begin

text \<open>
  \<open>src/stack.c\<close>: the \<open>to_notify\<close> stack of a task descriptor, onto which other workers push
  the tasks that wait for it, and which the worker that releases the task locks once and then
  drains.  The first part models the operations as they take effect (the form the dependence
  analysis uses); the second part is the pointer code with its compare-and-swap loops, any number
  of pushers against one locker, and the proof that it implements the first.
\<close>

section \<open>The operations as they take effect\<close>

text \<open>\<open>NLocked\<close> is the value \<open>STACK_LOCKED\<close> of \<open>top\<close>.\<close>

datatype 't notify = NLocked | NOpen "'t list"

fun stack_push :: "'t \<Rightarrow> 't notify \<Rightarrow> int \<times> 't notify" where
  "stack_push task NLocked = (0, NLocked)"
| "stack_push task (NOpen xs) = (1, NOpen (task # xs))"

fun stack_lock :: "'t notify \<Rightarrow> ('t list \<times> 't notify) res" where
  "stack_lock NLocked = Inl AssertFailed"
| "stack_lock (NOpen xs) = Inr (xs, NLocked)"

fun stack_pop :: "'t list \<Rightarrow> 't option \<times> 't list" where
  "stack_pop [] = (None, [])"
| "stack_pop (x # xs) = (Some x, xs)"

text \<open>How often a task is waiting in a stack.\<close>

fun waiting :: "'t \<Rightarrow> 't notify \<Rightarrow> nat" where
  "waiting x NLocked = 0"
| "waiting x (NOpen xs) = count_list xs x"

lemma stack_push_result: "fst (stack_push x st) = (if st = NLocked then 0 else 1)"
  by (cases st) simp_all

lemma stack_push_waiting:
  "waiting y (snd (stack_push x st)) =
     waiting y st + (if x = y \<and> st \<noteq> NLocked then 1 else 0)"
  by (cases st) simp_all

lemma stack_push_locked [simp]: "snd (stack_push x st) = NLocked \<longleftrightarrow> st = NLocked"
  by (cases st) simp_all

section \<open>The pointer code\<close>

text \<open>The pointer \<open>top\<close>: \<open>NULL\<close>, \<open>STACK_LOCKED\<close> (\<open>(void *)-1\<close>) or a node.\<close>

datatype sptr = SNull | SLocked | SNode nat

text \<open>A node holds a task and the next pointer; \<open>malloc\<close> returns any unused address.\<close>

type_synonym 't nodes = "nat \<rightharpoonup> 't \<times> sptr"

datatype 't push_pc =
    PuIdle
  | PuAlloc 't sptr         \<comment> \<open>\<open>top\<close> read and not locked, about to \<open>malloc\<close>\<close>
  | PuCas 't sptr nat       \<comment> \<open>own node ready with \<open>next = top\<close>, about to compare and swap\<close>

datatype lock_pc =
    LIdle
  | LCas sptr               \<comment> \<open>\<open>top\<close> read, about to compare and swap\<close>
  | LHold sptr              \<comment> \<open>locked; the local pointer that \<open>stack_pop\<close> moves\<close>
  | LAbort                  \<comment> \<open>an assertion of \<open>stack_lock\<close> failed\<close>

text \<open>
  The last two components are ghosts: the tasks whose push returned 1 and the tasks
  \<open>stack_pop\<close> returned.
\<close>

record 't nsys =
  ntop :: sptr
  nodes :: "'t nodes"
  pusher :: "nat \<Rightarrow> 't push_pc"
  locker :: lock_pc
  won :: "'t list"
  drained :: "'t list"

definition nstart :: "'t nsys" where
  "nstart = \<lparr>ntop = SNull, nodes = Map.empty, pusher = (\<lambda>_. PuIdle), locker = LIdle,
             won = [], drained = []\<rparr>"

definition set_pusher :: "nat \<Rightarrow> 't push_pc \<Rightarrow> 't nsys \<Rightarrow> 't nsys" where
  "set_pusher i pc s = s\<lparr>pusher := (pusher s)(i := pc)\<rparr>"

text \<open>One step of pusher \<open>i\<close> in \<open>stack_push\<close>; \<open>n\<close> is the address \<open>malloc\<close> gives it.\<close>

definition push_step :: "nat \<Rightarrow> 't \<Rightarrow> nat \<Rightarrow> 't nsys \<Rightarrow> 't nsys" where
  "push_step i x n s =
     (case pusher s i of
        PuIdle \<Rightarrow> if ntop s = SLocked then s else set_pusher i (PuAlloc x (ntop s)) s
      | PuAlloc task tp \<Rightarrow> set_pusher i (PuCas task tp n) (s\<lparr>nodes := (nodes s)(n \<mapsto> (task, tp))\<rparr>)
      | PuCas task tp m \<Rightarrow>
          let cas = ntop s in
          if cas = tp then set_pusher i PuIdle (s\<lparr>ntop := SNode m, won := task # won s\<rparr>)
          else
            let s = s\<lparr>nodes := (nodes s)(m \<mapsto> (task, cas))\<rparr> in
            if cas = SLocked then set_pusher i PuIdle (s\<lparr>nodes := (nodes s)(m := None)\<rparr>)
            else set_pusher i (PuCas task cas m) s)"

text \<open>One step of the locker: \<open>stack_lock\<close>, then one \<open>stack_pop\<close> per step.\<close>

definition lock_step :: "'t nsys \<Rightarrow> 't nsys" where
  "lock_step s =
     (case locker s of
        LIdle \<Rightarrow> s\<lparr>locker := (if ntop s = SLocked then LAbort else LCas (ntop s))\<rparr>
      | LCas tp \<Rightarrow>
          let cas = ntop s in
          if cas = tp then s\<lparr>ntop := SLocked, locker := LHold tp\<rparr>
          else s\<lparr>locker := (if cas = SLocked then LAbort else LCas cas)\<rparr>
      | LHold p \<Rightarrow>
          (case p of
             SNode n \<Rightarrow>
               (case nodes s n of
                  Some (x, nx) \<Rightarrow>
                    s\<lparr>nodes := (nodes s)(n := None), locker := LHold nx, drained := x # drained s\<rparr>
                | None \<Rightarrow> s\<lparr>locker := LAbort\<rparr>)
           | SNull \<Rightarrow> s
           | SLocked \<Rightarrow> s\<lparr>locker := LAbort\<rparr>)
      | LAbort \<Rightarrow> s)"

inductive nstep :: "'t nsys \<Rightarrow> 't nsys \<Rightarrow> bool" where
  push: "nodes s n = None \<Longrightarrow> nstep s (push_step i x n s)"
| lock: "nstep s (lock_step s)"

inductive nreach :: "'t nsys \<Rightarrow> bool" where
  start: "nreach nstart"
| step: "nreach s \<Longrightarrow> nstep s s' \<Longrightarrow> nreach s'"

section \<open>Chains of nodes\<close>

primrec path :: "'t nodes \<Rightarrow> sptr \<Rightarrow> (nat \<times> 't) list \<Rightarrow> bool" where
  "path h p [] \<longleftrightarrow> p = SNull"
| "path h p (c # cs) \<longleftrightarrow>
     p = SNode (fst c) \<and> (\<exists>nx. h (fst c) = Some (snd c, nx) \<and> path h nx cs)"

lemma path_frame [simp]: "n \<notin> fst ` set cs \<Longrightarrow> path (h(n := v)) p cs = path h p cs"
  by (induction cs arbitrary: p) auto

lemma path_SNode: "path h (SNode n) cs \<Longrightarrow> \<exists>x nx cs'. cs = (n, x) # cs' \<and> h n = Some (x, nx) \<and> path h nx cs'"
  by (cases cs) auto

lemma path_SNull [simp]: "path h SNull cs \<longleftrightarrow> cs = []"
  by (cases cs) auto

lemma path_SLocked [simp]: "\<not> path h SLocked cs"
  by (cases cs) auto

lemma path_det: "path h p cs \<Longrightarrow> path h p ds \<Longrightarrow> cs = ds"
proof (induction cs arbitrary: p ds)
  case Nil
  then show ?case by simp
next
  case (Cons c cs)
  then obtain nx where nx: "p = SNode (fst c)" "h (fst c) = Some (snd c, nx)" "path h nx cs"
    by auto
  with Cons.prems(2) obtain y ny ds' where ds: "ds = (fst c, y) # ds'" "h (fst c) = Some (y, ny)"
    "path h ny ds'" by (auto dest: path_SNode)
  with nx have "cs = ds'" using Cons.IH by simp
  with ds nx show ?case by (simp add: prod_eq_iff)
qed

lemma path_allocated: "path h p cs \<Longrightarrow> n \<in> fst ` set cs \<Longrightarrow> h n \<noteq> None"
  by (induction cs arbitrary: p) auto

section \<open>The invariant\<close>

text \<open>Where the published nodes hang: the locker's pointer once the stack is locked.\<close>

definition root :: "'t nsys \<Rightarrow> sptr" where
  "root s = (case locker s of LHold p \<Rightarrow> p | _ \<Rightarrow> ntop s)"

definition pushers_ok :: "'t nsys \<Rightarrow> (nat \<times> 't) list \<Rightarrow> bool" where
  "pushers_ok s cs \<longleftrightarrow>
     (\<forall>i x tp. pusher s i = PuAlloc x tp \<longrightarrow> tp \<noteq> SLocked)
     \<and> (\<forall>i x tp n. pusher s i = PuCas x tp n \<longrightarrow>
          tp \<noteq> SLocked \<and> nodes s n = Some (x, tp) \<and> n \<notin> fst ` set cs)
     \<and> (\<forall>i j x y tp tq n. pusher s i = PuCas x tp n \<and> pusher s j = PuCas y tq n \<longrightarrow> i = j)"

definition nok :: "'t nsys \<Rightarrow> (nat \<times> 't) list \<Rightarrow> bool" where
  "nok s cs \<longleftrightarrow>
     (ntop s = SLocked \<longleftrightarrow> (\<exists>p. locker s = LHold p)) \<and> locker s \<noteq> LAbort
     \<and> locker s \<noteq> LCas SLocked \<and> pushers_ok s cs
     \<and> path (nodes s) (root s) cs \<and> distinct (map fst cs)
     \<and> mset (won s) = mset (drained s) + mset (map snd cs)"

lemma nok_start: "nok nstart []"
  by (simp add: nok_def nstart_def pushers_ok_def root_def)

lemma set_pusher_simps [simp]:
  "ntop (set_pusher i pc s) = ntop s" "nodes (set_pusher i pc s) = nodes s"
  "locker (set_pusher i pc s) = locker s" "won (set_pusher i pc s) = won s"
  "drained (set_pusher i pc s) = drained s"
  "pusher (set_pusher i pc s) j = (if j = i then pc else pusher s j)"
  "root (set_pusher i pc s) = root s"
  by (simp_all add: set_pusher_def root_def split: lock_pc.splits)

text \<open>Steps that leave the published chain and the locker alone.\<close>

lemma nok_pusher_moves:
  assumes "nok s cs" and "ntop s' = ntop s" and "locker s' = locker s" and "won s' = won s"
    and "drained s' = drained s" and "pushers_ok s' cs" and "path (nodes s') (root s) cs"
  shows "nok s' cs"
  using assms by (cases "locker s") (simp_all add: nok_def root_def)

lemma push_read_ok:
  assumes "nok s cs" and "pusher s i = PuIdle"
  shows "nok (push_step i x n s) cs"
  using assms
  by (intro nok_pusher_moves [OF assms(1)])
     (auto simp: push_step_def nok_def pushers_ok_def split: if_splits)

lemma push_alloc_ok:
  assumes ok: "nok s cs" and pc: "pusher s i = PuAlloc task tp" and fresh: "nodes s n = None"
  shows "nok (push_step i x n s) cs"
proof (rule nok_pusher_moves [OF ok])
  have n: "n \<notin> fst ` set cs" using ok fresh path_allocated by (fastforce simp: nok_def)
  then show "path (nodes (push_step i x n s)) (root s) cs"
    using ok pc by (simp add: push_step_def nok_def)
  show "pushers_ok (push_step i x n s) cs"
    using ok pc fresh n by (auto simp: push_step_def nok_def pushers_ok_def)
qed (use pc in \<open>simp_all add: push_step_def\<close>)

lemma push_cas_fail_ok:
  assumes ok: "nok s cs" and pc: "pusher s i = PuCas task tp m" and ne: "ntop s \<noteq> tp"
  shows "nok (push_step i x n s) cs"
proof (rule nok_pusher_moves [OF ok])
  have m: "m \<notin> fst ` set cs" using ok pc by (auto simp: nok_def pushers_ok_def)
  then show "path (nodes (push_step i x n s)) (root s) cs"
    using ok pc ne by (simp add: push_step_def nok_def Let_def)
  show "pushers_ok (push_step i x n s) cs"
    using ok pc ne m by (auto simp: push_step_def nok_def pushers_ok_def Let_def split: if_splits)
qed (use pc ne in \<open>simp_all add: push_step_def Let_def\<close>)

lemma push_cas_ok:
  assumes ok: "nok s cs" and pc: "pusher s i = PuCas task tp m" and eq: "ntop s = tp"
  shows "nok (push_step i x n s) ((m, task) # cs)"
proof -
  have m: "m \<notin> fst ` set cs" "nodes s m = Some (task, tp)" "tp \<noteq> SLocked"
    using ok pc by (auto simp: nok_def pushers_ok_def)
  have s': "push_step i x n s = set_pusher i PuIdle (s\<lparr>ntop := SNode m, won := task # won s\<rparr>)"
    using pc eq by (simp add: push_step_def)
  have l: "\<nexists>p. locker s = LHold p" using ok eq m by (auto simp: nok_def)
  then have r: "root s = tp" "root (push_step i x n s) = SNode m"
    using eq by (auto simp: root_def s' set_pusher_def split: lock_pc.splits)
  have "pushers_ok (push_step i x n s) ((m, task) # cs)"
    using ok pc by (auto simp: s' nok_def pushers_ok_def)
  with ok m r l show ?thesis by (simp add: nok_def s')
qed

lemma push_step_ok: "nok s cs \<Longrightarrow> nodes s n = None \<Longrightarrow> \<exists>cs'. nok (push_step i x n s) cs'"
  by (cases "pusher s i")
     (blast intro: push_read_ok push_alloc_ok push_cas_ok push_cas_fail_ok)+

lemma lock_step_ok:
  assumes ok: "nok s cs"
  shows "\<exists>cs'. nok (lock_step s) cs'"
proof (cases "locker s")
  case LIdle
  with ok have "nok (lock_step s) cs" by (auto simp: nok_def lock_step_def root_def pushers_ok_def)
  then show ?thesis ..
next
  case (LCas tp)
  with ok have "nok (lock_step s) cs"
    by (auto simp: nok_def lock_step_def root_def pushers_ok_def Let_def)
  then show ?thesis ..
next
  case LAbort
  with ok show ?thesis by (simp add: nok_def)
next
  case (LHold p)
  then have p: "path (nodes s) p cs" using ok by (simp add: nok_def root_def)
  show ?thesis
  proof (cases p)
    case (SNode n)
    then obtain x nx cs' where c: "cs = (n, x) # cs'" "nodes s n = Some (x, nx)" "path (nodes s) nx cs'"
      using p path_SNode by metis
    have "nok (lock_step s) cs'"
      using ok LHold SNode c by (auto simp: nok_def lock_step_def root_def pushers_ok_def)
    then show ?thesis ..
  qed (use p ok LHold in \<open>auto simp: lock_step_def\<close>)
qed

lemma nstep_ok: "nstep s s' \<Longrightarrow> nok s cs \<Longrightarrow> \<exists>cs'. nok s' cs'"
  by (induction rule: nstep.induct) (auto intro: push_step_ok lock_step_ok)

lemma nreach_ok: "nreach s \<Longrightarrow> \<exists>cs. nok s cs"
  by (induction rule: nreach.induct) (use nok_start nstep_ok in blast)+

section \<open>The pointer code implements the operations\<close>

text \<open>The abstract stack a state of the pointer code stands for.\<close>

inductive denotes :: "'t nsys \<Rightarrow> 't notify \<Rightarrow> bool" where
  locked: "ntop s = SLocked \<Longrightarrow> denotes s NLocked"
| opened: "path (nodes s) (ntop s) cs \<Longrightarrow> denotes s (NOpen (map snd cs))"

inductive_cases denotes_LockedE: "denotes s NLocked"
inductive_cases denotes_OpenE: "denotes s (NOpen xs)"

text \<open>
  A step of the pointer code is invisible, or is exactly one successful push, or is the lock
  handing the whole chain to the locker.
\<close>

definition simulates :: "'t nsys \<Rightarrow> 't notify \<Rightarrow> 't nsys \<Rightarrow> 't notify \<Rightarrow> bool" where
  "simulates s a s' a' \<longleftrightarrow>
     (a' = a \<and> won s' = won s)
     \<or> (\<exists>x. stack_push x a = (1, a') \<and> won s' = x # won s)
     \<or> (\<exists>xs p cs. stack_lock a = Inr (xs, a') \<and> won s' = won s \<and> locker s' = LHold p
          \<and> path (nodes s') p cs \<and> map snd cs = xs)"

lemma nok_open: "nok s cs \<Longrightarrow> ntop s \<noteq> SLocked \<Longrightarrow> root s = ntop s"
  by (auto simp: nok_def root_def split: lock_pc.splits)

lemma denotes_nok:
  assumes "nok s cs"
  shows "denotes s a \<longleftrightarrow> a = (if ntop s = SLocked then NLocked else NOpen (map snd cs))"
proof (cases "ntop s = SLocked")
  case True
  then show ?thesis by (auto simp: denotes.simps)
next
  case False
  then have "path (nodes s) (ntop s) cs" using assms nok_open [OF assms] by (simp add: nok_def)
  with False show ?thesis by (auto simp: denotes.simps dest: path_det)
qed

lemma push_step_simulates:
  assumes ok: "nok s cs" and fresh: "nodes s n = None" and d: "denotes s a"
  shows "\<exists>a'. denotes (push_step i x n s) a' \<and> simulates s a (push_step i x n s) a'"
proof -
  note a = d [unfolded denotes_nok [OF ok]]
  have quiet: "?thesis" if "nok (push_step i x n s) cs" "ntop (push_step i x n s) = ntop s"
    "won (push_step i x n s) = won s"
    using that a denotes_nok [OF that(1)] by (auto simp: simulates_def)
  show ?thesis
  proof (cases "pusher s i")
    case PuIdle
    then show ?thesis
      by (intro quiet push_read_ok [OF ok]) (simp_all add: push_step_def)
  next
    case (PuAlloc task tp)
    then show ?thesis
      by (intro quiet push_alloc_ok [OF ok _ fresh]) (simp_all add: push_step_def)
  next
    case (PuCas task tp m)
    show ?thesis
    proof (cases "ntop s = tp")
      case False
      then show ?thesis using PuCas
        by (intro quiet push_cas_fail_ok [OF ok]) (simp_all add: push_step_def Let_def)
    next
      case True
      have "tp \<noteq> SLocked" using ok PuCas by (auto simp: nok_def pushers_ok_def)
      then show ?thesis
        using a True PuCas denotes_nok [OF push_cas_ok [OF ok PuCas True]]
        by (auto simp: simulates_def push_step_def)
    qed
  qed
qed

lemma lock_step_simulates:
  assumes ok: "nok s cs" and d: "denotes s a"
  shows "\<exists>a'. denotes (lock_step s) a' \<and> simulates s a (lock_step s) a'"
proof -
  note a = d [unfolded denotes_nok [OF ok]]
  obtain cs' where ok': "nok (lock_step s) cs'" using lock_step_ok [OF ok] by blast
  note a' = denotes_nok [OF ok']
  show ?thesis
  proof (cases "locker s = LCas (ntop s)")
    case True
    then have open_: "ntop s \<noteq> SLocked" using ok by (auto simp: nok_def)
    moreover have "path (nodes s) (ntop s) cs"
      using ok nok_open [OF ok open_] by (simp add: nok_def)
    ultimately show ?thesis
      using a True by (auto simp: simulates_def lock_step_def denotes.simps)
  next
    case False
    then have "ntop (lock_step s) = ntop s \<and> won (lock_step s) = won s
        \<and> (ntop s = SLocked \<or> nodes (lock_step s) = nodes s)"
      using ok by (cases "locker s")
        (auto simp: lock_step_def nok_def Let_def split: sptr.splits option.splits)
    then have "denotes (lock_step s) a" "simulates s a (lock_step s) a"
      using d by (auto simp: simulates_def denotes.simps)
    then show ?thesis by blast
  qed
qed

lemma nstep_simulates:
  assumes "nstep s s'" and "nreach s" and "denotes s a"
  shows "\<exists>a'. denotes s' a' \<and> simulates s a s' a'"
proof -
  obtain cs where ok: "nok s cs" using nreach_ok [OF assms(2)] ..
  from assms(1) show ?thesis
    by cases (use push_step_simulates [OF ok _ assms(3)] lock_step_simulates [OF ok assms(3)] in auto)
qed

lemma locked_stays: "nstep s s' \<Longrightarrow> nreach s \<Longrightarrow> ntop s = SLocked \<Longrightarrow> ntop s' = SLocked \<and> won s' = won s"
proof -
  assume st: "nstep s s'" and r: "nreach s" and l: "ntop s = SLocked"
  obtain cs where "nok s cs" using nreach_ok [OF r] ..
  with st l show ?thesis
    by (cases rule: nstep.cases)
       (auto simp: push_step_def lock_step_def Let_def nok_def pushers_ok_def
          split: push_pc.splits lock_pc.splits sptr.splits option.splits)
qed

section \<open>Properties\<close>

text \<open>
  C7: in every reachable state of any number of pushers and one locker, a memory step is either
  invisible, or takes effect as exactly one successful \<open>stack_push\<close>, or as the
  \<open>stack_lock\<close> that hands the whole chain to the locker: the compare-and-swap loops
  implement the abstract stack.
\<close>

theorem notify_refines:
  assumes "nreach s" and "denotes s a" and "nstep s s'"
  shows "\<exists>a'. denotes s' a' \<and> simulates s a s' a'"
  using assms nstep_simulates by blast

theorem notify_refines_witness:
  "\<exists>a'. denotes (push_step 0 (5::nat) 1 nstart) a' \<and> simulates nstart (NOpen []) (push_step 0 5 1 nstart) a'"
proof (rule notify_refines [OF nreach.start])
  show "denotes (nstart :: nat nsys) (NOpen [])"
    using denotes.opened [of nstart "[]"] by (simp add: nstart_def)
  show "nstep nstart (push_step 0 (5::nat) 1 nstart)"
    by (rule nstep.push) (simp add: nstart_def)
qed

text \<open>
  C14: once the locker has drained the chain (\<open>stack_pop\<close> returns \<open>NULL\<close>), the tasks
  it obtained are exactly the tasks whose push returned 1, with multiplicity: no notification is
  lost and none is delivered twice.
\<close>

theorem notify_exactly_once:
  assumes "nreach s" and "locker s = LHold SNull"
  shows "mset (drained s) = mset (won s)"
  using nreach_ok [OF assms(1)] assms(2) by (auto simp: nok_def root_def)

text \<open>A push that wins, then the lock and the drain, with every memory step spelled out.\<close>

definition notify_run :: "nat nsys" where
  "notify_run = lock_step (lock_step (lock_step (push_step 0 5 1 (push_step 0 5 0 (push_step 0 5 0 nstart)))))"

theorem notify_exactly_once_witness:
  "won notify_run = [5] \<and> mset (drained notify_run) = {#5#}"
proof -
  have "nreach notify_run"
    unfolding notify_run_def
    by (intro nreach.step [OF _ nstep.lock] nreach.step [OF _ nstep.push] nreach.start)
       (simp_all add: nstart_def push_step_def set_pusher_def) 
  moreover have "locker notify_run = LHold SNull" and w: "won notify_run = [5]"
    by (simp_all add: notify_run_def nstart_def push_step_def lock_step_def set_pusher_def Let_def)
  ultimately have "mset (drained notify_run) = mset (won notify_run)"
    by (intro notify_exactly_once)
  with w show ?thesis by simp
qed

text \<open>
  A lock is final, and the assertions of \<open>stack_lock\<close> cannot fail: after the lock the
  stack stays locked and no later push succeeds, and no reachable step aborts the locker.
\<close>

lemma notify_lock_final:
  assumes "nreach s" and "nstep s s'"
  shows "locker s' \<noteq> LAbort \<and> (ntop s = SLocked \<longrightarrow> ntop s' = SLocked \<and> won s' = won s)"
  using assms locked_stays nreach_ok [OF nreach.step [OF assms]] by (auto simp: nok_def)

end
