(* ===== verification/ReaderList.thy ===== *)
theory ReaderList
  imports Prelude
begin

text \<open>
  \<open>src/list.c\<close>: the counted, singly linked list that a metadata element keeps of the tasks
  reading a block.  \<open>head\<close> is the chain of entries from the first one to the null pointer;
  \<open>total_entries\<close> is the 32-bit counter kept beside it, which every operation consults
  instead of the chain.
\<close>

section \<open>Operations\<close>

record 't list_entry_t =
  task :: 't
  task_id :: u32

record 't list_t =
  total_entries :: u32
  head :: "'t list_entry_t list"

text \<open>\<open>bzero\<close> of the structure.\<close>

definition init_List :: "'t list_t" where
  "init_List = \<lparr>total_entries = 0, head = []\<rparr>"

text \<open>\<open>malloc\<close> followed by \<open>bzero\<close>, then the assertion that the allocation succeeded.\<close>

definition new_List :: "bool \<Rightarrow> 't list_t res" where
  "new_List allocated =
     (if allocated then Inr \<lparr>total_entries = 0, head = []\<rparr> else Inl NullDeref)"

definition isEmpty_List :: "'t list_t \<Rightarrow> bool" where
  "isEmpty_List List \<longleftrightarrow> total_entries List = 0"

definition MAX_LIST_ENTRIES :: u32 where "MAX_LIST_ENTRIES = 128"

definition isFull_List :: "'t list_t \<Rightarrow> bool" where
  "isFull_List List \<longleftrightarrow> total_entries List = MAX_LIST_ENTRIES"

text \<open>
  The two branches of the source link the new entry in front of a null head or of the old head;
  their assertions relate the counter to the chain.
\<close>

definition insert_front :: "'t \<Rightarrow> 't list_t \<Rightarrow> 't list_t res" where
  "insert_front t List =
     (let tmp = \<lparr>task = t, task_id = 0\<rparr> in
      if isEmpty_List List then
        ebind (c_assert (head List = [])) (\<lambda>_.
          Inr (List\<lparr>head := [tmp], total_entries := total_entries List + 1\<rparr>))
      else
        ebind (c_assert (\<not> head List = [])) (\<lambda>_.
          Inr (List\<lparr>head := tmp # head List, total_entries := total_entries List + 1\<rparr>)))"

definition get_front :: "'t list_t \<Rightarrow> ('t option \<times> 't list_t) res" where
  "get_front List =
     (if isEmpty_List List then Inr (None, List)
      else (case head List of
              [] \<Rightarrow> Inl NullDeref
            | tmp # rest \<Rightarrow>
                Inr (Some (task tmp),
                  List\<lparr>head := rest, total_entries := total_entries List - 1\<rparr>)))"

section \<open>The interface\<close>

text \<open>
  What \<open>src/deps.c\<close> relies on: a bag of tasks with a capacity, whose \<open>insert\<close> succeeds below
  the capacity and puts the task in front.  The client lemmas speak of a run of insertions, which
  is how the readers of a block accumulate.
\<close>

locale task_bag =
  fixes items :: "'b \<Rightarrow> 't list" and inv :: "'b \<Rightarrow> bool" and capacity :: nat
    and fresh :: 'b
    and insert_item :: "'t \<Rightarrow> 'b \<Rightarrow> 'b res"
    and remove_item :: "'b \<Rightarrow> ('t option \<times> 'b) res"
  assumes fresh_ok: "inv fresh \<and> items fresh = []"
    and insert_ok: "inv b \<Longrightarrow> length (items b) < capacity \<Longrightarrow>
      \<exists>b'. insert_item t b = Inr b' \<and> inv b' \<and> items b' = t # items b"
    and remove_ok: "inv b \<Longrightarrow> length (items b) < capacity \<Longrightarrow> \<exists>b'. inv b' \<and>
      remove_item b = Inr (case items b of [] \<Rightarrow> None | t # _ \<Rightarrow> Some t, b') \<and>
      items b' = tl (items b)"
begin

lemma inserts_ok:
  "inv b \<Longrightarrow> length (items b) + length ts \<le> capacity \<Longrightarrow>
    \<exists>b'. efold insert_item ts b = Inr b' \<and> inv b' \<and> items b' = rev ts @ items b"
proof (induction ts arbitrary: b)
  case Nil
  then show ?case by simp
next
  case (Cons t ts)
  then obtain b1 where b1: "insert_item t b = Inr b1" "inv b1" "items b1 = t # items b"
    using insert_ok [of b t] by auto
  then show ?case using Cons.IH [of b1] Cons.prems by auto
qed

lemma drain_ok:
  assumes "inv b" and "length (items b) < capacity"
  shows "\<exists>b' outs. inv b' \<and> items b' = [] \<and> map Some (items b) = outs \<and>
    efold (\<lambda>_ (b, os). ebind (remove_item b) (\<lambda>(v, b). Inr (b, os @ [v])))
      [0..<length (items b)] (b, pre) = Inr (b', pre @ outs)"
proof -
  let ?f = "\<lambda>(_::nat) (b, os). ebind (remove_item b) (\<lambda>(v, b). Inr (b, os @ [v]))"
  have "inv b \<Longrightarrow> length (items b) < capacity \<Longrightarrow> length ns = length (items b) \<Longrightarrow>
      \<exists>b'. inv b' \<and> items b' = [] \<and> efold ?f ns (b, pre) = Inr (b', pre @ map Some (items b))"
    for ns :: "nat list"
  proof (induction ns arbitrary: b pre)
    case Nil
    then show ?case by simp
  next
    case (Cons n ns)
    then obtain t ts where ts: "items b = t # ts" by (cases "items b") auto
    then obtain b1 where "remove_item b = Inr (Some t, b1)" "inv b1" "items b1 = ts"
      using remove_ok [of b] Cons.prems by auto
    with Cons.IH [of b1 "pre @ [Some t]"] Cons.prems ts show ?case by auto
  qed
  then show ?thesis using assms by auto
qed

end

section \<open>The list is such a bag\<close>

definition list_items :: "'t list_t \<Rightarrow> 't list" where
  "list_items l = map task (head l)"

definition list_inv :: "'t list_t \<Rightarrow> bool" where
  "list_inv l \<longleftrightarrow> total_entries l = of_nat (length (head l))"

lemma list_inv_empty:
  "list_inv l \<Longrightarrow> length (head l) < 2 ^ 32 \<Longrightarrow> isEmpty_List l \<longleftrightarrow> head l = []"
  by (auto simp: list_inv_def isEmpty_List_def word_of_nat_eq_0_iff dest: nat_dvd_not_less)

lemma insert_front_ok:
  assumes "list_inv l" and "length (head l) < 2 ^ 32"
  shows "insert_front t l = Inr (l\<lparr>head := \<lparr>task = t, task_id = 0\<rparr> # head l,
    total_entries := total_entries l + 1\<rparr>)"
  using assms by (cases "head l") (simp_all add: insert_front_def list_inv_empty Let_def)

lemma get_front_ok:
  assumes "list_inv l" and "length (head l) < 2 ^ 32"
  shows "get_front l = (case head l of [] \<Rightarrow> Inr (None, l)
     | e # es \<Rightarrow> Inr (Some (task e), l\<lparr>head := es, total_entries := total_entries l - 1\<rparr>))"
  using assms by (auto simp: get_front_def list_inv_empty split: list.splits)

interpretation readers: task_bag list_items list_inv "2 ^ 32" init_List insert_front get_front
proof
  show "list_inv init_List \<and> list_items init_List = []"
    by (simp add: list_inv_def list_items_def init_List_def)
  show "\<exists>b'. insert_front t b = Inr b' \<and> list_inv b' \<and> list_items b' = t # list_items b"
    if "list_inv b" and "length (list_items b) < 2 ^ 32" for t b
    using that by (auto simp: list_items_def insert_front_ok list_inv_def)
  show "\<exists>b'. list_inv b' \<and> get_front b = Inr (case list_items b of [] \<Rightarrow> None | t # _ \<Rightarrow> Some t, b')
      \<and> list_items b' = tl (list_items b)"
    if "list_inv b" and "length (list_items b) < 2 ^ 32" for b
    using that by (cases "head b") (auto simp: list_items_def get_front_ok list_inv_def)
qed

section \<open>Properties\<close>

text \<open>
  C18: inserting fewer than \<open>2 ^ 32\<close> tasks and taking as many out again succeeds without a failing
  assertion or a null dereference, and returns the tasks in the reverse order of their insertion.
\<close>

theorem readers_roundtrip:
  assumes "length ts < 2 ^ 32"
  shows "\<exists>l l'. efold insert_front ts init_List = Inr l \<and> list_items l = rev ts \<and>
    efold (\<lambda>_ (b, os). ebind (get_front b) (\<lambda>(v, b). Inr (b, os @ [v]))) [0..<length ts] (l, [])
      = Inr (l', map Some (rev ts)) \<and> list_items l' = []"
proof -
  obtain l where l: "efold insert_front ts init_List = Inr l" "list_inv l" "list_items l = rev ts"
    using readers.inserts_ok [of init_List ts] readers.fresh_ok assms
    by (metis add.commute add_0 append_Nil2 less_imp_le list.size(3))
  then show ?thesis using readers.drain_ok [of l "[]"] assms by auto
qed

theorem readers_roundtrip_witness:
  "\<exists>l. efold insert_front [4, 5, 6 :: nat] init_List = Inr l \<and> list_items l = [6, 5, 4]"
  using readers_roundtrip [of "[4, 5, 6 :: nat]"] by auto

text \<open>
  After exactly \<open>2 ^ 32\<close> insertions the counter has wrapped to 0: the list counts as empty
  although it holds all the entries, and the next insertion fails its assertion.
\<close>

lemma readers_counter_wraps:
  assumes "length ts = 2 ^ 32"
  shows "\<exists>l. efold insert_front ts init_List = Inr l \<and> isEmpty_List l \<and> list_items l = rev ts
    \<and> insert_front t l = Inl AssertFailed"
proof -
  obtain l where l: "efold insert_front ts init_List = Inr l" "list_inv l" "list_items l = rev ts"
    using readers.inserts_ok [of init_List ts] readers.fresh_ok assms
    by (metis add.commute add_0 append_Nil2 order_refl list.size(3))
  then have n: "length (head l) = 2 ^ 32"
    by (metis assms length_map length_rev list_items_def)
  then have "total_entries l = 0" using l(2) by (simp add: list_inv_def)
  moreover have "head l \<noteq> []" using n by auto
  ultimately have "isEmpty_List l" "insert_front t l = Inl AssertFailed"
    by (simp_all add: isEmpty_List_def insert_front_def c_assert_def)
  with l show ?thesis by blast
qed

end
