(* ===== verification/Trie.thy ===== *)
theory Trie
  imports Prelude
begin

text \<open>
  \<open>src/trie.c\<close>: the two-level table that maps a block number to the metadata element of the
  block.  The first level has \<open>2 ^ 10\<close> row pointers, a row \<open>2 ^ 9\<close> element pointers, both
  zeroed by \<open>__rc_rstralloc0\<close>; a row is created when a block of it is first touched.
\<close>

section \<open>Operations\<close>

definition UP_BITS :: nat where "UP_BITS = 10"
definition DOWN_BITS :: nat where "DOWN_BITS = 9"

definition FIRST_LEVEL :: "int \<Rightarrow> int" where
  "FIRST_LEVEL x = drop_bit DOWN_BITS x"

definition SECOND_LEVEL :: "int \<Rightarrow> int" where
  "SECOND_LEVEL x = x - push_bit DOWN_BITS (FIRST_LEVEL x)"

text \<open>A row is a null pointer or an array of element pointers.\<close>

type_synonym 'm row = "'m option list"
type_synonym 'm trie = "'m row option list"

definition new_trie :: "'m trie" where
  "new_trie = replicate (push_bit UP_BITS 1) None"

definition get_or_create_node :: "'m trie \<Rightarrow> int \<Rightarrow> ('m option \<times> 'm trie) res" where
  "get_or_create_node Trie index =
     ebind (c_index Trie (FIRST_LEVEL index)) (\<lambda>row.
     ebind (case row of
              None \<Rightarrow>
                let row = replicate (push_bit DOWN_BITS 1) None in
                ebind (c_store Trie (FIRST_LEVEL index) (Some row)) (\<lambda>Trie. Inr (row, Trie))
            | Some row \<Rightarrow> Inr (row, Trie)) (\<lambda>(row, Trie).
     ebind (c_index row (SECOND_LEVEL index)) (\<lambda>node. Inr (node, Trie))))"

definition get_node :: "'m trie \<Rightarrow> int \<Rightarrow> 'm option res" where
  "get_node Trie index =
     ebind (c_index Trie (FIRST_LEVEL index)) (\<lambda>row.
       case row of None \<Rightarrow> Inr None | Some row \<Rightarrow> c_index row (SECOND_LEVEL index))"

definition set_node :: "'m trie \<Rightarrow> int \<Rightarrow> 'm option \<Rightarrow> 'm trie res" where
  "set_node Trie index new_node =
     ebind (c_index Trie (FIRST_LEVEL index)) (\<lambda>row.
       case row of
         None \<Rightarrow> Inl NullDeref
       | Some row \<Rightarrow>
           ebind (c_store row (SECOND_LEVEL index) new_node) (\<lambda>row.
             c_store Trie (FIRST_LEVEL index) (Some row)))"

text \<open>The rows handed to \<open>free\<close>, in order; the table itself is freed last.\<close>

definition release_trie :: "'m trie \<Rightarrow> 'm row option list res" where
  "release_trie Trie =
     efold (\<lambda>i freed. ebind (c_index Trie (int i)) (\<lambda>row. Inr (freed @ [row])))
       [0..<push_bit UP_BITS 1] []"

section \<open>The interface\<close>

text \<open>
  What the dependence analysis in \<open>src/deps.c\<close> relies on.  \<open>exchange\<close> is its idiom
  \<open>get_or_create_node\<close>; \<open>set_node\<close> on the same block.
\<close>

locale block_table =
  fixes view :: "'tb \<Rightarrow> int \<Rightarrow> 'm option" and inv :: "'tb \<Rightarrow> bool" and blocks :: int
    and ready :: "'tb \<Rightarrow> int \<Rightarrow> bool"
    and fresh :: 'tb
    and touch :: "'tb \<Rightarrow> int \<Rightarrow> ('m option \<times> 'tb) res"
    and find :: "'tb \<Rightarrow> int \<Rightarrow> 'm option res"
    and store :: "'tb \<Rightarrow> int \<Rightarrow> 'm option \<Rightarrow> 'tb res"
  assumes fresh_ok: "inv fresh \<and> view fresh j = None"
    and touch_ok: "inv t \<Longrightarrow> 0 \<le> j \<Longrightarrow> j < blocks \<Longrightarrow>
      \<exists>t'. touch t j = Inr (view t j, t') \<and> inv t' \<and> view t' = view t \<and> ready t' j"
    and find_ok: "inv t \<Longrightarrow> 0 \<le> j \<Longrightarrow> j < blocks \<Longrightarrow> find t j = Inr (view t j)"
    and store_ok: "inv t \<Longrightarrow> 0 \<le> j \<Longrightarrow> j < blocks \<Longrightarrow> ready t j \<Longrightarrow>
      \<exists>t'. store t j m = Inr t' \<and> inv t' \<and> view t' = (view t)(j := m)"
begin

definition exchange :: "'tb \<Rightarrow> int \<Rightarrow> 'm option \<Rightarrow> ('m option \<times> 'tb) res" where
  "exchange t j m = ebind (touch t j) (\<lambda>(old, t). ebind (store t j m) (\<lambda>t. Inr (old, t)))"

lemma exchange_ok:
  assumes "inv t" and "0 \<le> j" and "j < blocks"
  shows "\<exists>t'. exchange t j m = Inr (view t j, t') \<and> inv t' \<and> view t' = (view t)(j := m)"
proof -
  obtain t1 where t1: "touch t j = Inr (view t j, t1)" "inv t1" "view t1 = view t" "ready t1 j"
    using touch_ok [OF assms] by blast
  obtain t2 where "store t1 j m = Inr t2" "inv t2" "view t2 = (view t1)(j := m)"
    using store_ok [OF t1(2) assms(2,3) t1(4)] by blast
  with t1 show ?thesis by (simp add: exchange_def)
qed

lemma exchanges_ok:
  "inv t \<Longrightarrow> (\<And>j. j \<in> set js \<Longrightarrow> 0 \<le> j \<and> j < blocks) \<Longrightarrow>
    \<exists>t'. efold (\<lambda>j t. ebind (exchange t j m) (\<lambda>(_, t). Inr t)) js t = Inr t' \<and> inv t' \<and>
      view t' = (\<lambda>j. if j \<in> set js then m else view t j)"
proof (induction js arbitrary: t)
  case Nil
  then show ?case by auto
next
  case (Cons j js)
  then obtain t1 where t1: "exchange t j m = Inr (view t j, t1)" "inv t1"
      "view t1 = (view t)(j := m)"
    using exchange_ok [of t j m] by auto
  then obtain t' where "efold (\<lambda>j t. ebind (exchange t j m) (\<lambda>(_, t). Inr t)) js t1 = Inr t'"
      "inv t'" "view t' = (\<lambda>j. if j \<in> set js then m else view t1 j)"
    using Cons.IH [of t1] Cons.prems(2) by auto
  with t1 show ?case by (auto simp: fun_eq_iff)
qed

end

section \<open>The trie is such a table\<close>

definition trie_blocks :: int where "trie_blocks = 2 ^ (UP_BITS + DOWN_BITS)"

definition trie_inv :: "'m trie \<Rightarrow> bool" where
  "trie_inv t \<longleftrightarrow> length t = 2 ^ UP_BITS \<and> (\<forall>row \<in> set t. \<forall>r. row = Some r \<longrightarrow> length r = 2 ^ DOWN_BITS)"

definition trie_view :: "'m trie \<Rightarrow> int \<Rightarrow> 'm option" where
  "trie_view t j =
     (if 0 \<le> j \<and> j < trie_blocks then
        case t ! nat (FIRST_LEVEL j) of None \<Rightarrow> None | Some row \<Rightarrow> row ! nat (SECOND_LEVEL j)
      else None)"

definition row_ready :: "'m trie \<Rightarrow> int \<Rightarrow> bool" where
  "row_ready t j \<longleftrightarrow> t ! nat (FIRST_LEVEL j) \<noteq> None"

lemma levels:
  "FIRST_LEVEL x = x div 512" "SECOND_LEVEL x = x mod 512"
  by (simp_all add: FIRST_LEVEL_def SECOND_LEVEL_def DOWN_BITS_def drop_bit_eq_div push_bit_eq_mult
      minus_div_mult_eq_mod)

text \<open>The two levels determine the block, and stay inside the two arrays.\<close>

lemma levels_inj: "FIRST_LEVEL i = FIRST_LEVEL j \<Longrightarrow> SECOND_LEVEL i = SECOND_LEVEL j \<Longrightarrow> i = j"
  unfolding levels by (metis div_mult_mod_eq)

lemma levels_bounds:
  assumes "0 \<le> j" and "j < trie_blocks"
  shows "0 \<le> FIRST_LEVEL j \<and> FIRST_LEVEL j < 1024 \<and> 0 \<le> SECOND_LEVEL j \<and> SECOND_LEVEL j < 512"
proof -
  have "j < 1024 * 512" using assms(2) by (simp add: trie_blocks_def UP_BITS_def DOWN_BITS_def)
  moreover have "j = 512 * (j div 512) + j mod 512" "0 \<le> j mod 512" by simp_all
  ultimately have "j div 512 < 1024" by linarith
  with assms(1) show ?thesis by (simp add: levels)
qed

lemma trie_inv_iff:
  "trie_inv t \<longleftrightarrow> length t = 1024 \<and> (\<forall>k r. k < 1024 \<longrightarrow> t ! k = Some r \<longrightarrow> length r = 512)"
  by (auto simp: trie_inv_def UP_BITS_def DOWN_BITS_def all_set_conv_all_nth)

lemma trie_row_length:
  assumes "trie_inv t" and "t ! nat k = Some row" and "k < 1024"
  shows "length row = 512"
proof -
  have "nat k < 1024" using assms(3) by linarith
  with assms(1,2) show ?thesis unfolding trie_inv_iff by blast
qed

lemma trie_inv_update: "trie_inv t \<Longrightarrow> length row = 512 \<Longrightarrow> trie_inv (t[k := Some row])"
  unfolding trie_inv_def using set_update_subset_insert [of t k "Some row"]
  by (auto simp: DOWN_BITS_def)

lemma new_trie_inv: "trie_inv new_trie" and new_trie_view: "trie_view new_trie j = None"
proof -
  show "trie_inv new_trie"
    by (auto simp: trie_inv_def new_trie_def push_bit_eq_mult)
  show "trie_view new_trie j = None"
    using levels_bounds [of j]
    by (auto simp: trie_view_def new_trie_def UP_BITS_def nth_replicate push_bit_eq_mult nat_less_iff)
qed

lemma get_or_create_node_ok:
  assumes "trie_inv t" and "0 \<le> j" and "j < trie_blocks"
  shows "\<exists>t'. get_or_create_node t j = Inr (trie_view t j, t') \<and> trie_inv t'
    \<and> trie_view t' = trie_view t \<and> row_ready t' j"
proof (cases "t ! nat (FIRST_LEVEL j)")
  case (Some row)
  have "length row = 512" using trie_row_length [OF assms(1) Some] levels_bounds [OF assms(2,3)] by simp
  then show ?thesis using Some assms levels_bounds [OF assms(2,3)]
    by (auto simp: get_or_create_node_def c_index_def trie_inv_iff trie_view_def row_ready_def)
next
  case None
  let ?t = "t[nat (FIRST_LEVEL j) := Some (replicate 512 None)]"
  have b: "nat (FIRST_LEVEL j) < length t" "nat (SECOND_LEVEL j) < 512"
    using levels_bounds [OF assms(2,3)] assms(1) by (simp_all add: trie_inv_iff nat_less_iff)
  have "get_or_create_node t j = Inr (None, ?t)"
    using None levels_bounds [OF assms(2,3)] assms(1)
    by (simp add: get_or_create_node_def c_index_def c_store_def trie_inv_iff DOWN_BITS_def
        push_bit_eq_mult nat_less_iff Let_def)
  moreover have "trie_inv ?t" using assms(1) by (simp add: trie_inv_update)
  moreover have "trie_view ?t i = trie_view t i" for i
  proof (cases "0 \<le> i \<and> i < trie_blocks")
    case True
    then have "nat (SECOND_LEVEL i) < 512" using levels_bounds [of i] by (simp add: nat_less_iff)
    with None b show ?thesis
      by (auto simp: trie_view_def nth_list_update)
  qed (auto simp: trie_view_def)
  ultimately show ?thesis using None assms(2,3) b(1)
    by (auto simp: trie_view_def row_ready_def fun_eq_iff)
qed

lemma get_node_ok:
  assumes "trie_inv t" and "0 \<le> j" and "j < trie_blocks"
  shows "get_node t j = Inr (trie_view t j)"
  using assms levels_bounds [OF assms(2,3)] trie_row_length [OF assms(1), of "FIRST_LEVEL j"]
  by (auto simp: get_node_def c_index_def trie_inv_def UP_BITS_def trie_view_def split: option.split)

lemma set_node_ok:
  assumes "trie_inv t" and "0 \<le> j" and "j < trie_blocks" and "row_ready t j"
  shows "\<exists>t'. set_node t j m = Inr t' \<and> trie_inv t' \<and> trie_view t' = (trie_view t)(j := m)"
proof -
  obtain row where row: "t ! nat (FIRST_LEVEL j) = Some row"
    using assms(4) by (auto simp: row_ready_def)
  have b: "nat (FIRST_LEVEL j) < length t" "nat (SECOND_LEVEL j) < 512"
    using levels_bounds [OF assms(2,3)] assms(1) by (simp_all add: trie_inv_iff nat_less_iff)
  have len: "length row = 512"
    using trie_row_length [OF assms(1) row] levels_bounds [OF assms(2,3)] by simp
  let ?t = "t[nat (FIRST_LEVEL j) := Some (row[nat (SECOND_LEVEL j) := m])]"
  have "set_node t j m = Inr ?t"
    using row len levels_bounds [OF assms(2,3)] assms(1)
    by (simp add: set_node_def c_index_def c_store_def trie_inv_iff)
  moreover have "trie_inv ?t" using assms(1) len by (simp add: trie_inv_update)
  moreover have "trie_view ?t i = ((trie_view t)(j := m)) i" for i
  proof (cases "0 \<le> i \<and> i < trie_blocks")
    case True
    then have i: "nat (SECOND_LEVEL i) < 512" "0 \<le> FIRST_LEVEL i" "0 \<le> SECOND_LEVEL i"
      using levels_bounds [of i] by (simp_all add: nat_less_iff)
    show ?thesis
    proof (cases "i = j")
      case True
      with b len assms(2,3) show ?thesis by (simp add: trie_view_def)
    next
      case False
      then have "nat (FIRST_LEVEL i) \<noteq> nat (FIRST_LEVEL j) \<or> nat (SECOND_LEVEL i) \<noteq> nat (SECOND_LEVEL j)"
        using i levels_bounds [OF assms(2,3)] levels_inj [of i j] by (auto simp: eq_nat_nat_iff)
      with False row b len i show ?thesis
        by (auto simp: trie_view_def nth_list_update)
    qed
  qed (use assms(2,3) in \<open>auto simp: trie_view_def\<close>)
  ultimately show ?thesis by (auto simp: fun_eq_iff)
qed

interpretation trie: block_table trie_view trie_inv trie_blocks row_ready new_trie
    get_or_create_node get_node set_node
  by unfold_locales (use new_trie_inv new_trie_view get_or_create_node_ok get_node_ok set_node_ok in auto)

section \<open>Properties\<close>

text \<open>
  C16: for every block number of the grid the trie is an array: entering a metadata element for the
  blocks \<open>js\<close> (in the order and with the calls of the dependence analysis) never leaves the two
  levels, and afterwards \<open>get_node\<close> answers with that element exactly for those blocks.
\<close>

theorem trie_roundtrip:
  assumes "trie_inv t" and "\<And>j. j \<in> set js \<Longrightarrow> 0 \<le> j \<and> j < 2 ^ 19" and "0 \<le> i" and "i < 2 ^ 19"
  shows "\<exists>t'. efold (\<lambda>j t. ebind (get_or_create_node t j) (\<lambda>(_, t). set_node t j m)) js t = Inr t'
    \<and> trie_inv t' \<and> get_node t' i = (if i \<in> set js then Inr m else get_node t i)"
proof -
  have n: "(2 :: int) ^ 19 = trie_blocks" by (simp add: trie_blocks_def UP_BITS_def DOWN_BITS_def)
  have e: "(\<lambda>j t. ebind (get_or_create_node t j) (\<lambda>(_, t). set_node t j m))
      = (\<lambda>j t. ebind (trie.exchange t j m) (\<lambda>(_, t). Inr t))"
    by (auto simp: trie.exchange_def fun_eq_iff ebind_def split: sum.splits)
  obtain t' where t': "efold (\<lambda>j t. ebind (trie.exchange t j m) (\<lambda>(_, t). Inr t)) js t = Inr t'"
      "trie_inv t'" "trie_view t' = (\<lambda>j. if j \<in> set js then m else trie_view t j)"
    using trie.exchanges_ok [of t js m] assms(1,2) unfolding n by blast
  then show ?thesis
    unfolding e using get_node_ok [OF t'(2), of i] get_node_ok [OF assms(1), of i] assms(3,4) n
    by auto
qed

theorem trie_roundtrip_witness:
  "\<exists>t'. efold (\<lambda>j t. ebind (get_or_create_node t j) (\<lambda>(_, t). set_node t j (Some (7 :: nat))))
      [511, 512, 524287] new_trie = Inr t' \<and> get_node t' 512 = Inr (Some 7)"
  using trie_roundtrip [OF new_trie_inv, of "[511, 512, 524287]" 512 "Some (7 :: nat)"] by fastforce

text \<open>
  The faults of the trie are exactly an index outside the grid and, for \<open>set_node\<close>, a row
  that was never created.
\<close>

lemma set_node_fault_iff:
  assumes "trie_inv t"
  shows "(set_node t j m = Inl OutOfBounds \<longleftrightarrow> j < 0 \<or> 2 ^ 19 \<le> j)
    \<and> (set_node t j m = Inl NullDeref \<longleftrightarrow> 0 \<le> j \<and> j < 2 ^ 19 \<and> t ! nat (FIRST_LEVEL j) = None)"
proof -
  have b: "0 \<le> j div 512 \<and> j div 512 < 1024 \<longleftrightarrow> 0 \<le> j \<and> j < 2 ^ 19" by auto
  have l: "length t = 1024" using assms by (simp add: trie_inv_iff)
  have r: "length row = 512" if "t ! nat (j div 512) = Some row" "0 \<le> j div 512 \<and> j div 512 < 1024" for row
    using trie_row_length [OF assms that(1)] that(2) by simp
  show ?thesis
    using b l r by (auto simp: set_node_def c_index_def c_store_def levels split: option.splits)
qed

end
