(* ===== verification/Balloc.thy ===== *)
theory Balloc
  imports Prelude
begin

text \<open>
  \<open>src/balloc.c\<close> with \<open>tpc_malloc\<close> and \<open>tpc_free\<close> of \<open>src/runtime.c\<close> and the block
  arithmetic \<open>GET_INDEX\<close> of \<open>src/deps.c\<close>: the bump allocator of the grid from which all
  task data comes, whose blocks of 2048 bytes are the unit of the dependence analysis.
  Addresses are 64-bit words; the address the C library returns for the grid is a parameter.
\<close>

section \<open>Operations\<close>

definition BLOCK_SZ :: u64 where "BLOCK_SZ = 2048"
definition GRID_SZ :: u64 where "GRID_SZ = 1024 * 1024 * 1024"

record balloc_t =
  grid_t :: u64
  Top :: u64
  grid_size_g :: u64
  block_size_g :: u64

text \<open>\<open>grid\<close> is what \<open>malloc\<close> returned, 0 when it failed.\<close>

definition newGrid :: "u64 \<Rightarrow> balloc_t \<Rightarrow> balloc_t res" where
  "newGrid grid b =
     ebind (c_assert (grid \<noteq> 0)) (\<lambda>_. Inr (b\<lparr>grid_t := grid, Top := grid\<rparr>))"

definition balloc_init :: "u64 \<Rightarrow> u64 \<Rightarrow> balloc_t \<Rightarrow> balloc_t res" where
  "balloc_init sz grid b = newGrid grid (b\<lparr>grid_size_g := sz\<rparr>)"

definition balloc_finalize :: "balloc_t \<Rightarrow> u64 res" where
  "balloc_finalize b = ebind (c_assert (grid_t b \<noteq> 0)) (\<lambda>_. Inr (grid_t b))"

definition segment :: "u64 \<Rightarrow> balloc_t \<Rightarrow> u64" where
  "segment sz b = sz + block_size_g b - (sz mod block_size_g b)"

definition balloc_alloc :: "u64 \<Rightarrow> balloc_t \<Rightarrow> u64 \<times> balloc_t" where
  "balloc_alloc sz b = (let ret_val = Top b in (ret_val, b\<lparr>Top := Top b + segment sz b\<rparr>))"

definition bfree :: "u64 \<Rightarrow> u64 \<Rightarrow> balloc_t \<Rightarrow> balloc_t" where
  "bfree mem sz b = b"

definition tpc_malloc :: "u64 \<Rightarrow> balloc_t \<Rightarrow> (u64 \<times> balloc_t) res" where
  "tpc_malloc sz b =
     ebind (c_assert (sz > 0)) (\<lambda>_.
     let (new, b) = balloc_alloc sz b in
     ebind (c_assert (new \<noteq> 0)) (\<lambda>_. Inr (new, b)))"

definition tpc_free :: "u64 \<Rightarrow> balloc_t \<Rightarrow> balloc_t res" where
  "tpc_free ptr b = ebind (c_assert (ptr \<noteq> 0)) (\<lambda>_. Inr (bfree ptr 8 b))"

text \<open>The block number of an address, an \<open>int\<close> in the code that uses it.\<close>

definition GET_INDEX :: "u64 \<Rightarrow> u64 \<Rightarrow> int" where
  "GET_INDEX grid address = uint (((address - grid) div BLOCK_SZ) mod (GRID_SZ div BLOCK_SZ))"

text \<open>The first and last block of an object of \<open>sz\<close> bytes, as the dependence analysis sees them.\<close>

definition block_range :: "u64 \<Rightarrow> u64 \<Rightarrow> u64 \<Rightarrow> int \<times> int" where
  "block_range grid address sz =
     (GET_INDEX grid address, GET_INDEX grid (address + sz - 1))"

section \<open>Offsets\<close>

definition seg_len :: "nat \<Rightarrow> nat" where "seg_len n = 2048 * (n div 2048 + 1)"

lemma segment_eq: "block_size_g b = BLOCK_SZ \<Longrightarrow> segment sz b = of_nat (seg_len (unat sz))"
proof -
  have "unat sz mod 2048 \<le> unat sz + 2048" by (simp add: trans_le_add1)
  then have "(of_nat (unat sz + 2048 - unat sz mod 2048) :: u64) = sz + 2048 - of_nat (unat sz mod 2048)"
    by (simp add: of_nat_diff)
  moreover have "(of_nat (unat sz mod 2048) :: u64) = sz mod 2048"
    by (rule word_unat_eq_iff [THEN iffD2]) (simp add: unat_mod unat_of_nat)
  moreover have "seg_len n = n + 2048 - n mod 2048" for n
  proof -
    have "n = 2048 * (n div 2048) + n mod 2048" "seg_len n = 2048 * (n div 2048) + 2048"
      by (simp_all add: seg_len_def)
    then show ?thesis by linarith
  qed
  moreover assume "block_size_g b = BLOCK_SZ"
  ultimately show ?thesis by (simp add: segment_def BLOCK_SZ_def)
qed

lemma seg_len_bounds: "n < seg_len n" "seg_len n \<le> n + 2048" "2048 dvd seg_len n"
proof -
  have "n = 2048 * (n div 2048) + n mod 2048" "n mod 2048 < 2048" by simp_all
  then show "n < seg_len n" "seg_len n \<le> n + 2048" by (simp_all add: seg_len_def)
qed (simp add: seg_len_def)

lemma GET_INDEX_offset:
  assumes "k < 2 ^ 64"
  shows "GET_INDEX g (g + of_nat k) = int (k div 2048 mod 524288)"
proof -
  have "unat (of_nat k :: u64) = k" using assms by (simp add: unat_of_nat take_bit_nat_eq_self)
  then show ?thesis
    by (simp add: GET_INDEX_def GRID_SZ_def BLOCK_SZ_def uint_nat unat_mod unat_div)
qed

lemma GET_INDEX_bounds: "0 \<le> GET_INDEX g a \<and> GET_INDEX g a < 2 ^ 19"
proof -
  have "GET_INDEX g a = int (unat ((a - g) div 2048) mod 524288)"
    by (simp add: GET_INDEX_def GRID_SZ_def BLOCK_SZ_def uint_nat unat_mod)
  moreover have "unat ((a - g) div 2048) mod 524288 < 524288" by simp
  ultimately show ?thesis by simp
qed

text \<open>An object that starts at a block boundary and stays in the grid.\<close>

lemma block_range_offset:
  assumes "2048 dvd k" and "0 < n" and "k + n \<le> 2 ^ 30"
  shows "block_range g (g + of_nat k) (of_nat n) = (int (k div 2048), int ((k + n - 1) div 2048))"
proof -
  have "g + of_nat k + of_nat n - 1 = g + (of_nat (k + n - 1) :: u64)"
    using assms(2) by (simp add: of_nat_diff)
  then have e: "GET_INDEX g (g + of_nat k + of_nat n - 1) = int ((k + n - 1) div 2048 mod 524288)"
    using assms(3) GET_INDEX_offset [of "k + n - 1" g] by (simp only:) simp
  have "(k + n - 1) div 2048 < 524288" "k div 2048 < 524288"
    using assms(2,3) by (simp_all add: less_mult_imp_div_less)
  then show ?thesis
    unfolding block_range_def e using assms(2,3) GET_INDEX_offset [of k g] by simp
qed

section \<open>Runs\<close>

fun malloc_all :: "u64 list \<Rightarrow> balloc_t \<Rightarrow> (u64 list \<times> balloc_t) res" where
  "malloc_all [] b = Inr ([], b)"
| "malloc_all (n # ns) b =
     ebind (tpc_malloc n b) (\<lambda>(p, b). ebind (malloc_all ns b) (\<lambda>(ps, b). Inr (p # ps, b)))"

fun offsets :: "nat \<Rightarrow> nat list \<Rightarrow> nat list" where
  "offsets k [] = []"
| "offsets k (n # ns) = k # offsets (k + seg_len n) ns"

lemma length_offsets [simp]: "length (offsets k ns) = length ns"
  by (induction ns arbitrary: k) auto

lemma offsets_bounds:
  "2048 dvd k \<Longrightarrow> i < length ns \<Longrightarrow>
    2048 dvd offsets k ns ! i \<and> k \<le> offsets k ns ! i
    \<and> offsets k ns ! i + seg_len (ns ! i) \<le> k + sum_list (map seg_len ns)"
proof (induction ns arbitrary: k i)
  case (Cons n ns)
  show ?case
  proof (cases i)
    case (Suc j)
    then show ?thesis using Cons.IH [of "k + seg_len n" j] Cons.prems seg_len_bounds(3) [of n] by auto
  qed (use Cons.prems in simp)
qed simp

lemma offsets_ordered:
  "2048 dvd k \<Longrightarrow> i < j \<Longrightarrow> j < length ns \<Longrightarrow> offsets k ns ! i + seg_len (ns ! i) \<le> offsets k ns ! j"
proof (induction ns arbitrary: k i j)
  case (Cons n ns)
  then obtain j' where j: "j = Suc j'" by (cases j) auto
  have d: "2048 dvd k + seg_len n" using Cons.prems(1) seg_len_bounds(3) by simp
  show ?case
  proof (cases i)
    case 0
    then show ?thesis using j Cons.prems offsets_bounds [OF d, of j' ns] by simp
  next
    case (Suc i')
    then show ?thesis using j Cons.prems Cons.IH [OF d, of i' j'] by simp
  qed
qed simp

lemma malloc_all_offsets:
  assumes "block_size_g b = BLOCK_SZ" and "Top b = g + of_nat k" and "0 \<notin> set ns"
    and "unat g + k + sum_list (map (seg_len \<circ> unat) ns) < 2 ^ 64" and "g \<noteq> 0"
  shows "\<exists>b'. malloc_all ns b = Inr (map (\<lambda>k. g + of_nat k) (offsets k (map unat ns)), b')"
  using assms
proof (induction ns arbitrary: k b)
  case Nil
  then show ?case by simp
next
  case (Cons n ns)
  have "unat (of_nat k :: u64) = k" using Cons.prems(4) by (simp add: unat_of_nat take_bit_nat_eq_self)
  then have "unat (g + of_nat k) = unat g + k"
    using Cons.prems(4) by (simp add: unat_word_ariths take_bit_nat_eq_self)
  moreover have "unat g \<noteq> 0" using Cons.prems(5) by (simp add: unat_eq_0)
  ultimately have nz: "g + of_nat k \<noteq> 0" by (metis add_is_0 unat_0)
  let ?b = "b\<lparr>Top := Top b + segment n b\<rparr>"
  have "n > 0" using Cons.prems(3) by (auto simp: word_gt_0)
  then have m: "tpc_malloc n b = Inr (g + of_nat k, ?b)"
    using Cons.prems(2) nz by (simp add: tpc_malloc_def balloc_alloc_def)
  have "Top ?b = g + of_nat (k + seg_len (unat n))"
    using Cons.prems(1,2) by (simp add: segment_eq)
  then obtain b' where "malloc_all ns ?b
      = Inr (map (\<lambda>k. g + of_nat k) (offsets (k + seg_len (unat n)) (map unat ns)), b')"
    using Cons.IH [of ?b "k + seg_len (unat n)"] Cons.prems by auto
  with m show ?case by simp
qed

definition balloc_start :: "u64 \<Rightarrow> balloc_t" where
  "balloc_start g = \<lparr>grid_t = g, Top = g, grid_size_g = GRID_SZ, block_size_g = BLOCK_SZ\<rparr>"

section \<open>Two threads in the allocator\<close>

text \<open>
  \<open>ret_val = Top; Top += segment\<close> is three accesses of the shared variable \<open>Top\<close>: the
  read of the result, the read of \<open>+=\<close> and its write.  Nothing makes them atomic.
\<close>

datatype alloc_pc = ABegin u64 | AGot u64 u64 | ALoaded u64 u64 u64 | ADone u64

definition alloc_step :: "nat \<Rightarrow> (balloc_t \<times> (nat \<Rightarrow> alloc_pc)) \<Rightarrow> balloc_t \<times> (nat \<Rightarrow> alloc_pc)" where
  "alloc_step i s =
     (let (b, pc) = s in
      case pc i of
        ABegin sz \<Rightarrow> (b, pc(i := AGot sz (Top b)))
      | AGot sz r \<Rightarrow> (b, pc(i := ALoaded sz r (Top b)))
      | ALoaded sz r v \<Rightarrow> (b\<lparr>Top := v + segment sz b\<rparr>, pc(i := ADone r))
      | ADone r \<Rightarrow> s)"

definition alloc_steps :: "nat list \<Rightarrow> balloc_t \<times> (nat \<Rightarrow> alloc_pc) \<Rightarrow> balloc_t \<times> (nat \<Rightarrow> alloc_pc)" where
  "alloc_steps is s = fold alloc_step is s"

lemma alloc_alone:
  assumes "pc i = ABegin sz"
  shows "alloc_steps [i, i, i] (b, pc) = (snd (balloc_alloc sz b), pc(i := ADone (fst (balloc_alloc sz b))))"
  using assms by (simp add: alloc_steps_def alloc_step_def balloc_alloc_def Let_def)

section \<open>Properties\<close>

text \<open>
  C15: as long as the segments requested fit the grid, \<open>tpc_malloc\<close> succeeds for every sz,
  each object occupies a non-empty interval of valid block numbers, and different objects occupy
  disjoint intervals in the order of allocation: the dependence analysis never confuses two objects.
\<close>

theorem malloc_blocks_disjoint:
  assumes "g \<noteq> 0" and "unat g + 2 ^ 30 < 2 ^ 64" and "0 \<notin> set ns"
    and "sum_list (map (seg_len \<circ> unat) ns) \<le> 2 ^ 30"
  shows "\<exists>ps b. malloc_all ns (balloc_start g) = Inr (ps, b) \<and> length ps = length ns
    \<and> (\<forall>i < length ns. 0 \<le> fst (block_range g (ps ! i) (ns ! i))
        \<and> fst (block_range g (ps ! i) (ns ! i)) \<le> snd (block_range g (ps ! i) (ns ! i))
        \<and> snd (block_range g (ps ! i) (ns ! i)) < 2 ^ 19)
    \<and> (\<forall>i < length ns. \<forall>j < i. snd (block_range g (ps ! j) (ns ! j)) < fst (block_range g (ps ! i) (ns ! i)))"
proof -
  let ?os = "offsets 0 (map unat ns)"
  obtain b where b: "malloc_all ns (balloc_start g) = Inr (map (\<lambda>k. g + of_nat k) ?os, b)"
    using malloc_all_offsets [of "balloc_start g" g 0 ns] assms by (auto simp: balloc_start_def)
  have o: "2048 dvd ?os ! i \<and> ?os ! i + seg_len (unat (ns ! i)) \<le> 2 ^ 30" if "i < length ns" for i
    using offsets_bounds [of 0 i "map unat ns"] that assms(4) by (simp add: comp_def)
  have pos: "0 < unat (ns ! i)" if "i < length ns" for i
    using assms(3) that by (metis nth_mem unat_gt_0)
  have r: "block_range g (map (\<lambda>k. g + of_nat k) ?os ! i) (ns ! i)
      = (int (?os ! i div 2048), int ((?os ! i + unat (ns ! i) - 1) div 2048))" if "i < length ns" for i
    using block_range_offset [of "?os ! i" "unat (ns ! i)" g] o [OF that] pos [OF that] that
      seg_len_bounds(1) [of "unat (ns ! i)"] by simp
  have "(?os ! j + unat (ns ! j) - 1) div 2048 < ?os ! i div 2048" if "j < i" "i < length ns" for i j
  proof -
    have "?os ! j + seg_len (unat (ns ! j)) \<le> ?os ! i"
      using offsets_ordered [of 0 j i "map unat ns"] that by simp
    then have "?os ! j + unat (ns ! j) - 1 < ?os ! i"
      using seg_len_bounds(1) [of "unat (ns ! j)"] by linarith
    moreover have "2048 dvd ?os ! i" using o that(2) by blast
    ultimately show ?thesis by (auto elim!: dvdE simp: less_mult_imp_div_less)
  qed
  moreover have "?os ! i div 2048 \<le> (?os ! i + unat (ns ! i) - 1) div 2048" if "i < length ns" for i
    using pos [OF that] by (intro div_le_mono) linarith
  moreover have "(?os ! i + unat (ns ! i) - 1) div 2048 < 524288" if "i < length ns" for i
    using o [OF that] pos [OF that] seg_len_bounds(1) [of "unat (ns ! i)"]
    by (intro less_mult_imp_div_less) (simp, linarith)
  ultimately show ?thesis using b r by auto
qed

theorem malloc_blocks_disjoint_witness:
  "\<exists>ps b. malloc_all [1, 2048, 5000] (balloc_start 4096) = Inr (ps, b)
    \<and> snd (block_range 4096 (ps ! 0) 1) < fst (block_range 4096 (ps ! 1) 2048)"
proof -
  let ?ns = "[1, 2048, 5000] :: u64 list"
  have "(4096 :: u64) \<noteq> 0" "unat (4096 :: u64) + 2 ^ 30 < 2 ^ 64" "0 \<notin> set ?ns"
      "sum_list (map (seg_len \<circ> unat) ?ns) \<le> 2 ^ 30"
    by (simp_all add: seg_len_def)
  from malloc_blocks_disjoint [OF this] obtain ps b where "malloc_all ?ns (balloc_start 4096) = Inr (ps, b)"
    and "\<forall>i < length ?ns. \<forall>j < i.
      snd (block_range 4096 (ps ! j) (?ns ! j)) < fst (block_range 4096 (ps ! i) (?ns ! i))"
    by (elim exE conjE) (rule that)
  from this(1) this(2) [rule_format, of 1 0] show ?thesis by simp
qed

text \<open>
  The allocator never compares \<open>Top\<close> with the end of the grid.  After one object that fills
  the grid the next request of any sz succeeds with an address just past the grid, and its first
  block number is that of the first object: the dependence analysis takes the two for one.
\<close>

lemma malloc_overruns_grid:
  assumes "g \<noteq> 0" and "g + GRID_SZ \<noteq> 0" and "sz \<noteq> 0"
  shows "\<exists>b. malloc_all [GRID_SZ - BLOCK_SZ, sz] (balloc_start g) = Inr ([g, g + GRID_SZ], b)
    \<and> GET_INDEX g (g + GRID_SZ) = GET_INDEX g g"
proof -
  have z: "(0 :: u64) < sz" "(0 :: u64) < GRID_SZ - BLOCK_SZ"
    using assms(3) by (simp only: word_gt_0, simp add: GRID_SZ_def BLOCK_SZ_def)
  have g: "segment (GRID_SZ - BLOCK_SZ) (balloc_start g) = GRID_SZ"
    by (simp add: segment_def balloc_start_def GRID_SZ_def BLOCK_SZ_def)
  have "GET_INDEX g (g + GRID_SZ) = 0" "GET_INDEX g g = 0"
    by (simp_all add: GET_INDEX_def GRID_SZ_def BLOCK_SZ_def)
  moreover have "tpc_malloc (GRID_SZ - BLOCK_SZ) (balloc_start g)
      = Inr (g, (balloc_start g)\<lparr>Top := g + GRID_SZ\<rparr>)"
    using z(2) g assms(1) by (simp add: tpc_malloc_def balloc_alloc_def balloc_start_def)
  moreover have "\<exists>b. tpc_malloc sz ((balloc_start g)\<lparr>Top := g + GRID_SZ\<rparr>) = Inr (g + GRID_SZ, b)"
    using z(1) assms(2) by (simp add: tpc_malloc_def balloc_alloc_def)
  ultimately show ?thesis by auto
qed

text \<open>
  Two threads that allocate at the same time can both be given the same address: there is an
  interleaving of the accesses to \<open>Top\<close> in which both calls return the old \<open>Top\<close>.
\<close>

lemma malloc_race:
  "\<exists>is. let (b, pc) = alloc_steps is (balloc_start g, (\<lambda>_. ABegin sz))
        in pc 0 = ADone g \<and> pc 1 = ADone g \<and> Top b = g + segment sz b"
proof -
  have "let (b, pc) = alloc_steps [0, 1, 0, 1, 0, 1] (balloc_start g, (\<lambda>_. ABegin sz))
        in pc 0 = ADone g \<and> pc 1 = ADone g \<and> Top b = g + segment sz b"
    by (simp add: alloc_steps_def alloc_step_def balloc_start_def segment_def)
  then show ?thesis by blast
qed

end
