(* ===== verification/Deps.thy ===== *)
theory Deps
  imports NotifyStack ReaderList Trie Balloc
begin

text \<open>
  \<open>src/deps.c\<close> with the data of \<open>include/partee.h\<close> and \<open>include/metadata.h\<close>: the
  dependence analysis that runs when a task is created, and the release of the waiting tasks when
  it completes.  Task descriptors and metadata elements live in two stores indexed by natural
  numbers (their addresses); a pointer that may be null is an option.  The function
  \<open>schedule_task\<close> of \<open>src/runtime.c\<close>, which both entry points call, is an argument here
  and is supplied in the theory \<open>Runtime\<close>.
\<close>

section \<open>Data\<close>

definition SCOOP_IN_ARG :: u32 where "SCOOP_IN_ARG = 0x1"
definition SCOOP_OUT_ARG :: u32 where "SCOOP_OUT_ARG = 0x2"
definition SCOOP_INOUT_ARG :: u32 where "SCOOP_INOUT_ARG = 0x3"
definition SCOOP_STRIDE_ARG :: u32 where "SCOOP_STRIDE_ARG = 0x4"
definition SCOOP_SAFE_ARG :: u32 where "SCOOP_SAFE_ARG = 0x8"
definition SCOOP_BYVALUE_ARG :: u32 where "SCOOP_BYVALUE_ARG = 0x19"
definition SCOOP_REGION_ARG :: u32 where "SCOOP_REGION_ARG = 0x16"
definition SCOOP_HIGHPRIORITY_ARG :: u32 where "SCOOP_HIGHPRIORITY_ARG = 0x64"

definition SCOOP_IS_OUTARG :: "u32 \<Rightarrow> bool" where
  "SCOOP_IS_OUTARG type \<longleftrightarrow> type AND SCOOP_OUT_ARG \<noteq> 0"
definition SCOOP_IS_STRIDEARG :: "u32 \<Rightarrow> bool" where
  "SCOOP_IS_STRIDEARG type \<longleftrightarrow> type AND SCOOP_STRIDE_ARG \<noteq> 0"
definition SCOOP_IS_SAFEARG :: "u32 \<Rightarrow> bool" where
  "SCOOP_IS_SAFEARG type \<longleftrightarrow> type AND SCOOP_SAFE_ARG \<noteq> 0"

datatype task_status =
  CREATING_TASK | CREATED_TASK | SCHEDULED_TASK | EXECUTED_TASK | RELEASING_TASK | COMPLETE_TASK

fun status_code :: "task_status \<Rightarrow> u32" where
  "status_code CREATING_TASK = 0x0"
| "status_code CREATED_TASK = 0x1"
| "status_code SCHEDULED_TASK = 0x2"
| "status_code EXECUTED_TASK = 0x3"
| "status_code RELEASING_TASK = 0x4"
| "status_code COMPLETE_TASK = 0x5"

lemma status_code_inj [simp]: "status_code a = status_code b \<longleftrightarrow> a = b"
  by (cases a; cases b) simp_all

instantiation task_status :: linorder
begin

definition less_eq_task_status :: "task_status \<Rightarrow> task_status \<Rightarrow> bool" where
  "less_eq_task_status a b \<longleftrightarrow> status_code a \<le> status_code b"

definition less_task_status :: "task_status \<Rightarrow> task_status \<Rightarrow> bool" where
  "less_task_status a b \<longleftrightarrow> status_code a < status_code b"

instance
  by standard (auto simp: less_eq_task_status_def less_task_status_def order.strict_iff_order)

end

record tpc_task_argument =
  addr_in :: u64
  addr_out :: u64
  arg_type :: u32
  arg_size :: u32
  stride :: u32
  element_num :: u32

text \<open>
  A task descriptor.  \<open>args_num\<close> is the length of \<open>args\<close>; the wrapper function of the task
  is compiled from the user's program and appears in the theory \<open>Runtime\<close>.
\<close>

record tpc_task_descriptor =
  args :: "tpc_task_argument list"
  number_of_children :: u32
  status :: task_status
  parent :: "nat option"
  waitfor :: u32
  fired :: u32
  task_region :: nat
  to_notify :: "nat notify"
  metadata :: "nat trie option"
  deps_last :: "nat option"

record Metadata_element =
  m_type :: u32
  readers :: "nat list_t"
  m_owner :: nat
  dependent_metadata :: "nat option"

record deps_state =
  tasks :: "nat \<Rightarrow> tpc_task_descriptor"
  metas :: "nat \<Rightarrow> Metadata_element"
  next_meta :: nat
  grid :: u64
  deleted :: "nat list"

definition upd_task :: "nat \<Rightarrow> (tpc_task_descriptor \<Rightarrow> tpc_task_descriptor) \<Rightarrow>
    'z deps_state_scheme \<Rightarrow> 'z deps_state_scheme" where
  "upd_task t f s = s\<lparr>tasks := (tasks s)(t := f (tasks s t))\<rparr>"

definition upd_meta :: "nat \<Rightarrow> (Metadata_element \<Rightarrow> Metadata_element) \<Rightarrow>
    'z deps_state_scheme \<Rightarrow> 'z deps_state_scheme" where
  "upd_meta m f s = s\<lparr>metas := (metas s)(m := f (metas s m))\<rparr>"

section \<open>Waiting for another task\<close>

text \<open>
  The idiom of all four dependence cases: unless the task compared with is the task itself or the
  one most recently waited for, push the task onto the notification stack of \<open>target\<close>; when the
  push succeeds the target becomes the most recent one.
\<close>

definition try_wait :: "nat \<Rightarrow> nat \<Rightarrow> nat \<Rightarrow> 'z deps_state_scheme \<Rightarrow> bool \<times> 'z deps_state_scheme" where
  "try_wait t compared target s =
     (if t = compared \<or> deps_last (tasks s t) = Some compared then (False, s)
      else
        let (r, st) = stack_push t (to_notify (tasks s target));
            s = upd_task target (\<lambda>d. d\<lparr>to_notify := st\<rparr>) s
        in if r = 0 then (False, s)
           else (True, upd_task t (\<lambda>d. d\<lparr>deps_last := Some target\<rparr>) s))"

section \<open>One block\<close>

definition put_trie :: "nat \<Rightarrow> nat trie \<Rightarrow> 'z deps_state_scheme \<Rightarrow> 'z deps_state_scheme" where
  "put_trie p trie s = upd_task p (\<lambda>d. d\<lparr>metadata := Some trie\<rparr>) s"

text \<open>The parent's table, through the pointers the code follows.\<close>

definition parent_trie :: "nat \<Rightarrow> 'z deps_state_scheme \<Rightarrow> (nat \<times> nat trie) res" where
  "parent_trie t s =
     (case parent (tasks s t) of
        None \<Rightarrow> Inl NullDeref
      | Some p \<Rightarrow> (case metadata (tasks s p) of None \<Rightarrow> Inl AssertFailed | Some trie \<Rightarrow> Inr (p, trie)))"

text \<open>The body of the loop over the blocks of an OUT or INOUT argument.\<close>

definition out_block :: "nat \<Rightarrow> nat \<Rightarrow> int \<Rightarrow> u32 \<times> 'z deps_state_scheme \<Rightarrow>
    (u32 \<times> 'z deps_state_scheme) res" where
  "out_block t new_metadata j = (\<lambda>(waitfor, s).
     ebind (parent_trie t s) (\<lambda>(p, trie).
     ebind (get_or_create_node trie j) (\<lambda>(old, trie).
     ebind (set_node trie j (Some new_metadata)) (\<lambda>trie.
     let s = put_trie p trie s in
     case old of
       None \<Rightarrow> Inr (waitfor, s)
     | Some m \<Rightarrow>
         if SCOOP_IS_OUTARG (m_type (metas s m)) then
           let owner = m_owner (metas s m);
               (pushed, s) = try_wait t owner owner s
           in if \<not> pushed then Inr (waitfor, s) else Inr (waitfor + 1, s)
         else
           efold (\<lambda>reader (waitfor, s).
                    let (pushed, s) = try_wait t (task reader) (task reader) s
                    in if pushed then Inr (waitfor + 1, s) else Inr (waitfor, s))
             (head (readers (metas s m))) (waitfor, s)))))"

text \<open>The body of the loop over the blocks of an IN argument.\<close>

definition in_block :: "nat \<Rightarrow> nat \<Rightarrow> int \<Rightarrow> u32 \<times> 'z deps_state_scheme \<Rightarrow>
    (u32 \<times> 'z deps_state_scheme) res" where
  "in_block t new_metadata j = (\<lambda>(waitfor, s).
     ebind (parent_trie t s) (\<lambda>(p, trie).
     ebind (get_or_create_node trie j) (\<lambda>(old, trie).
     let s = put_trie p trie s in
     case old of
       None \<Rightarrow>
         ebind (set_node trie j (Some new_metadata)) (\<lambda>trie. Inr (waitfor, put_trie p trie s))
     | Some m \<Rightarrow>
         if SCOOP_IS_OUTARG (m_type (metas s m)) then
           ebind (set_node trie j (Some new_metadata)) (\<lambda>trie.
           let s = put_trie p trie s;
               owner = m_owner (metas s m);
               (pushed, s) = try_wait t owner owner s
           in if \<not> pushed then Inr (waitfor, s)
              else Inr (waitfor + 1, upd_meta new_metadata (\<lambda>e. e\<lparr>dependent_metadata := Some m\<rparr>) s))
         else if status (tasks s (m_owner (metas s m))) \<le> EXECUTED_TASK then
           ebind (insert_front t (readers (metas s m))) (\<lambda>rs.
           let s = upd_meta m (\<lambda>e. e\<lparr>readers := rs\<rparr>) s in
           case dependent_metadata (metas s m) of
             None \<Rightarrow> Inr (waitfor, s)
           | Some dep_metadata \<Rightarrow>
               let (pushed, s) = try_wait t (m_owner (metas s m)) (m_owner (metas s dep_metadata)) s
               in if pushed then Inr (waitfor + 1, s) else Inr (waitfor, s))
         else
           ebind (set_node trie j (Some new_metadata)) (\<lambda>trie. Inr (waitfor, put_trie p trie s)))))"

section \<open>An argument\<close>

text \<open>The blocks from \<open>meta_index_start\<close> to \<open>meta_index_end\<close>.\<close>

definition arg_blocks :: "u64 \<Rightarrow> u64 \<Rightarrow> u32 \<Rightarrow> int list" where
  "arg_blocks g address size32 = [GET_INDEX g address .. GET_INDEX g (address + ucast size32 - 1)]"

definition create_dependency :: "nat \<Rightarrow> tpc_task_argument \<Rightarrow> nat \<Rightarrow> 'z deps_state_scheme \<Rightarrow>
    (u32 \<times> 'z deps_state_scheme) res" where
  "create_dependency t arg new_metadata s =
     (if SCOOP_IS_OUTARG (arg_type arg) then
        efold (out_block t new_metadata) (arg_blocks (grid s) (addr_out arg) (arg_size arg)) (0, s)
      else
        ebind (insert_front t (readers (metas s new_metadata))) (\<lambda>rs.
        let s = upd_meta new_metadata (\<lambda>e. e\<lparr>readers := rs\<rparr>) s in
        efold (in_block t new_metadata) (arg_blocks (grid s) (addr_in arg) (arg_size arg)) (0, s)))"

text \<open>
  \<open>handle_argument\<close> is called with the argument by reference; \<open>i\<close> is its position in the
  task's argument array, which the stride loops change and restore.
\<close>

definition set_arg :: "nat \<Rightarrow> nat \<Rightarrow> (tpc_task_argument \<Rightarrow> tpc_task_argument) \<Rightarrow>
    'z deps_state_scheme \<Rightarrow> 'z deps_state_scheme" where
  "set_arg t i f s = upd_task t (\<lambda>d. d\<lparr>args := (args d)[i := f (args d ! i)]\<rparr>) s"

definition new_element :: "u32 \<Rightarrow> nat \<Rightarrow> 'z deps_state_scheme \<Rightarrow> nat \<times> 'z deps_state_scheme" where
  "new_element type t s =
     (let m = next_meta s in
      (m, s\<lparr>next_meta := m + 1,
        metas := (metas s)(m := \<lparr>m_type = type, readers = init_List, m_owner = t,
                                  dependent_metadata = None\<rparr>)\<rparr>))"

definition handle_argument :: "nat \<Rightarrow> nat \<Rightarrow> 'z deps_state_scheme \<Rightarrow> (u32 \<times> 'z deps_state_scheme) res" where
  "handle_argument i t s =
     (let arg = args (tasks s t) ! i in
      if SCOOP_IS_SAFEARG (arg_type arg) then Inr (0, s)
      else
        let (new_metadata, s) = new_element (arg_type arg) t s in
        if \<not> SCOOP_IS_STRIDEARG (arg_type arg) then create_dependency t arg new_metadata s
        else if SCOOP_IS_OUTARG (arg_type arg) then
          let tmp = addr_in arg in
          ebind (efold (\<lambda>j (waitfor, s).
                   ebind (create_dependency t (args (tasks s t) ! i) new_metadata s) (\<lambda>(w, s).
                   Inr (waitfor + w,
                     set_arg t i (\<lambda>a. a\<lparr>addr_out := addr_out a + ucast (stride a)\<rparr>) s)))
                   [0..<unat (element_num arg)] (0, s)) (\<lambda>(waitfor, s).
          Inr (waitfor, set_arg t i (\<lambda>a. a\<lparr>addr_out := tmp\<rparr>) s))
        else
          let tmp = addr_in arg in
          ebind (efold (\<lambda>j (waitfor, s).
                   ebind (create_dependency t (args (tasks s t) ! i) new_metadata s) (\<lambda>(w, s).
                   Inr (waitfor + w,
                     set_arg t i (\<lambda>a. a\<lparr>addr_in := addr_in a + ucast (stride a)\<rparr>) s)))
                   [0..<unat (element_num arg)] (0, s)) (\<lambda>(waitfor, s).
          Inr (waitfor, set_arg t i (\<lambda>a. a\<lparr>addr_in := tmp\<rparr>) s)))"

section \<open>A task\<close>

definition create_dependencies :: "(nat \<Rightarrow> 'z deps_state_scheme \<Rightarrow> 'z deps_state_scheme res) \<Rightarrow>
    nat \<Rightarrow> 'z deps_state_scheme \<Rightarrow> 'z deps_state_scheme res" where
  "create_dependencies schedule_task t s =
     ebind (efold (\<lambda>i (waitfor, s).
              ebind (handle_argument i t s) (\<lambda>(w, s). Inr (waitfor + w, s)))
              [0..<length (args (tasks s t))] (0, s)) (\<lambda>(waitfor, s).
     if waitfor = 0 then
       schedule_task t (upd_task t (\<lambda>d. d\<lparr>status := CREATED_TASK\<rparr>) s)
     else
       Inr (upd_task t (\<lambda>d. d\<lparr>waitfor := waitfor, status := CREATED_TASK\<rparr>) s))"

text \<open>
  One turn of the loop of \<open>fire_dependencies\<close>.  The wait for a task that is still being created
  is a fault here: no other thread moves while this one runs.
\<close>

definition fire_one :: "(nat \<Rightarrow> 'z deps_state_scheme \<Rightarrow> 'z deps_state_scheme res) \<Rightarrow>
    nat \<Rightarrow> 'z deps_state_scheme \<Rightarrow> 'z deps_state_scheme res" where
  "fire_one schedule_task w s =
     (let s = upd_task w (\<lambda>d. d\<lparr>fired := fired d + 1\<rparr>) s;
          fired' = fired (tasks s w)
      in if status (tasks s w) < CREATED_TASK then Inl Spins
         else
           ebind (c_assert (waitfor (tasks s w) \<ge> fired')) (\<lambda>_.
           ebind (c_assert (fired' > 0)) (\<lambda>_.
           ebind (c_assert (status (tasks s w) \<ge> CREATED_TASK)) (\<lambda>_.
           if status (tasks s w) = CREATED_TASK \<and> waitfor (tasks s w) = fired'
           then schedule_task w s else Inr s))))"

function fire_loop :: "(nat \<Rightarrow> 'z deps_state_scheme \<Rightarrow> 'z deps_state_scheme res) \<Rightarrow>
    nat list \<Rightarrow> 'z deps_state_scheme \<Rightarrow> 'z deps_state_scheme res" where
  "fire_loop schedule_task chain s =
     (case stack_pop chain of
        (None, _) \<Rightarrow> Inr s
      | (Some w, chain') \<Rightarrow> ebind (fire_one schedule_task w s) (fire_loop schedule_task chain'))"
  by pat_completeness auto

termination fire_loop
proof (relation "measure (\<lambda>(_, chain, _). length chain)")
  show "((schedule_task, chain', x), (schedule_task, chain, s)) \<in> measure (\<lambda>(_, chain, _). length chain)"
    if "(a, chain') = stack_pop chain" and "a = Some w" for schedule_task chain s a chain' w x
    using that by (cases chain) auto
qed auto

definition fire_dependencies :: "(nat \<Rightarrow> 'z deps_state_scheme \<Rightarrow> 'z deps_state_scheme res) \<Rightarrow>
    nat \<Rightarrow> 'z deps_state_scheme \<Rightarrow> 'z deps_state_scheme res" where
  "fire_dependencies schedule_task t s =
     ebind (c_assert (status (tasks s t) = RELEASING_TASK)) (\<lambda>_.
     ebind (stack_lock (to_notify (tasks s t))) (\<lambda>(chain, st).
     let s = upd_task t (\<lambda>d. d\<lparr>to_notify := st\<rparr>) s in
     ebind (fire_loop schedule_task chain s) (\<lambda>s.
     let s = upd_task t (\<lambda>d. d\<lparr>status := COMPLETE_TASK\<rparr>) s in
     Inr (s\<lparr>deleted := deleted s @ [task_region (tasks s t)]\<rparr>))))"

end
