(* ===== verification/Deps_Edges.thy ===== *)
theory Deps_Edges
  imports Deps
begin

text \<open>
  What the dependence analysis does to the notification stacks and to the block table: every push
  is counted once, whoever must be waited for is waited for, nothing else changes, and no operation
  of the analysis fails on a well-formed table.
\<close>

section \<open>Waiting\<close>

text \<open>Task \<open>t\<close> waits for \<open>q\<close>, or \<open>q\<close> has already locked its stack, that is, is done.\<close>

definition awaits :: "'z deps_state_scheme \<Rightarrow> nat \<Rightarrow> nat \<Rightarrow> bool" where
  "awaits s t q \<longleftrightarrow> to_notify (tasks s q) = NLocked \<or> 0 < waiting t (to_notify (tasks s q))"

text \<open>How often \<open>t\<close> will be notified by the tasks of \<open>A\<close>.\<close>

definition total_waiting :: "nat set \<Rightarrow> nat \<Rightarrow> 'z deps_state_scheme \<Rightarrow> nat" where
  "total_waiting A t s = (\<Sum>q \<in> A. waiting t (to_notify (tasks s q)))"

definition add_waits :: "nat \<Rightarrow> nat \<Rightarrow> nat notify \<Rightarrow> nat notify" where
  "add_waits n t st = (case st of NLocked \<Rightarrow> NLocked | NOpen xs \<Rightarrow> NOpen (replicate n t @ xs))"

lemma add_waits_simps [simp]:
  "add_waits 0 t st = st"
  "add_waits m t (add_waits n t st) = add_waits (m + n) t st"
  "add_waits n t st = NLocked \<longleftrightarrow> st = NLocked"
  "waiting u (add_waits n t st) = waiting u st + (if u = t \<and> st \<noteq> NLocked then n else 0)"
  by (cases st; simp add: add_waits_def replicate_add; induction n; simp)+

lemma add_waits_one [simp]: "add_waits (Suc 0) t (NOpen xs) = NOpen (t # xs)"
  by (simp add: add_waits_def)

text \<open>The fields of an argument that the stride loops leave alone.\<close>

definition arg_shape :: "tpc_task_argument \<Rightarrow> u32 \<times> u32 \<times> u32 \<times> u32" where
  "arg_shape a = (arg_type a, arg_size a, stride a, element_num a)"

text \<open>What the analysis of task \<open>t\<close> may change.\<close>

definition evolves :: "nat \<Rightarrow> 'z deps_state_scheme \<Rightarrow> 'z deps_state_scheme \<Rightarrow> bool" where
  "evolves t s s' \<longleftrightarrow>
     next_meta s \<le> next_meta s' \<and> grid s' = grid s \<and> deleted s' = deleted s
     \<and> deps_state.more s' = deps_state.more s
     \<and> (\<forall>q. \<exists>n as dl tr. tasks s' q = (tasks s q)\<lparr>to_notify := add_waits n t (to_notify (tasks s q)),
          args := as, deps_last := dl, metadata := tr\<rparr>
          \<and> map arg_shape as = map arg_shape (args (tasks s q))
          \<and> (q \<noteq> t \<longrightarrow> as = args (tasks s q) \<and> dl = deps_last (tasks s q))
          \<and> (parent (tasks s t) \<noteq> Some q \<longrightarrow> tr = metadata (tasks s q)))"

lemma evolvesE:
  assumes "evolves t s s'"
  obtains n as dl tr where "tasks s' q = (tasks s q)\<lparr>to_notify := add_waits n t (to_notify (tasks s q)),
      args := as, deps_last := dl, metadata := tr\<rparr>"
    and "map arg_shape as = map arg_shape (args (tasks s q))"
    and "q \<noteq> t \<Longrightarrow> as = args (tasks s q) \<and> dl = deps_last (tasks s q)"
    and "parent (tasks s t) \<noteq> Some q \<Longrightarrow> tr = metadata (tasks s q)"
  using assms unfolding evolves_def by blast

lemma evolves_fields:
  assumes "evolves t s s'"
  shows "parent (tasks s' q) = parent (tasks s q)" "status (tasks s' q) = status (tasks s q)"
    "waitfor (tasks s' q) = waitfor (tasks s q)" "fired (tasks s' q) = fired (tasks s q)"
    "map arg_shape (args (tasks s' q)) = map arg_shape (args (tasks s q))"
    "to_notify (tasks s' q) = NLocked \<longleftrightarrow> to_notify (tasks s q) = NLocked"
    "q \<noteq> t \<Longrightarrow> deps_last (tasks s' q) = deps_last (tasks s q)"
    "u \<noteq> t \<Longrightarrow> waiting u (to_notify (tasks s' q)) = waiting u (to_notify (tasks s q))"
    "waiting u (to_notify (tasks s q)) \<le> waiting u (to_notify (tasks s' q))"
    "grid s' = grid s"
proof -
  obtain n as dl tr where e: "tasks s' q = (tasks s q)\<lparr>to_notify := add_waits n t (to_notify (tasks s q)),
        args := as, deps_last := dl, metadata := tr\<rparr>" "map arg_shape as = map arg_shape (args (tasks s q))"
      "q \<noteq> t \<Longrightarrow> as = args (tasks s q) \<and> dl = deps_last (tasks s q)"
    using evolvesE [OF assms, of q] by metis
  show "parent (tasks s' q) = parent (tasks s q)" "status (tasks s' q) = status (tasks s q)"
    "waitfor (tasks s' q) = waitfor (tasks s q)" "fired (tasks s' q) = fired (tasks s q)"
    "map arg_shape (args (tasks s' q)) = map arg_shape (args (tasks s q))"
    "to_notify (tasks s' q) = NLocked \<longleftrightarrow> to_notify (tasks s q) = NLocked"
    "q \<noteq> t \<Longrightarrow> deps_last (tasks s' q) = deps_last (tasks s q)"
    "u \<noteq> t \<Longrightarrow> waiting u (to_notify (tasks s' q)) = waiting u (to_notify (tasks s q))"
    "waiting u (to_notify (tasks s q)) \<le> waiting u (to_notify (tasks s' q))"
    unfolding e(1) using e(2,3) by simp_all
  show "grid s' = grid s" using assms by (simp add: evolves_def)
qed

lemma evolves_refl [simp]: "evolves t s s"
proof -
  have "tasks s q = (tasks s q)\<lparr>to_notify := add_waits 0 t (to_notify (tasks s q)),
      args := args (tasks s q), deps_last := deps_last (tasks s q), metadata := metadata (tasks s q)\<rparr>" for q
    by simp
  then show ?thesis unfolding evolves_def by blast
qed

lemma evolves_trans:
  assumes "evolves t s s1" and "evolves t s1 s2"
  shows "evolves t s s2"
proof -
  have "\<exists>n as dl tr. tasks s2 q = (tasks s q)\<lparr>to_notify := add_waits n t (to_notify (tasks s q)),
          args := as, deps_last := dl, metadata := tr\<rparr>
        \<and> map arg_shape as = map arg_shape (args (tasks s q))
        \<and> (q \<noteq> t \<longrightarrow> as = args (tasks s q) \<and> dl = deps_last (tasks s q))
        \<and> (parent (tasks s t) \<noteq> Some q \<longrightarrow> tr = metadata (tasks s q))" for q
  proof -
    obtain n as dl tr where 1: "tasks s1 q = (tasks s q)\<lparr>to_notify := add_waits n t (to_notify (tasks s q)),
        args := as, deps_last := dl, metadata := tr\<rparr>" "map arg_shape as = map arg_shape (args (tasks s q))"
        "q \<noteq> t \<Longrightarrow> as = args (tasks s q) \<and> dl = deps_last (tasks s q)"
        "parent (tasks s t) \<noteq> Some q \<Longrightarrow> tr = metadata (tasks s q)"
      using evolvesE [OF assms(1), of q] by metis
    obtain n' as' dl' tr' where 2: "tasks s2 q = (tasks s1 q)\<lparr>to_notify := add_waits n' t (to_notify (tasks s1 q)),
        args := as', deps_last := dl', metadata := tr'\<rparr>" "map arg_shape as' = map arg_shape (args (tasks s1 q))"
        "q \<noteq> t \<Longrightarrow> as' = args (tasks s1 q) \<and> dl' = deps_last (tasks s1 q)"
        "parent (tasks s1 t) \<noteq> Some q \<Longrightarrow> tr' = metadata (tasks s1 q)"
      using evolvesE [OF assms(2), of q] by metis
    have p: "parent (tasks s1 t) = parent (tasks s t)" using evolves_fields(1) [OF assms(1)] .
    show ?thesis
      by (rule exI [of _ "n' + n"], rule exI [of _ as'], rule exI [of _ dl'], rule exI [of _ tr'])
        (use 1 2 p in auto)
  qed
  then show ?thesis using assms by (simp add: evolves_def)
qed

lemma awaits_evolves: "awaits s u q \<Longrightarrow> evolves t s s' \<Longrightarrow> awaits s' u q"
  unfolding awaits_def by (metis evolves_fields(6) evolves_fields(9) less_le_trans)

text \<open>What a wait changes: stacks and the most recent dependence, nothing else.\<close>

definition pushes :: "nat \<Rightarrow> 'z deps_state_scheme \<Rightarrow> 'z deps_state_scheme \<Rightarrow> bool" where
  "pushes t s s' \<longleftrightarrow> evolves t s s' \<and> metas s' = metas s \<and> next_meta s' = next_meta s
     \<and> (\<forall>q. metadata (tasks s' q) = metadata (tasks s q) \<and> args (tasks s' q) = args (tasks s q))"

lemma pushes_refl [simp]: "pushes t s s"
  by (simp add: pushes_def)

lemma pushes_trans: "pushes t s s1 \<Longrightarrow> pushes t s1 s2 \<Longrightarrow> pushes t s s2"
  unfolding pushes_def using evolves_trans by auto

lemma pushes_parent_trie: "pushes t s s' \<Longrightarrow> parent_trie u s' = parent_trie u s"
proof -
  assume "pushes t s s'"
  then have "parent (tasks s' q) = parent (tasks s q)" "metadata (tasks s' q) = metadata (tasks s q)" for q
    using evolves_fields(1) [of t s s' q] by (auto simp: pushes_def)
  then show ?thesis by (simp add: parent_trie_def split: option.split)
qed

section \<open>One wait\<close>

definition last_ok :: "nat \<Rightarrow> 'z deps_state_scheme \<Rightarrow> bool" where
  "last_ok t s \<longleftrightarrow> (\<forall>q. deps_last (tasks s t) = Some q \<longrightarrow> awaits s t q)"

lemma try_wait_cases:
  assumes "try_wait t c q s = (ok, s')"
  obtains (skip) "\<not> ok" "s' = s" "t = c \<or> deps_last (tasks s t) = Some c"
  | (locked) "\<not> ok" "s' = upd_task q (\<lambda>d. d\<lparr>to_notify := NLocked\<rparr>) s" "to_notify (tasks s q) = NLocked"
      "t \<noteq> c" "deps_last (tasks s t) \<noteq> Some c"
  | (push) xs where "ok" "to_notify (tasks s q) = NOpen xs" "t \<noteq> c" "deps_last (tasks s t) \<noteq> Some c"
      "s' = upd_task t (\<lambda>d. d\<lparr>deps_last := Some q\<rparr>) (upd_task q (\<lambda>d. d\<lparr>to_notify := NOpen (t # xs)\<rparr>) s)"
proof (cases "t = c \<or> deps_last (tasks s t) = Some c")
  case True
  then have "(ok, s') = (False, s)" using assms unfolding try_wait_def by simp
  then show thesis using skip True by blast
next
  case False
  show thesis
  proof (cases "to_notify (tasks s q)")
    case NLocked
    then have "(ok, s') = (False, upd_task q (\<lambda>d. d\<lparr>to_notify := NLocked\<rparr>) s)"
      using assms False by (simp add: try_wait_def)
    then show thesis using locked NLocked False by blast
  next
    case (NOpen xs)
    then have "(ok, s') = (True, upd_task t (\<lambda>d. d\<lparr>deps_last := Some q\<rparr>)
        (upd_task q (\<lambda>d. d\<lparr>to_notify := NOpen (t # xs)\<rparr>) s))"
      using assms False by (simp add: try_wait_def)
    then show thesis using push [OF _ NOpen] False by blast
  qed
qed

lemma upd_task_same [simp]: "f (tasks s q) = tasks s q \<Longrightarrow> upd_task q f s = s"
  by (simp add: upd_task_def fun_upd_idem)

lemma tasks_upd_task: "tasks (upd_task q f s) p = (if p = q then f (tasks s q) else tasks s p)"
  by (simp add: upd_task_def)

lemma upd_task_frame [simp]:
  "metas (upd_task q f s) = metas s" "next_meta (upd_task q f s) = next_meta s"
  "grid (upd_task q f s) = grid s" "deleted (upd_task q f s) = deleted s"
  "deps_state.more (upd_task q f s) = deps_state.more s"
  by (simp_all add: upd_task_def)

lemma push_pushes:
  assumes "to_notify (tasks s q) = NOpen xs"
  shows "pushes t s (upd_task t (\<lambda>d. d\<lparr>deps_last := Some q\<rparr>) (upd_task q (\<lambda>d. d\<lparr>to_notify := NOpen (t # xs)\<rparr>) s))"
    (is "pushes t s ?s")
proof -
  have "tasks ?s p = (tasks s p)\<lparr>to_notify := add_waits (if p = q then 1 else 0) t (to_notify (tasks s p)),
      args := args (tasks s p), deps_last := (if p = t then Some q else deps_last (tasks s p)),
      metadata := metadata (tasks s p)\<rparr>" for p
    using assms by (cases "p = q") (simp_all add: tasks_upd_task)
  then have "\<exists>n as dl tr. tasks ?s p = (tasks s p)\<lparr>to_notify := add_waits n t (to_notify (tasks s p)),
          args := as, deps_last := dl, metadata := tr\<rparr>
        \<and> map arg_shape as = map arg_shape (args (tasks s p))
        \<and> (p \<noteq> t \<longrightarrow> as = args (tasks s p) \<and> dl = deps_last (tasks s p))
        \<and> (parent (tasks s t) \<noteq> Some p \<longrightarrow> tr = metadata (tasks s p))" for p
    by (intro exI conjI) (assumption | simp)+
  then show ?thesis by (simp add: pushes_def evolves_def tasks_upd_task)
qed

lemma try_wait_pushes: "try_wait t c q s = (ok, s') \<Longrightarrow> pushes t s s'"
  by (erule try_wait_cases) (simp_all add: push_pushes)

text \<open>The number of notifications to come grows by one exactly when the wait succeeds.\<close>

lemma try_wait_total:
  assumes "try_wait t c q s = (ok, s')" and "finite A" and "q \<in> A"
  shows "total_waiting A t s' = total_waiting A t s + (if ok then 1 else 0)"
  using assms(1)
proof (cases rule: try_wait_cases)
  case (push xs)
  have "waiting t (to_notify (tasks s' p)) = waiting t (to_notify (tasks s p)) + (if p = q then 1 else 0)" for p
    using push by (auto simp: tasks_upd_task)
  then show ?thesis
    using push(1) assms(2,3) by (simp add: total_waiting_def sum.distrib)
qed simp_all

lemma try_wait_last_ok:
  assumes "try_wait t c q s = (ok, s')" and "last_ok t s"
  shows "last_ok t s'"
  using assms(1)
proof (cases rule: try_wait_cases)
  case (push xs)
  have "to_notify (tasks s' q) = NOpen (t # xs)" using push(5) by (simp add: tasks_upd_task)
  moreover have "deps_last (tasks s' t) = Some q" using push(5) by (simp add: tasks_upd_task)
  ultimately show ?thesis by (simp add: last_ok_def awaits_def)
qed (use assms(2) in simp_all)

lemma try_wait_awaits:
  assumes "try_wait t c q s = (ok, s')" and "last_ok t s"
  shows "t = c \<or> deps_last (tasks s t) = Some c \<and> awaits s' t c \<or> awaits s' t q"
  using assms(1)
proof (cases rule: try_wait_cases)
  case (push xs)
  then show ?thesis by (auto simp: awaits_def tasks_upd_task)
qed (use assms(2) in \<open>auto simp: last_ok_def awaits_def tasks_upd_task\<close>)

section \<open>All readers of a block\<close>

definition wait_step :: "nat \<Rightarrow> nat list_entry_t \<Rightarrow> u32 \<times> 'z deps_state_scheme \<Rightarrow> (u32 \<times> 'z deps_state_scheme) res" where
  "wait_step t reader = (\<lambda>(waitfor, s).
     let (pushed, s) = try_wait t (task reader) (task reader) s
     in if pushed then Inr (waitfor + 1, s) else Inr (waitfor, s))"

lemma wait_readers:
  assumes "finite A" and "task ` set rs \<subseteq> A" and "last_ok t s"
  shows "\<exists>w' s'. efold (wait_step t) rs (w, s) = Inr (w', s') \<and> pushes t s s' \<and> last_ok t s'
    \<and> w' + of_nat (total_waiting A t s) = w + of_nat (total_waiting A t s')
    \<and> (\<forall>r \<in> set rs. task r = t \<or> awaits s' t (task r))"
  using assms(2,3)
proof (induction rs arbitrary: w s)
  case Nil
  then show ?case by simp
next
  case (Cons r rs)
  obtain ok s1 where tw: "try_wait t (task r) (task r) s = (ok, s1)" by (metis surj_pair)
  have 1: "pushes t s s1" "last_ok t s1"
    using try_wait_pushes [OF tw] try_wait_last_ok [OF tw Cons.prems(2)] by blast+
  have tot: "total_waiting A t s1 = total_waiting A t s + (if ok then 1 else 0)"
    using try_wait_total [OF tw assms(1)] Cons.prems(1) by simp
  have aw: "task r = t \<or> awaits s1 t (task r)"
    using try_wait_awaits [OF tw Cons.prems(2)] by auto
  let ?w = "if ok then w + 1 else w"
  obtain w' s' where IH: "efold (wait_step t) rs (?w, s1) = Inr (w', s')" "pushes t s1 s'" "last_ok t s'"
      "w' + of_nat (total_waiting A t s1) = ?w + of_nat (total_waiting A t s')"
      "\<forall>r \<in> set rs. task r = t \<or> awaits s' t (task r)"
    using Cons.IH [of s1 ?w] Cons.prems(1) 1(2) by auto
  have "wait_step t r (w, s) = Inr (?w, s1)"
    using tw by (simp add: wait_step_def)
  moreover have "w' + of_nat (total_waiting A t s) = w + of_nat (total_waiting A t s')"
    using IH(4) tot by (cases ok) (simp_all add: algebra_simps)
  moreover have "task r = t \<or> awaits s' t (task r)"
    using aw awaits_evolves IH(2) unfolding pushes_def by blast
  ultimately show ?case using IH 1 pushes_trans by auto
qed

end
