(* ===== verification/Deps_Blocks.thy ===== *)
theory Deps_Blocks
  imports Deps_Edges
begin

text \<open>
  The two loops of \<open>create_dependency\<close> over the blocks of an argument: what they do to the
  table, to the metadata elements and to the notification stacks.
\<close>

section \<open>Well-formed tables\<close>

text \<open>The metadata element the parent of \<open>t\<close> holds for a block.\<close>

definition table :: "nat \<Rightarrow> 'z deps_state_scheme \<Rightarrow> int \<Rightarrow> nat option" where
  "table t s j = (case parent_trie t s of Inl _ \<Rightarrow> None | Inr (p, trie) \<Rightarrow> trie_view trie j)"

definition table_inv :: "nat \<Rightarrow> 'z deps_state_scheme \<Rightarrow> bool" where
  "table_inv t s \<longleftrightarrow> (\<exists>p trie. parent_trie t s = Inr (p, trie) \<and> trie_inv trie)"

text \<open>
  A metadata element below the address \<open>n\<close> whose tasks belong to \<open>A\<close> and whose reader list is
  consistent and at most \<open>k\<close> long.
\<close>

definition elem_ok :: "nat set \<Rightarrow> nat \<Rightarrow> nat \<Rightarrow> Metadata_element \<Rightarrow> bool" where
  "elem_ok A k n e \<longleftrightarrow> list_inv (readers e) \<and> length (head (readers e)) \<le> k \<and> m_owner e \<in> A
     \<and> set (list_items (readers e)) \<subseteq> A \<and> (\<forall>d. dependent_metadata e = Some d \<longrightarrow> d < n)"

definition deps_ok :: "nat set \<Rightarrow> nat \<Rightarrow> nat \<Rightarrow> 'z deps_state_scheme \<Rightarrow> bool" where
  "deps_ok A k t s \<longleftrightarrow> finite A \<and> t \<in> A \<and> table_inv t s \<and> last_ok t s
     \<and> (\<forall>j m. table t s j = Some m \<longrightarrow> m < next_meta s)
     \<and> (\<forall>m < next_meta s. elem_ok A k (next_meta s) (metas s m))"

lemma deps_okD:
  assumes "deps_ok A k t s"
  shows "finite A" "t \<in> A" "table_inv t s" "last_ok t s" "table t s j = Some m \<Longrightarrow> m < next_meta s"
    "m < next_meta s \<Longrightarrow> elem_ok A k (next_meta s) (metas s m)"
  using assms by (auto simp: deps_ok_def)

lemma elem_ok_mono: "elem_ok A k n e \<Longrightarrow> k \<le> k' \<Longrightarrow> n \<le> n' \<Longrightarrow> elem_ok A k' n' e"
  by (auto simp: elem_ok_def)

lemma deps_ok_mono: "deps_ok A k t s \<Longrightarrow> k \<le> k' \<Longrightarrow> deps_ok A k' t s"
  using elem_ok_mono by (fastforce simp: deps_ok_def)

text \<open>Writing the table touches nothing the waits depend on.\<close>

lemma put_trie_frame:
  "to_notify (tasks (put_trie p tr s) q) = to_notify (tasks s q)"
  "deps_last (tasks (put_trie p tr s) q) = deps_last (tasks s q)"
  "parent (tasks (put_trie p tr s) q) = parent (tasks s q)"
  "status (tasks (put_trie p tr s) q) = status (tasks s q)"
  "metas (put_trie p tr s) = metas s" "next_meta (put_trie p tr s) = next_meta s"
  "total_waiting A u (put_trie p tr s) = total_waiting A u s"
  "awaits (put_trie p tr s) u q = awaits s u q" "last_ok u (put_trie p tr s) = last_ok u s"
proof -
  have f: "to_notify (tasks (put_trie p tr s) q) = to_notify (tasks s q)"
    "deps_last (tasks (put_trie p tr s) q) = deps_last (tasks s q)" for q
    by (simp_all add: put_trie_def tasks_upd_task)
  show "total_waiting A u (put_trie p tr s) = total_waiting A u s"
    "awaits (put_trie p tr s) u q = awaits s u q" "last_ok u (put_trie p tr s) = last_ok u s"
    by (simp_all add: total_waiting_def awaits_def last_ok_def f)
qed (simp_all add: put_trie_def tasks_upd_task)

lemma put_trie_evolves:
  assumes "parent (tasks s t) = Some p"
  shows "evolves t s (put_trie p tr s)"
proof -
  have "\<exists>n as dl tr'. tasks (put_trie p tr s) q = (tasks s q)\<lparr>to_notify := add_waits n t (to_notify (tasks s q)),
          args := as, deps_last := dl, metadata := tr'\<rparr>
        \<and> map arg_shape as = map arg_shape (args (tasks s q))
        \<and> (q \<noteq> t \<longrightarrow> as = args (tasks s q) \<and> dl = deps_last (tasks s q))
        \<and> (parent (tasks s t) \<noteq> Some q \<longrightarrow> tr' = metadata (tasks s q))" for q
    by (rule exI [of _ 0], rule exI [of _ "args (tasks s q)"], rule exI [of _ "deps_last (tasks s q)"],
        rule exI [of _ "metadata (tasks (put_trie p tr s) q)"])
      (use assms in \<open>simp add: put_trie_def tasks_upd_task\<close>)
  then show ?thesis by (simp add: evolves_def put_trie_def)
qed

lemma put_trie_parent_trie [simp]:
  "parent (tasks s t) = Some p \<Longrightarrow> parent_trie t (put_trie p tr s) = Inr (p, tr)"
  by (auto simp: parent_trie_def put_trie_def tasks_upd_task)

lemma parent_trie_parent: "parent_trie t s = Inr (p, trie) \<Longrightarrow> parent (tasks s t) = Some p"
  by (auto simp: parent_trie_def split: option.splits)

text \<open>The first two calls of both loop bodies.\<close>

lemma touch_block:
  assumes "table_inv t s" and "0 \<le> j" and "j < trie_blocks"
  obtains p trie trie1 where "parent_trie t s = Inr (p, trie)"
    and "get_or_create_node trie j = Inr (table t s j, trie1)"
    and "trie_inv trie1" and "trie_view trie1 = table t s" and "row_ready trie1 j"
proof -
  obtain p trie where p: "parent_trie t s = Inr (p, trie)" "trie_inv trie"
    using assms(1) by (auto simp: table_inv_def)
  then have t: "table t s = trie_view trie" by (simp add: table_def fun_eq_iff)
  obtain trie1 where "get_or_create_node trie j = Inr (trie_view trie j, trie1)" "trie_inv trie1"
      "trie_view trie1 = trie_view trie" "row_ready trie1 j"
    using get_or_create_node_ok [OF p(2) assms(2,3)] by blast
  then show thesis using that [OF p(1)] t by simp
qed

section \<open>A block of an OUT argument\<close>

text \<open>The tasks a new writer of a block must wait for.\<close>

definition blockers :: "Metadata_element \<Rightarrow> nat set" where
  "blockers e = (if SCOOP_IS_OUTARG (m_type e) then {m_owner e} else set (list_items (readers e)))"

lemma deps_ok_pushes:
  assumes "deps_ok A k t s" and "pushes t s s'" and "last_ok t s'"
  shows "deps_ok A k t s' \<and> table t s' = table t s"
proof -
  have "parent_trie t s' = parent_trie t s" using assms(2) by (rule pushes_parent_trie)
  then show ?thesis using assms by (simp add: deps_ok_def pushes_def table_def table_inv_def fun_eq_iff)
qed

lemma deps_ok_put_trie:
  assumes "deps_ok A k t s" and "parent (tasks s t) = Some p" and "trie_inv trie"
    and "\<And>j m. trie_view trie j = Some m \<Longrightarrow> m < next_meta s"
  shows "deps_ok A k t (put_trie p trie s) \<and> table t (put_trie p trie s) = trie_view trie"
  using assms by (auto simp: deps_ok_def put_trie_frame table_def table_inv_def fun_eq_iff)

lemma out_block_ok:
  assumes "deps_ok A k t s" and "nm < next_meta s" and "0 \<le> j" and "j < trie_blocks"
  shows "\<exists>w' s'. out_block t nm j (w, s) = Inr (w', s') \<and> deps_ok A k t s'
    \<and> evolves t s s' \<and> metas s' = metas s \<and> next_meta s' = next_meta s
    \<and> table t s' = (table t s)(j \<mapsto> nm)
    \<and> w' + of_nat (total_waiting A t s) = w + of_nat (total_waiting A t s')
    \<and> (\<forall>m. table t s j = Some m \<longrightarrow> (\<forall>q \<in> blockers (metas s m). q = t \<or> awaits s' t q))"
proof -
  note ok = deps_okD [OF assms(1)]
  obtain p trie trie1 where b: "parent_trie t s = Inr (p, trie)"
      "get_or_create_node trie j = Inr (table t s j, trie1)"
      "trie_inv trie1" "trie_view trie1 = table t s" "row_ready trie1 j"
    using touch_block [OF ok(3) assms(3,4)] by blast
  obtain trie2 where c: "set_node trie1 j (Some nm) = Inr trie2" "trie_inv trie2"
      "trie_view trie2 = (table t s)(j \<mapsto> nm)"
    using set_node_ok [OF b(3) assms(3,4) b(5), of "Some nm"] b(4) by auto
  note par = parent_trie_parent [OF b(1)]
  let ?s = "put_trie p trie2 s"
  have s1: "deps_ok A k t ?s" "table t ?s = (table t s)(j \<mapsto> nm)"
  proof -
    have "m < next_meta s" if "trie_view trie2 i = Some m" for i m
      using that c(3) ok(5) assms(2) by (auto split: if_splits)
    from deps_ok_put_trie [OF assms(1) par c(2) this] c(3)
    show "deps_ok A k t ?s" "table t ?s = (table t s)(j \<mapsto> nm)" by auto
  qed
  have ev: "evolves t s ?s" using put_trie_evolves [OF par] .
  have fin: "deps_ok A k t s' \<and> evolves t s s' \<and> metas s' = metas s \<and> next_meta s' = next_meta s
      \<and> table t s' = (table t s)(j \<mapsto> nm)"
    if "pushes t ?s s'" and "last_ok t s'" for s'
    using deps_ok_pushes [OF s1(1) that] that(1) s1(2) evolves_trans [OF ev]
    by (auto simp: pushes_def put_trie_frame)
  show ?thesis
  proof (cases "table t s j")
    case None
    then show ?thesis using b c s1 ev
      by (auto simp: out_block_def put_trie_frame Let_def)
  next
    case (Some m)
    have e: "elem_ok A k (next_meta s) (metas s m)" using ok(5,6) Some by blast
    have l: "last_ok t ?s" using ok(4) by (simp add: put_trie_frame)
    show ?thesis
    proof (cases "SCOOP_IS_OUTARG (m_type (metas s m))")
      case True
      let ?q = "m_owner (metas s m)"
      obtain pushed s' where tw: "try_wait t ?q ?q ?s = (pushed, s')" by (metis surj_pair)
      have "?q = t \<or> awaits s' t ?q" using try_wait_awaits [OF tw l] by auto
      moreover have "total_waiting A t s' = total_waiting A t s + (if pushed then 1 else 0)"
        using try_wait_total [OF tw ok(1)] e by (simp add: elem_ok_def put_trie_frame)
      moreover note fin [OF try_wait_pushes [OF tw] try_wait_last_ok [OF tw l]]
      ultimately show ?thesis using b c Some True tw
        by (cases pushed) (auto simp: out_block_def put_trie_frame blockers_def algebra_simps)
    next
      case False
      let ?rs = "head (readers (metas s m))"
      have "task ` set ?rs \<subseteq> A" using e by (auto simp: elem_ok_def list_items_def)
      then obtain w' s' where wr: "efold (wait_step t) ?rs (w, ?s) = Inr (w', s')" "pushes t ?s s'"
          "last_ok t s'" "w' + of_nat (total_waiting A t ?s) = w + of_nat (total_waiting A t s')"
          "\<forall>r \<in> set ?rs. task r = t \<or> awaits s' t (task r)"
        using wait_readers [OF ok(1) _ l, of ?rs w] by blast
      have "out_block t nm j (w, s) = Inr (w', s')"
        using b c Some False wr(1)
        by (simp add: out_block_def put_trie_frame Let_def wait_step_def [abs_def])
      moreover have "q = t \<or> awaits s' t q" if "q \<in> blockers (metas s m)" for q
        using that False wr(5) by (auto simp: blockers_def list_items_def)
      ultimately show ?thesis using fin [OF wr(2,3)] wr(4) Some by (auto simp: put_trie_frame)
    qed
  qed
qed

lemma out_blocks_ok:
  assumes "deps_ok A k t s" and "nm < next_meta s" and "distinct js"
    and "\<And>j. j \<in> set js \<Longrightarrow> 0 \<le> j \<and> j < trie_blocks"
  shows "\<exists>w' s'. efold (out_block t nm) js (w, s) = Inr (w', s') \<and> deps_ok A k t s'
    \<and> evolves t s s' \<and> metas s' = metas s \<and> next_meta s' = next_meta s
    \<and> table t s' = (\<lambda>j. if j \<in> set js then Some nm else table t s j)
    \<and> w' + of_nat (total_waiting A t s) = w + of_nat (total_waiting A t s')
    \<and> (\<forall>j \<in> set js. \<forall>m. table t s j = Some m \<longrightarrow>
         (\<forall>q \<in> blockers (metas s m). q = t \<or> awaits s' t q))"
  using assms
proof (induction js arbitrary: w s)
  case Nil
  then show ?case by simp
next
  case (Cons j js)
  obtain w1 s1 where 1: "out_block t nm j (w, s) = Inr (w1, s1)" "deps_ok A k t s1" "evolves t s s1"
      "metas s1 = metas s" "next_meta s1 = next_meta s" "table t s1 = (table t s)(j \<mapsto> nm)"
      "w1 + of_nat (total_waiting A t s) = w + of_nat (total_waiting A t s1)"
      "\<forall>m. table t s j = Some m \<longrightarrow> (\<forall>q \<in> blockers (metas s m). q = t \<or> awaits s1 t q)"
    using out_block_ok [OF Cons.prems(1,2), of j w] Cons.prems(4) [of j] by auto
  obtain w' s' where 2: "efold (out_block t nm) js (w1, s1) = Inr (w', s')" "deps_ok A k t s'"
      "evolves t s1 s'" "metas s' = metas s1" "next_meta s' = next_meta s1"
      "table t s' = (\<lambda>j. if j \<in> set js then Some nm else table t s1 j)"
      "w' + of_nat (total_waiting A t s1) = w1 + of_nat (total_waiting A t s')"
      "\<forall>j \<in> set js. \<forall>m. table t s1 j = Some m \<longrightarrow>
         (\<forall>q \<in> blockers (metas s1 m). q = t \<or> awaits s' t q)"
    using Cons.IH [of s1 w1] 1(2,5) Cons.prems by auto
  have "\<forall>i \<in> set (j # js). \<forall>m. table t s i = Some m \<longrightarrow>
      (\<forall>q \<in> blockers (metas s m). q = t \<or> awaits s' t q)"
  proof (intro ballI allI impI)
    fix i m q
    assume i: "i \<in> set (j # js)" and m: "table t s i = Some m" and q: "q \<in> blockers (metas s m)"
    show "q = t \<or> awaits s' t q"
    proof (cases "i = j")
      case True
      then show ?thesis using 1(8) m q awaits_evolves [OF _ 2(3)] by blast
    next
      case False
      then show ?thesis using i m q 2(8) 1(4,6) by auto
    qed
  qed
  moreover have "w' + of_nat (total_waiting A t s) = w + of_nat (total_waiting A t s')"
    using 1(7) 2(7) by (rule count_trans)
  moreover have "table t s' = (\<lambda>i. if i \<in> set (j # js) then Some nm else table t s i)"
    using 1(6) 2(6) by (auto simp: fun_eq_iff)
  ultimately show ?case using 1 2 evolves_trans [OF 1(3) 2(3)] by auto
qed

section \<open>A block of an IN argument\<close>

lemma upd_meta_frame [simp]:
  "tasks (upd_meta m f s) = tasks s" "next_meta (upd_meta m f s) = next_meta s"
  "grid (upd_meta m f s) = grid s" "deleted (upd_meta m f s) = deleted s"
  "deps_state.more (upd_meta m f s) = deps_state.more s"
  "parent_trie u (upd_meta m f s) = parent_trie u s" "table u (upd_meta m f s) = table u s"
  "awaits (upd_meta m f s) u q = awaits s u q" "last_ok u (upd_meta m f s) = last_ok u s"
  "total_waiting A u (upd_meta m f s) = total_waiting A u s"
proof -
  show "parent_trie u (upd_meta m f s) = parent_trie u s"
    by (simp add: upd_meta_def parent_trie_def split: option.split)
  then show "table u (upd_meta m f s) = table u s" by (simp add: table_def fun_eq_iff)
qed (simp_all add: upd_meta_def awaits_def last_ok_def total_waiting_def)

lemma evolves_upd_meta: "evolves t s s' \<Longrightarrow> evolves t s (upd_meta m f s')"
  by (simp add: evolves_def)

lemma deps_ok_upd_meta:
  assumes "deps_ok A k t s" and "k \<le> k'" and "m < next_meta s \<Longrightarrow> elem_ok A k' (next_meta s) (f (metas s m))"
  shows "deps_ok A k' t (upd_meta m f s)"
proof -
  have "elem_ok A k' (next_meta s) (metas (upd_meta m f s) i)" if "i < next_meta s" for i
    using that assms elem_ok_mono [of A k "next_meta s" _ k' "next_meta s"] deps_okD(6) [OF assms(1)]
    by (auto simp: upd_meta_def)
  then show ?thesis using assms(1) by (auto simp: deps_ok_def table_inv_def)
qed

text \<open>Elements keep their type and owner; only \<open>t\<close> joins readers; only \<open>nm\<close> gets a dependence.\<close>

definition metas_evolve :: "nat \<Rightarrow> nat \<Rightarrow> 'z deps_state_scheme \<Rightarrow> 'z deps_state_scheme \<Rightarrow> bool" where
  "metas_evolve t nm s s' \<longleftrightarrow> (\<forall>m. m_type (metas s' m) = m_type (metas s m)
     \<and> m_owner (metas s' m) = m_owner (metas s m)
     \<and> (\<exists>n. list_items (readers (metas s' m)) = replicate n t @ list_items (readers (metas s m)))
     \<and> (m \<noteq> nm \<longrightarrow> dependent_metadata (metas s' m) = dependent_metadata (metas s m)))"

lemma metas_evolveD:
  assumes "metas_evolve t nm s s'"
  shows "m_type (metas s' m) = m_type (metas s m)" "m_owner (metas s' m) = m_owner (metas s m)"
    "set (list_items (readers (metas s m))) \<subseteq> set (list_items (readers (metas s' m)))"
    "set (list_items (readers (metas s' m))) \<subseteq> insert t (set (list_items (readers (metas s m))))"
    "m \<noteq> nm \<Longrightarrow> dependent_metadata (metas s' m) = dependent_metadata (metas s m)"
proof -
  obtain n where "list_items (readers (metas s' m)) = replicate n t @ list_items (readers (metas s m))"
    using assms unfolding metas_evolve_def by blast
  then have "set (list_items (readers (metas s' m)))
      = set (replicate n t) \<union> set (list_items (readers (metas s m)))" by simp
  then show "set (list_items (readers (metas s m))) \<subseteq> set (list_items (readers (metas s' m)))"
    "set (list_items (readers (metas s' m))) \<subseteq> insert t (set (list_items (readers (metas s m))))"
    by auto
qed (use assms in \<open>auto simp: metas_evolve_def\<close>)

lemma metas_evolve_same: "metas s' = metas s \<Longrightarrow> metas_evolve t nm s s'"
  unfolding metas_evolve_def by (auto intro!: exI [of _ 0])

lemma metas_evolve_trans:
  assumes "metas_evolve t nm s s1" and "metas_evolve t nm s1 s2"
  shows "metas_evolve t nm s s2"
  unfolding metas_evolve_def
proof (intro allI conjI)
  fix m
  obtain n1 n2 where "list_items (readers (metas s1 m)) = replicate n1 t @ list_items (readers (metas s m))"
    "list_items (readers (metas s2 m)) = replicate n2 t @ list_items (readers (metas s1 m))"
    using assms unfolding metas_evolve_def by blast
  then have "list_items (readers (metas s2 m)) = replicate (n2 + n1) t @ list_items (readers (metas s m))"
    by (simp add: replicate_add)
  then show "\<exists>n. list_items (readers (metas s2 m)) = replicate n t @ list_items (readers (metas s m))" ..
qed (use assms in \<open>auto simp: metas_evolve_def\<close>)

text \<open>The three outcomes for a block: nobody, a writer, readers.\<close>

definition in_done :: "nat \<Rightarrow> nat \<Rightarrow> int \<Rightarrow> 'z deps_state_scheme \<Rightarrow> 'z deps_state_scheme \<Rightarrow> bool" where
  "in_done t nm j s s' \<longleftrightarrow>
     (case table t s j of
        None \<Rightarrow> table t s' j = Some nm
      | Some m \<Rightarrow>
          if SCOOP_IS_OUTARG (m_type (metas s m)) then
            table t s' j = Some nm \<and> (m_owner (metas s m) = t \<or> awaits s' t (m_owner (metas s m)))
          else if status (tasks s (m_owner (metas s m))) \<le> EXECUTED_TASK then
            table t s' j = Some m \<and> t \<in> set (list_items (readers (metas s' m)))
            \<and> (\<forall>d. dependent_metadata (metas s m) = Some d \<longrightarrow>
                 m_owner (metas s m) = t \<or> awaits s' t (m_owner (metas s m))
                 \<or> awaits s' t (m_owner (metas s d)))
          else table t s' j = Some nm)"

definition in_result :: "nat set \<Rightarrow> nat \<Rightarrow> nat \<Rightarrow> nat \<Rightarrow> int \<Rightarrow> u32 \<Rightarrow> 'z deps_state_scheme \<Rightarrow>
    u32 \<Rightarrow> 'z deps_state_scheme \<Rightarrow> bool" where
  "in_result A k t nm j w s w' s' \<longleftrightarrow> deps_ok A (k + 1) t s' \<and> evolves t s s'
     \<and> next_meta s' = next_meta s \<and> metas_evolve t nm s s'
     \<and> w' + of_nat (total_waiting A t s) = w + of_nat (total_waiting A t s')
     \<and> (\<forall>i. i \<noteq> j \<longrightarrow> table t s' i = table t s i) \<and> in_done t nm j s s'"

text \<open>A wait after a frame step, the common end of the RAW and RAR cases.\<close>

lemma wait_after:
  assumes "deps_ok A k t s1" and "evolves t s s1" and "total_waiting A t s1 = total_waiting A t s"
    and "try_wait t c q s1 = (pushed, s')" and "q \<in> A"
  shows "deps_ok A k t s' \<and> evolves t s s' \<and> metas s' = metas s1 \<and> next_meta s' = next_meta s1
    \<and> table t s' = table t s1
    \<and> (if pushed then w + 1 else w) + of_nat (total_waiting A t s)
        = (w :: u32) + of_nat (total_waiting A t s')
    \<and> (t = c \<or> awaits s' t c \<or> awaits s' t q)"
proof -
  note ok = deps_okD [OF assms(1)]
  have p: "pushes t s1 s'" "last_ok t s'"
    using try_wait_pushes [OF assms(4)] try_wait_last_ok [OF assms(4) ok(4)] by blast+
  show ?thesis
    using deps_ok_pushes [OF assms(1) p] p(1) evolves_trans [OF assms(2)] assms(3)
      try_wait_total [OF assms(4) ok(1) assms(5)] try_wait_awaits [OF assms(4) ok(4)]
    by (auto simp: pushes_def algebra_simps)
qed

lemma in_block_ok:
  assumes "deps_ok A k t s" and "nm < next_meta s" and "0 \<le> j" and "j < trie_blocks" and "k < 2 ^ 32"
  shows "\<exists>w' s'. in_block t nm j (w, s) = Inr (w', s') \<and> in_result A k t nm j w s w' s'"
proof -
  note ok = deps_okD [OF assms(1)]
  obtain p trie trie1 where b: "parent_trie t s = Inr (p, trie)"
      "get_or_create_node trie j = Inr (table t s j, trie1)"
      "trie_inv trie1" "trie_view trie1 = table t s" "row_ready trie1 j"
    using touch_block [OF ok(3) assms(3,4)] by blast
  obtain trie2 where c: "set_node trie1 j (Some nm) = Inr trie2" "trie_inv trie2"
      "trie_view trie2 = (table t s)(j \<mapsto> nm)"
    using set_node_ok [OF b(3) assms(3,4) b(5), of "Some nm"] b(4) by auto
  note par = parent_trie_parent [OF b(1)]
  let ?s1 = "put_trie p trie1 s" and ?s2 = "put_trie p trie2 (put_trie p trie1 s)"
  have s1: "deps_ok A k t ?s1" "table t ?s1 = table t s"
    using deps_ok_put_trie [OF assms(1) par b(3)] b(4) ok(5) by auto
  have par1: "parent (tasks ?s1 t) = Some p" using par by (simp add: put_trie_frame)
  have s2: "deps_ok A k t ?s2" "table t ?s2 = (table t s)(j \<mapsto> nm)"
  proof -
    have "m < next_meta ?s1" if "trie_view trie2 i = Some m" for i m
      using that c(3) ok(5) assms(2) by (auto simp: put_trie_frame split: if_splits)
    from deps_ok_put_trie [OF s1(1) par1 c(2) this] c(3)
    show "deps_ok A k t ?s2" "table t ?s2 = (table t s)(j \<mapsto> nm)" by auto
  qed
  have ev1: "evolves t s ?s1" using put_trie_evolves [OF par] .
  have ev2: "evolves t s ?s2" using evolves_trans [OF ev1 put_trie_evolves [OF par1]] .
  have new: "in_result A k t nm j w s w ?s2"
    if "in_done t nm j s ?s2"
    using deps_ok_mono [OF s2(1), of "k + 1"] ev2 s2(2) that
    by (auto simp: in_result_def put_trie_frame intro!: metas_evolve_same)
  show ?thesis
  proof (cases "table t s j")
    case None
    then have "in_done t nm j s ?s2" using s2(2) by (simp add: in_done_def)
    with new None b c show ?thesis by (simp add: in_block_def Let_def put_trie_frame)
  next
    case (Some m)
    have e: "m < next_meta s" "elem_ok A k (next_meta s) (metas s m)" using ok(5,6) Some by blast+
    let ?q = "m_owner (metas s m)"
    have qA: "?q \<in> A" using e(2) by (simp add: elem_ok_def)
    consider (raw) "SCOOP_IS_OUTARG (m_type (metas s m))"
      | (rar) "\<not> SCOOP_IS_OUTARG (m_type (metas s m))" "status (tasks s ?q) \<le> EXECUTED_TASK"
      | (dead) "\<not> SCOOP_IS_OUTARG (m_type (metas s m))" "\<not> status (tasks s ?q) \<le> EXECUTED_TASK"
      by blast
    then show ?thesis
    proof cases
      case raw
      obtain pushed s' where tw: "try_wait t ?q ?q ?s2 = (pushed, s')" by (metis surj_pair)
      have "total_waiting A t ?s2 = total_waiting A t s" by (simp add: put_trie_frame)
      note wa = wait_after [OF s2(1) ev2 this tw qA, of w]
      let ?s' = "if pushed then upd_meta nm (\<lambda>e. e\<lparr>dependent_metadata := Some m\<rparr>) s' else s'"
      have "elem_ok A k (next_meta s') ((metas s' nm)\<lparr>dependent_metadata := Some m\<rparr>)"
        using wa deps_okD(6) [of A k t s' nm] assms(2) e(1)
        by (simp add: put_trie_frame elem_ok_def)
      then have "deps_ok A k t ?s'" using wa deps_ok_upd_meta [of A k t s' k] by (simp add: put_trie_frame)
      moreover have "metas_evolve t nm s ?s'"
        using wa by (auto simp: metas_evolve_def upd_meta_def put_trie_frame intro: exI [of _ 0])
      moreover have "in_done t nm j s ?s'" using wa s2(2) Some raw
        by (auto simp: in_done_def put_trie_frame)
      ultimately have "in_result A k t nm j w s (if pushed then w + 1 else w) ?s'"
        using wa s2(2) deps_ok_mono [of A k t _ "k + 1"] evolves_upd_meta
        by (auto simp: in_result_def put_trie_frame)
      moreover have "in_block t nm j (w, s) = Inr (if pushed then w + 1 else w, ?s')"
        using b c Some raw tw by (auto simp: in_block_def Let_def put_trie_frame)
      ultimately show ?thesis by blast
    next
      case rar
      let ?r = "\<lparr>task = t, task_id = 0\<rparr> # head (readers (metas s m))"
      let ?rs = "(readers (metas s m))\<lparr>head := ?r, total_entries := total_entries (readers (metas s m)) + 1\<rparr>"
      have ins: "insert_front t (readers (metas s m)) = Inr ?rs"
        using insert_front_ok [of "readers (metas s m)" t] e(2) assms(5) by (simp add: elem_ok_def)
      let ?s3 = "upd_meta m (\<lambda>e. e\<lparr>readers := ?rs\<rparr>) ?s1"
      have "elem_ok A (k + 1) (next_meta ?s1) ((metas ?s1 m)\<lparr>readers := ?rs\<rparr>)"
        using e(2) ok(2) by (auto simp: elem_ok_def put_trie_frame list_inv_def list_items_def)
      then have s3: "deps_ok A (k + 1) t ?s3" using deps_ok_upd_meta [OF s1(1), of "k + 1" m] by simp
      have ev3: "evolves t s ?s3" using evolves_upd_meta [OF ev1] .
      have m3: "m_type (metas ?s3 i) = m_type (metas s i)" "m_owner (metas ?s3 i) = m_owner (metas s i)"
          "dependent_metadata (metas ?s3 i) = dependent_metadata (metas s i)"
          "list_items (readers (metas ?s3 i)) = replicate (if i = m then 1 else 0) t @ list_items (readers (metas s i))"
        for i by (simp_all add: upd_meta_def put_trie_frame list_items_def)
      then have me: "metas_evolve t nm s s'" if "metas s' = metas ?s3" for s'
        using that unfolding metas_evolve_def by metis
      have din: "in_done t nm j s s'"
        if "table t s' = table t s" "metas s' = metas ?s3"
          "\<And>d. dependent_metadata (metas s m) = Some d \<Longrightarrow> t = ?q \<or> awaits s' t ?q \<or> awaits s' t (m_owner (metas s d))"
        for s'
        using that Some rar m3(4) [of m] by (auto simp: in_done_def)
      show ?thesis
      proof (cases "dependent_metadata (metas s m)")
        case None
        then have "in_block t nm j (w, s) = Inr (w, ?s3)"
          using b rar Some ins m3(3) [of m] by (simp add: in_block_def Let_def put_trie_frame)
        moreover have "in_result A k t nm j w s w ?s3"
          using s3 ev3 me [of ?s3] din [of ?s3] s1(2) None by (simp add: in_result_def put_trie_frame)
        ultimately show ?thesis by blast
      next
        case (Some d)
        let ?d = "m_owner (metas s d)"
        have "d < next_meta s" using e(2) Some by (simp add: elem_ok_def)
        then have dA: "?d \<in> A" using ok(6) by (simp add: elem_ok_def)
        obtain pushed s' where tw: "try_wait t ?q ?d ?s3 = (pushed, s')" by (metis surj_pair)
        have "total_waiting A t ?s3 = total_waiting A t s" by (simp add: put_trie_frame)
        note wa = wait_after [OF s3 ev3 this tw dA, of w]
        have "in_block t nm j (w, s) = Inr (if pushed then w + 1 else w, s')"
          using b rar \<open>table t s j = Some m\<close> ins tw m3 Some
          by (simp add: in_block_def Let_def put_trie_frame)
        moreover have "in_done t nm j s s'"
          by (rule din) (use wa s1(2) Some in auto)
        moreover have "in_result A k t nm j w s (if pushed then w + 1 else w) s'"
          using wa me [of s'] \<open>in_done t nm j s s'\<close> s1(2) by (simp add: in_result_def put_trie_frame)
        ultimately show ?thesis by blast
      qed
    next
      case dead
      then have "in_done t nm j s ?s2" using s2(2) Some by (simp add: in_done_def)
      moreover have "in_block t nm j (w, s) = Inr (w, ?s2)"
        using b c Some dead by (simp add: in_block_def Let_def put_trie_frame)
      ultimately show ?thesis using new by blast
    qed
  qed
qed

end
