(* ===== verification/Deps_Args.thy ===== *)
theory Deps_Args
  imports Deps_Blocks
begin

text \<open>
  From blocks to arguments to tasks: \<open>create_dependency\<close>, \<open>handle_argument\<close> and
  \<open>create_dependencies\<close> never fail on a well-formed table, count exactly the pushes that
  succeed, and leave no block of an argument without the waits it needs.
\<close>

section \<open>The blocks of an IN argument\<close>

lemma in_done_later:
  assumes "in_done t nm j s s1" and "evolves t s1 s'" and "metas_evolve t nm s1 s'"
    and "table t s' j = table t s1 j"
  shows "in_done t nm j s s'"
  using assms metas_evolveD(3) [OF assms(3)] awaits_evolves [OF _ assms(2)]
  by (auto simp: in_done_def split: option.splits if_splits)

lemma in_done_earlier:
  assumes "in_done t nm j s1 s'" and "evolves t s s1" and "metas_evolve t nm s s1"
    and "table t s1 j = table t s j" and "m_owner (metas s nm) = t"
  shows "in_done t nm j s s'"
proof (cases "table t s j")
  case None
  then show ?thesis using assms by (simp add: in_done_def)
next
  case (Some m)
  note m = metas_evolveD [OF assms(3)]
  have st: "status (tasks s1 q) = status (tasks s q)" for q using evolves_fields(2) [OF assms(2)] .
  have "dependent_metadata (metas s1 m) = dependent_metadata (metas s m) \<or> m_owner (metas s m) = t"
    using m(5) assms(5) by (cases "m = nm") auto
  then show ?thesis using assms(1,4) Some
    by (auto simp: in_done_def m(1,2) st split: if_splits)
qed

lemma in_blocks_ok:
  assumes "deps_ok A k t s" and "nm < next_meta s" and "m_owner (metas s nm) = t" and "distinct js"
    and "\<And>j. j \<in> set js \<Longrightarrow> 0 \<le> j \<and> j < trie_blocks" and "k + length js \<le> 2 ^ 32"
  shows "\<exists>w' s'. efold (in_block t nm) js (w, s) = Inr (w', s') \<and> deps_ok A (k + length js) t s'
    \<and> evolves t s s' \<and> next_meta s' = next_meta s \<and> metas_evolve t nm s s'
    \<and> w' + of_nat (total_waiting A t s) = w + of_nat (total_waiting A t s')
    \<and> (\<forall>i. i \<notin> set js \<longrightarrow> table t s' i = table t s i) \<and> (\<forall>j \<in> set js. in_done t nm j s s')"
  using assms
proof (induction js arbitrary: k w s)
  case Nil
  then show ?case by (simp add: metas_evolve_same)
next
  case (Cons j js)
  obtain w1 s1 where 1: "in_block t nm j (w, s) = Inr (w1, s1)" "in_result A k t nm j w s w1 s1"
    using in_block_ok [OF Cons.prems(1,2), of j w] Cons.prems(5) [of j] Cons.prems(6) by auto
  note r = 1(2) [unfolded in_result_def]
  have own: "m_owner (metas s1 nm) = t" using r metas_evolveD(2) [of t nm s s1 nm] Cons.prems(3) by auto
  obtain w' s' where 2: "efold (in_block t nm) js (w1, s1) = Inr (w', s')" "deps_ok A (k + 1 + length js) t s'"
      "evolves t s1 s'" "next_meta s' = next_meta s1" "metas_evolve t nm s1 s'"
      "w' + of_nat (total_waiting A t s1) = w1 + of_nat (total_waiting A t s')"
      "\<forall>i. i \<notin> set js \<longrightarrow> table t s' i = table t s1 i" "\<forall>j \<in> set js. in_done t nm j s1 s'"
    using Cons.IH [of "k + 1" s1 w1] r own Cons.prems by auto
  have "\<forall>i \<in> set (j # js). in_done t nm i s s'"
  proof
    fix i assume i: "i \<in> set (j # js)"
    show "in_done t nm i s s'"
    proof (cases "i = j")
      case True
      then show ?thesis using in_done_later [of t nm j s s1 s'] r 2 Cons.prems(4) by auto
    next
      case False
      then show ?thesis using i in_done_earlier [of t nm i s1 s' s] r 2(8) Cons.prems(3) by auto
    qed
  qed
  moreover have "w' + of_nat (total_waiting A t s) = w + of_nat (total_waiting A t s')"
    using r 2(6) count_trans by blast
  moreover have "\<forall>i. i \<notin> set (j # js) \<longrightarrow> table t s' i = table t s i" using r 2(7) by simp
  ultimately show ?case
    using 1 2 r evolves_trans [of t s s1 s'] metas_evolve_trans [of t nm s s1 s'] by auto
qed

section \<open>One argument\<close>

definition arg_range :: "u64 \<Rightarrow> tpc_task_argument \<Rightarrow> int list" where
  "arg_range g arg =
     arg_blocks g (if SCOOP_IS_OUTARG (arg_type arg) then addr_out arg else addr_in arg) (arg_size arg)"

lemma arg_blocks_range:
  "distinct (arg_blocks g a n)" "length (arg_blocks g a n) \<le> 2 ^ 19"
  "j \<in> set (arg_blocks g a n) \<Longrightarrow> 0 \<le> j \<and> j < trie_blocks"
  using GET_INDEX_bounds [of g a] GET_INDEX_bounds [of g "a + ucast n - 1"]
  by (auto simp: arg_blocks_def trie_blocks_def UP_BITS_def DOWN_BITS_def)

text \<open>What a block of the argument must satisfy afterwards.\<close>

definition arg_done :: "nat \<Rightarrow> tpc_task_argument \<Rightarrow> nat \<Rightarrow> int \<Rightarrow> 'z deps_state_scheme \<Rightarrow>
    'z deps_state_scheme \<Rightarrow> bool" where
  "arg_done t arg nm j s s' \<longleftrightarrow>
     (if SCOOP_IS_OUTARG (arg_type arg) then
        table t s' j = Some nm
        \<and> (\<forall>m. table t s j = Some m \<longrightarrow> (\<forall>q \<in> blockers (metas s m). q = t \<or> awaits s' t q))
      else in_done t nm j s s')"

text \<open>A reader list grows by at most the number of blocks, and one for the new element.\<close>

abbreviation blocks_cost :: nat where "blocks_cost \<equiv> 2 ^ 19 + 1"

definition dep_result :: "nat set \<Rightarrow> nat \<Rightarrow> nat \<Rightarrow> 'z deps_state_scheme \<Rightarrow> u32 \<Rightarrow> 'z deps_state_scheme \<Rightarrow> bool" where
  "dep_result A k t s w' s' \<longleftrightarrow> deps_ok A k t s' \<and> evolves t s s'
     \<and> w' + of_nat (total_waiting A t s) = of_nat (total_waiting A t s')"

lemma create_dependency_ok:
  assumes "deps_ok A k t s" and "nm < next_meta s" and "m_owner (metas s nm) = t"
    and "k + blocks_cost \<le> 2 ^ 32"
  shows "\<exists>w' s'. create_dependency t arg nm s = Inr (w', s') \<and> dep_result A (k + blocks_cost) t s w' s'
    \<and> next_meta s' = next_meta s \<and> metas_evolve t nm s s'
    \<and> (\<forall>i. i \<notin> set (arg_range (grid s) arg) \<longrightarrow> table t s' i = table t s i)
    \<and> (\<forall>j \<in> set (arg_range (grid s) arg). arg_done t arg nm j s s')"
proof (cases "SCOOP_IS_OUTARG (arg_type arg)")
  case True
  let ?js = "arg_blocks (grid s) (addr_out arg) (arg_size arg)"
  have r: "0 \<le> j \<and> j < trie_blocks" if "j \<in> set ?js" for j using arg_blocks_range(3) [OF that] .
  obtain w' s' where "efold (out_block t nm) ?js (0, s) = Inr (w', s')" and "deps_ok A k t s'"
    and "evolves t s s' \<and> metas s' = metas s \<and> next_meta s' = next_meta s
      \<and> table t s' = (\<lambda>j. if j \<in> set ?js then Some nm else table t s j)
      \<and> w' + of_nat (total_waiting A t s) = 0 + of_nat (total_waiting A t s')
      \<and> (\<forall>j \<in> set ?js. \<forall>m. table t s j = Some m \<longrightarrow>
           (\<forall>q \<in> blockers (metas s m). q = t \<or> awaits s' t q))"
    using out_blocks_ok [where js = ?js and w = 0, OF assms(1,2) arg_blocks_range(1) r] by blast
  moreover from this(2) have "deps_ok A (k + blocks_cost) t s'" by (rule deps_ok_mono) simp
  ultimately show ?thesis using True
    by (auto simp: create_dependency_def dep_result_def arg_range_def arg_done_def metas_evolve_same)
next
  case False
  let ?js = "arg_blocks (grid s) (addr_in arg) (arg_size arg)"
  have r: "0 \<le> j \<and> j < trie_blocks" if "j \<in> set ?js" for j using arg_blocks_range(3) [OF that] .
  let ?l = "readers (metas s nm)"
  let ?rs = "?l\<lparr>head := \<lparr>task = t, task_id = 0\<rparr> # head ?l, total_entries := total_entries ?l + 1\<rparr>"
  let ?s1 = "upd_meta nm (\<lambda>e. e\<lparr>readers := ?rs\<rparr>) s"
  have e: "elem_ok A k (next_meta s) (metas s nm)" using deps_okD(6) [OF assms(1,2)] .
  have ins: "insert_front t ?l = Inr ?rs"
    using insert_front_ok [of ?l t] e assms(4) by (simp add: elem_ok_def)
  have "elem_ok A (k + 1) (next_meta s) ((metas s nm)\<lparr>readers := ?rs\<rparr>)"
    using e deps_okD(2) [OF assms(1)] by (auto simp: elem_ok_def list_inv_def list_items_def)
  then have s1: "deps_ok A (k + 1) t ?s1" using deps_ok_upd_meta [OF assms(1), of "k + 1" nm] by simp
  have own: "m_owner (metas ?s1 nm) = t" using assms(3) by (simp add: upd_meta_def)
  have bound: "k + 1 + length ?js \<le> 2 ^ 32"
    using arg_blocks_range(2) [of "grid s" "addr_in arg" "arg_size arg"] assms(4) by simp
  obtain w' s' where 2: "efold (in_block t nm) ?js (0, ?s1) = Inr (w', s')" "deps_ok A (k + 1 + length ?js) t s'"
      "evolves t ?s1 s'" "next_meta s' = next_meta ?s1" "metas_evolve t nm ?s1 s'"
      "w' + of_nat (total_waiting A t ?s1) = 0 + of_nat (total_waiting A t s')"
      "\<forall>i. i \<notin> set ?js \<longrightarrow> table t s' i = table t ?s1 i" "\<forall>j \<in> set ?js. in_done t nm j ?s1 s'"
    using in_blocks_ok [where js = ?js and w = 0, OF s1 _ own arg_blocks_range(1) r bound] assms(2) by auto
  have me: "metas_evolve t nm s ?s1"
    by (auto simp: metas_evolve_def upd_meta_def list_items_def intro: exI [of _ 0] exI [of _ "Suc 0"])
  have ev: "evolves t s ?s1" by (simp add: evolves_upd_meta)
  have "in_done t nm j s s'" if "j \<in> set ?js" for j
    using in_done_earlier [OF _ ev me _ assms(3), of j s'] 2(8) that by simp
  moreover have "deps_ok A (k + blocks_cost) t s'"
    using 2(2) by (rule deps_ok_mono) (use arg_blocks_range(2) [of "grid s" "addr_in arg" "arg_size arg"] in simp)
  moreover have "create_dependency t arg nm s = Inr (w', s')"
    using False ins 2(1) by (simp add: create_dependency_def Let_def)
  ultimately show ?thesis
    using 2 False evolves_trans [OF ev 2(3)] metas_evolve_trans [OF me 2(5)]
    by (auto simp: dep_result_def arg_range_def arg_done_def)
qed

section \<open>Strides\<close>

lemma set_arg_frame:
  "to_notify (tasks (set_arg t i f s) q) = to_notify (tasks s q)"
  "metas (set_arg t i f s) = metas s" "next_meta (set_arg t i f s) = next_meta s"
  "parent_trie u (set_arg t i f s) = parent_trie u s" "table u (set_arg t i f s) = table u s"
  "total_waiting A u (set_arg t i f s) = total_waiting A u s" "last_ok u (set_arg t i f s) = last_ok u s"
proof -
  have f: "to_notify (tasks (set_arg t i f s) q) = to_notify (tasks s q)"
      "deps_last (tasks (set_arg t i f s) q) = deps_last (tasks s q)"
      "parent (tasks (set_arg t i f s) q) = parent (tasks s q)"
      "metadata (tasks (set_arg t i f s) q) = metadata (tasks s q)" for q
    by (simp_all add: set_arg_def tasks_upd_task)
  show "to_notify (tasks (set_arg t i f s) q) = to_notify (tasks s q)" by (rule f)
  show "parent_trie u (set_arg t i f s) = parent_trie u s"
    by (simp add: parent_trie_def f split: option.split)
  then show "table u (set_arg t i f s) = table u s" by (simp add: table_def fun_eq_iff)
  show "total_waiting A u (set_arg t i f s) = total_waiting A u s" "last_ok u (set_arg t i f s) = last_ok u s"
    by (simp_all add: total_waiting_def last_ok_def awaits_def f)
qed (simp_all add: set_arg_def)

lemma set_arg_evolves:
  assumes "\<And>a. arg_shape (f a) = arg_shape a"
  shows "evolves t s (set_arg t i f s)"
proof -
  have "map arg_shape ((args (tasks s t))[i := f (args (tasks s t) ! i)]) = map arg_shape (args (tasks s t))"
    using assms by (simp add: map_update list_update_id)
      (metis list_update_beyond list_update_id map_update not_less nth_map)
  then have "\<exists>n as dl tr'. tasks (set_arg t i f s) q = (tasks s q)\<lparr>to_notify := add_waits n t (to_notify (tasks s q)),
          args := as, deps_last := dl, metadata := tr'\<rparr>
        \<and> map arg_shape as = map arg_shape (args (tasks s q))
        \<and> (q \<noteq> t \<longrightarrow> as = args (tasks s q) \<and> dl = deps_last (tasks s q))
        \<and> (parent (tasks s t) \<noteq> Some q \<longrightarrow> tr' = metadata (tasks s q))" for q
    by (intro exI [of _ 0] exI [of _ "args (tasks (set_arg t i f s) q)"] exI [of _ "deps_last (tasks s q)"]
        exI [of _ "metadata (tasks s q)"])
      (auto simp: set_arg_def tasks_upd_task)
  then show ?thesis by (simp add: evolves_def set_arg_def)
qed

lemma deps_ok_set_arg: "deps_ok A k t s \<Longrightarrow> deps_ok A k t (set_arg t i f s)"
  by (simp add: deps_ok_def table_inv_def set_arg_frame)

definition stride_step :: "nat \<Rightarrow> nat \<Rightarrow> nat \<Rightarrow> (tpc_task_argument \<Rightarrow> tpc_task_argument) \<Rightarrow> nat \<Rightarrow>
    u32 \<times> 'z deps_state_scheme \<Rightarrow> (u32 \<times> 'z deps_state_scheme) res" where
  "stride_step t i nm f j = (\<lambda>(waitfor, s).
     ebind (create_dependency t (args (tasks s t) ! i) nm s) (\<lambda>(w, s). Inr (waitfor + w, set_arg t i f s)))"

lemma stride_loop:
  assumes "deps_ok A k t s" and "nm < next_meta s" and "m_owner (metas s nm) = t"
    and "k + length ns * blocks_cost \<le> 2 ^ 32" and "\<And>a. arg_shape (f a) = arg_shape a"
  shows "\<exists>w' s'. efold (stride_step t i nm f) ns (w, s) = Inr (w', s')
    \<and> deps_ok A (k + length ns * blocks_cost) t s' \<and> evolves t s s'
    \<and> w' + of_nat (total_waiting A t s) = w + of_nat (total_waiting A t s')"
  using assms(1-4)
proof (induction ns arbitrary: k w s)
  case Nil
  then show ?case by simp
next
  case (Cons n ns)
  have k: "k + blocks_cost \<le> 2 ^ 32" using Cons.prems(4) by simp
  obtain w1 s1 where 1: "create_dependency t (args (tasks s t) ! i) nm s = Inr (w1, s1)"
      "dep_result A (k + blocks_cost) t s w1 s1" "next_meta s1 = next_meta s" "metas_evolve t nm s s1"
    using create_dependency_ok [OF Cons.prems(1-3) k] by blast
  let ?s2 = "set_arg t i f s1"
  have d: "deps_ok A (k + blocks_cost) t ?s2"
    using 1(2) by (simp add: dep_result_def deps_ok_set_arg add.assoc)
  have nm: "nm < next_meta ?s2" "m_owner (metas ?s2 nm) = t"
    using 1(3,4) Cons.prems(2,3) metas_evolveD(2) by (auto simp: set_arg_frame)
  have k2: "k + blocks_cost + length ns * blocks_cost \<le> 2 ^ 32" using Cons.prems(4) by simp
  obtain w' s' where 2: "efold (stride_step t i nm f) ns (w + w1, ?s2) = Inr (w', s')"
      "deps_ok A (k + blocks_cost + length ns * blocks_cost) t s'" "evolves t ?s2 s'"
      "w' + of_nat (total_waiting A t ?s2) = (w + w1) + of_nat (total_waiting A t s')"
    using Cons.IH [OF d nm k2, of "w + w1"] by blast
  have "w1 + of_nat (total_waiting A t s) = of_nat (total_waiting A t ?s2)"
    using 1(2) by (simp add: dep_result_def set_arg_frame)
  then have "(w + w1) + of_nat (total_waiting A t s) = w + of_nat (total_waiting A t ?s2)"
    by (simp only: add.assoc)
  then have "w' + of_nat (total_waiting A t s) = w + of_nat (total_waiting A t s')"
    using 2(4) by (rule count_trans)
  moreover have "evolves t s s'"
    using 1(2) evolves_trans [OF _ evolves_trans [OF set_arg_evolves [OF assms(5)] 2(3)]]
    by (simp add: dep_result_def)
  moreover have "efold (stride_step t i nm f) (n # ns) (w, s) = Inr (w', s')"
    using 1(1) 2(1) by (simp add: stride_step_def)
  ultimately show ?case using 2(2) by (auto simp: add.assoc)
qed

section \<open>Any argument\<close>

definition arg_cost :: "tpc_task_argument \<Rightarrow> nat" where
  "arg_cost a = (if SCOOP_IS_STRIDEARG (arg_type a) then unat (element_num a) else 1) * blocks_cost"

lemma new_element_frame:
  assumes "new_element type t s = (m, s')"
  shows "m = next_meta s" "next_meta s' = next_meta s + 1" "tasks s' = tasks s"
    "evolves t s s'" "table u s' = table u s" "total_waiting A u s' = total_waiting A u s"
    "metas s' m = \<lparr>m_type = type, readers = init_List, m_owner = t, dependent_metadata = None\<rparr>"
    "deps_ok A k t s \<Longrightarrow> deps_ok A k t s'"
proof -
  have s': "s' = s\<lparr>next_meta := next_meta s + 1, metas := (metas s)(next_meta s :=
      \<lparr>m_type = type, readers = init_List, m_owner = t, dependent_metadata = None\<rparr>)\<rparr>" "m = next_meta s"
    using assms by (auto simp: new_element_def Let_def)
  have p: "parent_trie u s' = parent_trie u s" for u
    by (simp add: s' parent_trie_def split: option.split)
  then show tab: "table u s' = table u s" for u by (simp add: table_def fun_eq_iff)
  show "m = next_meta s" "next_meta s' = next_meta s + 1" "tasks s' = tasks s"
    "total_waiting A u s' = total_waiting A u s"
    "metas s' m = \<lparr>m_type = type, readers = init_List, m_owner = t, dependent_metadata = None\<rparr>"
    by (simp_all add: s' total_waiting_def)
  show "evolves t s s'" using evolves_refl [of t s] unfolding evolves_def s' by simp
  assume d: "deps_ok A k t s"
  have "elem_ok A k (next_meta s') (metas s' i)" if "i < next_meta s'" for i
  proof (cases "i = next_meta s")
    case True
    then show ?thesis using deps_okD(2) [OF d]
      by (simp add: s' elem_ok_def list_inv_def list_items_def init_List_def)
  next
    case False
    then show ?thesis using that deps_okD(6) [OF d, of i] elem_ok_mono by (fastforce simp: s')
  qed
  moreover have "i < next_meta s'" if "table t s' j = Some i" for i j
    using that tab deps_okD(5) [OF d] by (simp add: s' less_SucI)
  moreover have "last_ok t s'" using deps_okD(4) [OF d] by (simp add: s' last_ok_def awaits_def)
  moreover have "table_inv t s'" using deps_okD(3) [OF d] p by (simp add: table_inv_def)
  ultimately show "deps_ok A k t s'" using d by (simp add: deps_ok_def)
qed

lemma handle_argument_ok:
  assumes "deps_ok A k t s" and "k + arg_cost (args (tasks s t) ! i) \<le> 2 ^ 32"
  shows "\<exists>w' s'. handle_argument i t s = Inr (w', s')
    \<and> dep_result A (k + arg_cost (args (tasks s t) ! i)) t s w' s'"
proof (cases "SCOOP_IS_SAFEARG (arg_type (args (tasks s t) ! i))")
  case True
  then show ?thesis using deps_ok_mono [OF assms(1)]
    by (simp add: handle_argument_def dep_result_def Let_def)
next
  case False
  let ?arg = "args (tasks s t) ! i"
  obtain nm s1 where ne: "new_element (arg_type ?arg) t s = (nm, s1)" by (metis surj_pair)
  note n = new_element_frame [OF ne]
  have d: "deps_ok A k t s1" "nm < next_meta s1" "m_owner (metas s1 nm) = t"
    using n(8) [OF assms(1)] n(1,2,7) by simp_all
  have up: "dep_result A k' t s w' s'" if "deps_ok A k' t s'" "evolves t s1 s'"
      "w' + of_nat (total_waiting A t s1) = of_nat (total_waiting A t s')" for k' w' s'
    using that n(6) evolves_trans [OF n(4)] by (simp add: dep_result_def)
  show ?thesis
  proof (cases "SCOOP_IS_STRIDEARG (arg_type ?arg)")
    case stride: False
    then have "k + blocks_cost \<le> 2 ^ 32" "arg_cost ?arg = 2 ^ 19 + 1"
      using assms(2) by (simp_all add: arg_cost_def)
    then show ?thesis using create_dependency_ok [OF d, of ?arg] up False stride ne
      by (auto simp: handle_argument_def dep_result_def Let_def add.assoc)
  next
    case stride: True
    have loop: "\<exists>w' s'. efold (stride_step t i nm f) [0..<unat (element_num ?arg)] (0, s1) = Inr (w', s')
        \<and> dep_result A (k + arg_cost ?arg) t s w' (set_arg t i g s')"
      if fg: "\<And>a. arg_shape (f a) = arg_shape a" "\<And>a. arg_shape (g a) = arg_shape a" for f g
    proof -
      have "k + length [0..<unat (element_num ?arg)] * blocks_cost \<le> 2 ^ 32"
        using assms(2) stride by (simp add: arg_cost_def)
      from stride_loop [OF d this fg(1), of i 0] obtain w' s' where
        "efold (stride_step t i nm f) [0..<unat (element_num ?arg)] (0, s1) = Inr (w', s')"
        "deps_ok A (k + arg_cost ?arg) t s'" "evolves t s1 s'"
        "w' + of_nat (total_waiting A t s1) = of_nat (total_waiting A t s')"
        using stride by (auto simp: arg_cost_def)
      moreover from this have "dep_result A (k + arg_cost ?arg) t s w' (set_arg t i g s')"
        by (intro up deps_ok_set_arg evolves_trans [OF _ set_arg_evolves [OF fg(2)]])
          (simp_all add: set_arg_frame)
      ultimately show ?thesis by blast
    qed
    show ?thesis
    proof (cases "SCOOP_IS_OUTARG (arg_type ?arg)")
      case True
      from loop [of "\<lambda>a. a\<lparr>addr_out := addr_out a + ucast (tpc_task_argument.stride a)\<rparr>"
          "\<lambda>a. a\<lparr>addr_out := addr_in ?arg\<rparr>"]
      show ?thesis using True False stride ne
        by (auto simp: handle_argument_def Let_def arg_shape_def stride_step_def [abs_def])
    next
      case out: False
      from loop [of "\<lambda>a. a\<lparr>addr_in := addr_in a + ucast (tpc_task_argument.stride a)\<rparr>"
          "\<lambda>a. a\<lparr>addr_in := addr_in ?arg\<rparr>"]
      show ?thesis using out False stride ne
        by (auto simp: handle_argument_def Let_def arg_shape_def stride_step_def [abs_def])
    qed
  qed
qed

section \<open>All arguments\<close>

lemma arg_cost_shape: "arg_shape a = arg_shape b \<Longrightarrow> arg_cost a = arg_cost b"
  by (simp add: arg_shape_def arg_cost_def)

definition arg_step :: "nat \<Rightarrow> nat \<Rightarrow> u32 \<times> 'z deps_state_scheme \<Rightarrow> (u32 \<times> 'z deps_state_scheme) res" where
  "arg_step t i = (\<lambda>(waitfor, s). ebind (handle_argument i t s) (\<lambda>(w, s). Inr (waitfor + w, s)))"

lemma arg_step_pair:
  "arg_step t i (w, s) = ebind (handle_argument i t s) (\<lambda>(w', s). Inr (w + w', s))"
  by (simp add: arg_step_def)

lemma evolves_arg_cost:
  assumes "evolves t s s'" and "i < length (args (tasks s t))"
  shows "arg_cost (args (tasks s' t) ! i) = arg_cost (args (tasks s t) ! i)"
proof -
  have e: "map arg_shape (args (tasks s' t)) = map arg_shape (args (tasks s t))"
    using evolves_fields(5) [OF assms(1)] .
  then have "length (args (tasks s' t)) = length (args (tasks s t))" by (rule map_eq_imp_length_eq)
  then have "arg_shape (args (tasks s' t) ! i) = arg_shape (args (tasks s t) ! i)"
    using e assms(2) by (metis nth_map)
  then show ?thesis by (rule arg_cost_shape)
qed

lemma arg_steps_ok:
  assumes "deps_ok A k t s" and "\<And>i. i \<in> set is \<Longrightarrow> i < length (args (tasks s t))"
    and "k + sum_list (map (\<lambda>i. arg_cost (args (tasks s t) ! i)) is) \<le> 2 ^ 32"
  shows "\<exists>w' s'. efold (arg_step t) is (w, s) = Inr (w', s') \<and> evolves t s s'
    \<and> deps_ok A (k + sum_list (map (\<lambda>i. arg_cost (args (tasks s t) ! i)) is)) t s'
    \<and> w' + of_nat (total_waiting A t s) = w + of_nat (total_waiting A t s')"
  using assms
proof (induction "is" arbitrary: k w s)
  case Nil
  then show ?case by simp
next
  case (Cons i "is")
  let ?c = "\<lambda>s i. arg_cost (args (tasks s t) ! i)"
  have "k + ?c s i \<le> 2 ^ 32" using Cons.prems(3) by simp
  then obtain w1 s1 where 1: "handle_argument i t s = Inr (w1, s1)" "dep_result A (k + ?c s i) t s w1 s1"
    using handle_argument_ok [OF Cons.prems(1)] by blast
  have ev: "evolves t s s1" "deps_ok A (k + ?c s i) t s1" using 1(2) by (auto simp: dep_result_def)
  have c: "map (?c s1) is = map (?c s) is" using evolves_arg_cost [OF ev(1)] Cons.prems(2) by simp
  have len: "length (args (tasks s1 t)) = length (args (tasks s t))"
    using evolves_fields(5) [OF ev(1)] by (rule map_eq_imp_length_eq)
  have in1: "j < length (args (tasks s1 t))" if "j \<in> set is" for j using that Cons.prems(2) len by simp
  have k1: "k + ?c s i + sum_list (map (?c s1) is) \<le> 2 ^ 32"
    using Cons.prems(3) by (simp only: c list.map sum_list.Cons add.assoc)
  obtain w' s' where 2: "efold (arg_step t) is (w + w1, s1) = Inr (w', s')" "evolves t s1 s'"
      "deps_ok A (k + ?c s i + sum_list (map (?c s1) is)) t s'"
      "w' + of_nat (total_waiting A t s1) = (w + w1) + of_nat (total_waiting A t s')"
    using Cons.IH [OF ev(2) in1 k1, of "w + w1"] by blast
  have "(w + w1) + of_nat (total_waiting A t s) = w + of_nat (total_waiting A t s1)"
    using 1(2) by (simp add: dep_result_def add.assoc)
  then have "w' + of_nat (total_waiting A t s) = w + of_nat (total_waiting A t s')"
    using 2(4) by (rule count_trans)
  then show ?case
    using 1(1) 2(1) evolves_trans [OF ev(1) 2(2)] 2(3) unfolding c
    by (auto simp: arg_step_pair add.assoc)
qed

definition total_cost :: "nat \<Rightarrow> 'z deps_state_scheme \<Rightarrow> nat" where
  "total_cost t s = sum_list (map arg_cost (args (tasks s t)))"

lemma total_cost_alt:
  "total_cost t s = sum_list (map (\<lambda>i. arg_cost (args (tasks s t) ! i)) [0..<length (args (tasks s t))])"
proof -
  have "map (\<lambda>i. arg_cost (as ! i)) [0..<length as] = map arg_cost as" for as
    by (rule nth_equalityI) simp_all
  then show ?thesis by (simp add: total_cost_def)
qed

lemma create_dependencies_steps:
  "create_dependencies sched t s =
     ebind (efold (arg_step t) [0..<length (args (tasks s t))] (0, s)) (\<lambda>(w, s).
       if w = 0 then sched t (upd_task t (\<lambda>d. d\<lparr>status := CREATED_TASK\<rparr>) s)
       else Inr (upd_task t (\<lambda>d. d\<lparr>waitfor := w, status := CREATED_TASK\<rparr>) s))"
  by (simp add: create_dependencies_def arg_step_def [abs_def])

section \<open>A concrete table\<close>

text \<open>
  One executing parent, task 0, whose children are numbered from 1 and have the arguments
  \<open>as i\<close>; nothing has been analysed yet.
\<close>

definition plain_task :: "tpc_task_argument list \<Rightarrow> tpc_task_descriptor" where
  "plain_task as = \<lparr>args = as, number_of_children = 0, status = CREATING_TASK, parent = Some 0,
     waitfor = 0, fired = 0, task_region = 0, to_notify = NOpen [], metadata = None, deps_last = None\<rparr>"

definition one_parent :: "(nat \<Rightarrow> tpc_task_argument list) \<Rightarrow> deps_state" where
  "one_parent as = \<lparr>tasks = (\<lambda>i. plain_task (as i))(0 := (plain_task [])\<lparr>parent := None,
       status := SCHEDULED_TASK, metadata := Some new_trie\<rparr>),
     metas = (\<lambda>_. \<lparr>m_type = 0, readers = init_List, m_owner = 0, dependent_metadata = None\<rparr>),
     next_meta = 0, grid = 4096, deleted = []\<rparr>"

text \<open>An argument of 64 bytes at the start of block \<open>b\<close> of the grid.\<close>

definition block_arg :: "u64 \<Rightarrow> u32 \<Rightarrow> tpc_task_argument" where
  "block_arg b type = \<lparr>addr_in = 4096 + 2048 * b, addr_out = 4096 + 2048 * b, arg_type = type,
     arg_size = 64, stride = 0, element_num = 0\<rparr>"

lemma one_parent_ok:
  assumes "t \<noteq> 0"
  shows "deps_ok {t} 0 t (one_parent as)" "total_waiting {t} t (one_parent as) = 0"
    "table t (one_parent as) j = None" "grid (one_parent as) = 4096" "args (tasks (one_parent as) t) = as t"
proof -
  have p: "parent_trie t (one_parent as) = Inr (0, new_trie)"
    using assms by (simp add: parent_trie_def one_parent_def plain_task_def)
  then show n: "table t (one_parent as) j = None" for j by (simp add: table_def new_trie_view)
  have "table_inv t (one_parent as)" using p new_trie_inv by (auto simp: table_inv_def)
  moreover have "next_meta (one_parent as) = 0" "last_ok t (one_parent as)"
    using assms by (simp_all add: one_parent_def last_ok_def plain_task_def)
  ultimately show "deps_ok {t} 0 t (one_parent as)" using n by (simp add: deps_ok_def)
  show "total_waiting {t} t (one_parent as) = 0"
    using assms by (simp add: total_waiting_def one_parent_def plain_task_def)
  show "grid (one_parent as) = 4096" "args (tasks (one_parent as) t) = as t"
    using assms by (simp_all add: one_parent_def plain_task_def)
qed

lemma new_element_one_parent:
  assumes "t \<noteq> 0" and "new_element type t (one_parent as) = (nm, s)"
  shows "deps_ok {t} 0 t s" "nm < next_meta s" "m_owner (metas s nm) = t" "grid s = 4096"
    "table t s j = None"
proof -
  note n = new_element_frame [OF assms(2)]
  show "deps_ok {t} 0 t s" by (rule n(8)) (rule one_parent_ok [OF assms(1)])
  show "grid s = 4096" using evolves_fields(10) [OF n(4)] one_parent_ok(4) [OF assms(1)] by simp
  show "table t s j = None" using n(5) [of t] one_parent_ok(3) [OF assms(1)] by simp
  show "nm < next_meta s" "m_owner (metas s nm) = t" using n(1,2,7) by simp_all
qed

lemma block_arg_range: "arg_range 4096 (block_arg 1 type) = [1]"
  by (simp add: arg_range_def arg_blocks_def block_arg_def GET_INDEX_def GRID_SZ_def BLOCK_SZ_def)

section \<open>Properties\<close>

text \<open>
  C10: the analysis of an OUT or INOUT argument never fails on a well-formed table; afterwards the
  new metadata element is entered for exactly the blocks of the argument, the result is the number
  of pushes that succeeded, and for each block the task waits for the previous writer, or for every
  reader since, unless that task is the task itself or has already locked its stack.
\<close>

theorem out_argument_complete:
  assumes "deps_ok A k t s" and "nm < next_meta s" and "m_owner (metas s nm) = t"
    and "k + (2 ^ 19 + 1) \<le> 2 ^ 32" and "SCOOP_IS_OUTARG (arg_type arg)"
  shows "\<exists>w' s'. create_dependency t arg nm s = Inr (w', s')
    \<and> w' + of_nat (total_waiting A t s) = of_nat (total_waiting A t s')
    \<and> (\<forall>j. table t s' j = (if j \<in> set (arg_range (grid s) arg) then Some nm else table t s j))
    \<and> (\<forall>j \<in> set (arg_range (grid s) arg). \<forall>m. table t s j = Some m \<longrightarrow>
         (\<forall>q \<in> blockers (metas s m). q = t \<or> awaits s' t q))"
  using create_dependency_ok [OF assms(1-4), of arg] assms(5)
  unfolding arg_done_def dep_result_def by fastforce

theorem out_argument_complete_witness:
  "\<exists>nm s w' s'. new_element 2 1 (one_parent (\<lambda>_. [])) = (nm, s)
    \<and> create_dependency 1 (block_arg 1 2) nm s = Inr (w', s')
    \<and> table 1 s' 1 = Some nm \<and> table 1 s' 0 = None"
proof -
  obtain nm s where ne: "new_element 2 1 (one_parent (\<lambda>_. [])) = (nm, s)" by (metis surj_pair)
  note n = new_element_one_parent [OF one_neq_zero ne]
  have "SCOOP_IS_OUTARG (arg_type (block_arg 1 2))"
    by (simp add: block_arg_def SCOOP_IS_OUTARG_def SCOOP_OUT_ARG_def)
  from out_argument_complete [OF n(1-3) _ this] show ?thesis
    using ne n(4,5) by (auto simp: block_arg_range)
qed



text \<open>
  C9: creating a task that waits nowhere yet never fails, and its \<open>waitfor\<close> counter is exactly
  the number of notifications it will get: the task is handed to the scheduler at once when the
  analysis pushed it onto no stack, and is otherwise left as created with that number.
\<close>

theorem create_dependencies_counts:
  assumes "deps_ok A k t s" and "k + total_cost t s \<le> 2 ^ 32" and "total_waiting A t s = 0"
  shows "\<exists>s'. evolves t s s' \<and> deps_ok A (k + total_cost t s) t s' \<and>
    create_dependencies sched t s =
      (if (of_nat (total_waiting A t s') :: u32) = 0
       then sched t (upd_task t (\<lambda>d. d\<lparr>status := CREATED_TASK\<rparr>) s')
       else Inr (upd_task t (\<lambda>d. d\<lparr>waitfor := of_nat (total_waiting A t s'), status := CREATED_TASK\<rparr>) s'))"
proof -
  obtain w' s' where "efold (arg_step t) [0..<length (args (tasks s t))] (0, s) = Inr (w', s')"
      "evolves t s s'" "deps_ok A (k + total_cost t s) t s'"
      "w' + of_nat (total_waiting A t s) = 0 + of_nat (total_waiting A t s')"
    using arg_steps_ok [OF assms(1), of "[0..<length (args (tasks s t))]" 0] assms(2)
    unfolding total_cost_alt by auto
  moreover from this(4) assms(3) have "w' = of_nat (total_waiting A t s')" by simp
  ultimately show ?thesis by (intro exI [of _ s']) (simp add: create_dependencies_steps)
qed

theorem create_dependencies_counts_witness:
  "\<exists>s'. evolves 1 (one_parent (\<lambda>_. [block_arg 1 2, block_arg 5 1])) s'
    \<and> create_dependencies (\<lambda>t s. Inr s) 1 (one_parent (\<lambda>_. [block_arg 1 2, block_arg 5 1]))
        = (if (of_nat (total_waiting {1} 1 s') :: u32) = 0
           then Inr (upd_task 1 (\<lambda>d. d\<lparr>status := CREATED_TASK\<rparr>) s')
           else Inr (upd_task 1 (\<lambda>d. d\<lparr>waitfor := of_nat (total_waiting {1} 1 s'), status := CREATED_TASK\<rparr>) s'))"
proof -
  let ?s = "one_parent (\<lambda>_. [block_arg 1 2, block_arg 5 1])"
  have "0 + total_cost 1 ?s \<le> 2 ^ 32"
    using one_parent_ok(5) [of 1] by (simp add: total_cost_def arg_cost_def block_arg_def
        SCOOP_IS_STRIDEARG_def SCOOP_STRIDE_ARG_def)
  from create_dependencies_counts [OF one_parent_ok(1) this one_parent_ok(2), of "\<lambda>t s. Inr s"]
  show ?thesis by fastforce
qed

end
