(* ===== verification/Deps_Gaps.thy ===== *)
theory Deps_Gaps
  imports Deps_Args
begin

text \<open>
  Where the dependence analysis does less than it should: concrete programs in which a task is
  scheduled before, or without waiting for, a task whose data it touches, and two slips in the
  treatment of argument flags and strides.
\<close>

section \<open>Running small programs\<close>

text \<open>A scheduler that notes in \<open>deleted\<close> which tasks it was given.\<close>

definition note_ready :: "nat \<Rightarrow> deps_state \<Rightarrow> deps_state res" where
  "note_ready t s = Inr (s\<lparr>deleted := deleted s @ [t]\<rparr>)"

definition create_all :: "nat list \<Rightarrow> deps_state \<Rightarrow> deps_state res" where
  "create_all ts s = efold (create_dependencies note_ready) ts s"

text \<open>Task \<open>t\<close> has been executed and released; nobody was waiting for it.\<close>

definition complete :: "nat \<Rightarrow> deps_state \<Rightarrow> deps_state" where
  "complete t s = upd_task t (\<lambda>d. d\<lparr>status := COMPLETE_TASK, to_notify := NLocked\<rparr>) s"

lemmas evaluate = create_all_def create_dependencies_def handle_argument_def create_dependency_def
  out_block_def in_block_def new_element_def arg_blocks_def parent_trie_def put_trie_def upd_task_def
  upd_meta_def try_wait_def Let_def SCOOP_IS_OUTARG_def SCOOP_IS_SAFEARG_def SCOOP_IS_STRIDEARG_def
  SCOOP_OUT_ARG_def SCOOP_SAFE_ARG_def SCOOP_STRIDE_ARG_def get_or_create_node_def set_node_def levels
  c_index_def c_store_def insert_front_def isEmpty_List_def init_List_def block_arg_def plain_task_def
  GET_INDEX_def GRID_SZ_def BLOCK_SZ_def DOWN_BITS_def UP_BITS_def less_eq_task_status_def new_trie_def
  push_bit_eq_mult note_ready_def one_parent_def complete_def

text \<open>The programs: a task number gives the arguments of the task.\<close>

definition raw_program :: "nat \<Rightarrow> tpc_task_argument list" where
  "raw_program = (\<lambda>_. [])(1 := [block_arg 1 SCOOP_OUT_ARG, block_arg 2 SCOOP_OUT_ARG],
     2 := [block_arg 1 SCOOP_IN_ARG, block_arg 2 SCOOP_IN_ARG], 3 := [block_arg 2 SCOOP_IN_ARG])"

definition wide_program :: "nat \<Rightarrow> tpc_task_argument list" where
  "wide_program = (\<lambda>_. [])(1 := [block_arg 2 SCOOP_OUT_ARG], 2 := [block_arg 3 SCOOP_OUT_ARG],
     3 := [(block_arg 2 SCOOP_IN_ARG)\<lparr>arg_size := 4096\<rparr>], 4 := [block_arg 2 SCOOP_IN_ARG])"

definition war_program :: "nat \<Rightarrow> tpc_task_argument list" where
  "war_program = (\<lambda>_. [block_arg 1 SCOOP_IN_ARG])(4 := [block_arg 1 SCOOP_OUT_ARG])"

section \<open>Properties\<close>


text \<open>
  The record that readers depend on a writer has room for one writer.  Tasks 1 and 2 write
  blocks 2 and 3; task 3 reads both with one argument and waits for both; task 4, which reads block
  2, finds the record of the writer of block 3 and waits for task 2 instead of task 1.
\<close>

lemma raw_dependence_overwritten:
  "\<exists>s. create_all [1, 2, 3, 4] (one_parent wide_program) = Inr s
     \<and> awaits s 3 1 \<and> awaits s 3 2 \<and> awaits s 4 2 \<and> \<not> awaits s 4 1"
  by (simp add: evaluate wide_program_def SCOOP_IN_ARG_def awaits_def)


text \<open>
  After the analysis of a strided OUT argument its output address is its input address: the
  loop saves the wrong pointer.
\<close>

lemma stride_out_address:
  assumes "handle_argument i t s = Inr (w, s')" and "deps_ok A k t s" and "i < length (args (tasks s t))"
    and "k + arg_cost (args (tasks s t) ! i) \<le> 2 ^ 32"
    and "SCOOP_IS_STRIDEARG (arg_type (args (tasks s t) ! i))"
    and "SCOOP_IS_OUTARG (arg_type (args (tasks s t) ! i))"
    and "\<not> SCOOP_IS_SAFEARG (arg_type (args (tasks s t) ! i))"
  shows "addr_out (args (tasks s' t) ! i) = addr_in (args (tasks s t) ! i)"
proof -
  obtain nm s1 where ne: "new_element (arg_type (args (tasks s t) ! i)) t s = (nm, s1)"
    by (metis surj_pair)
  obtain s2 where s': "s' = set_arg t i (\<lambda>a. a\<lparr>addr_out := addr_in (args (tasks s t) ! i)\<rparr>) s2"
    using assms(1,5-7) ne by (auto simp: handle_argument_def Let_def fault_simps)
  have "evolves t s s'"
    using handle_argument_ok [OF assms(2,4)] assms(1) by (auto simp: dep_result_def)
  then have "length (args (tasks s' t)) = length (args (tasks s t))"
    using evolves_fields(5) map_eq_imp_length_eq by blast
  then have "i < length (args (tasks s2 t))" using assms(3) s' by (simp add: set_arg_def tasks_upd_task)
  then show ?thesis by (simp add: s' set_arg_def tasks_upd_task)
qed

text \<open>
  The flags overlap.  An argument marked \<open>SCOOP_HIGHPRIORITY_ARG\<close> counts as a strided one, so
  an ordinary IN or OUT argument with that mark (and no stride elements) is not analysed at all: no
  wait and no entry in the table; and \<open>SCOOP_REGION_ARG\<close> makes every argument a strided output.
\<close>

lemma priority_argument_ignored:
  assumes "args (tasks s t) ! i = a" and "element_num a = 0"
    and "arg_type a \<in> {SCOOP_IN_ARG OR SCOOP_HIGHPRIORITY_ARG, SCOOP_OUT_ARG OR SCOOP_HIGHPRIORITY_ARG}"
  shows "\<exists>s'. handle_argument i t s = Inr (0, s') \<and> table t s' = table t s
    \<and> (\<forall>u q. awaits s' u q \<longleftrightarrow> awaits s u q)
    \<and> SCOOP_IS_OUTARG SCOOP_REGION_ARG \<and> SCOOP_IS_STRIDEARG SCOOP_REGION_ARG"
proof -
  obtain nm s1 where ne: "new_element (arg_type a) t s = (nm, s1)" by (metis surj_pair)
  note n = new_element_frame [OF ne]
  have ty: "SCOOP_IS_STRIDEARG (arg_type a)" "\<not> SCOOP_IS_SAFEARG (arg_type a)"
    using assms(3) by (auto simp: SCOOP_IS_SAFEARG_def SCOOP_IS_STRIDEARG_def SCOOP_IN_ARG_def
        SCOOP_OUT_ARG_def SCOOP_SAFE_ARG_def SCOOP_STRIDE_ARG_def SCOOP_HIGHPRIORITY_ARG_def)
  have frame: "table t (set_arg t i f s1) = table t s"
      "awaits (set_arg t i f s1) u q \<longleftrightarrow> awaits s u q" for f u q
    using n(3) n(5) [of t] by (simp_all add: set_arg_frame awaits_def fun_eq_iff)
  show ?thesis using ty ne assms(1,2) frame
    by (auto simp: handle_argument_def Let_def SCOOP_REGION_ARG_def SCOOP_IS_OUTARG_def
        SCOOP_IS_STRIDEARG_def SCOOP_OUT_ARG_def SCOOP_STRIDE_ARG_def)
qed

end
