(* ===== verification/Deps_Sound.thy ===== *)
theory Deps_Sound
  imports Deps_Gaps
begin

text \<open>
  The contract of the dependence analysis over whole runs: children of one parent are analysed
  block by block with \<open>out_block\<close> and \<open>in_block\<close> while tasks that wait for nobody may run,
  change status and lock their stacks in between.  As long as the accesses avoid the gaps shown in
  the theory \<open>Deps_Gaps\<close>, no task becomes ready before every task that touched one of its blocks
  earlier, in a conflicting way, has finished.
\<close>

section \<open>Having to wait\<close>

definition finished :: "'z deps_state_scheme \<Rightarrow> nat \<Rightarrow> bool" where
  "finished s q \<longleftrightarrow> to_notify (tasks s q) = NLocked"

definition waits :: "'z deps_state_scheme \<Rightarrow> nat \<Rightarrow> nat \<Rightarrow> bool" where
  "waits s v q \<longleftrightarrow> 0 < waiting v (to_notify (tasks s q))"

definition ready :: "'z deps_state_scheme \<Rightarrow> nat \<Rightarrow> bool" where
  "ready s v \<longleftrightarrow> (\<forall>q. \<not> waits s v q)"

lemma awaits_alt: "awaits s v q \<longleftrightarrow> finished s q \<or> waits s v q"
  by (simp add: awaits_def finished_def waits_def)

lemma not_waits_finished: "finished s q \<Longrightarrow> \<not> waits s v q"
  by (simp add: finished_def waits_def)

text \<open>\<open>v\<close> cannot start before \<open>u\<close> has finished.\<close>

inductive must_wait :: "'z deps_state_scheme \<Rightarrow> nat \<Rightarrow> nat \<Rightarrow> bool" for s where
  direct: "awaits s v u \<Longrightarrow> must_wait s u v"
| chain: "must_wait s u w \<Longrightarrow> waits s v w \<Longrightarrow> must_wait s u v"

text \<open>The meaning of \<open>must_wait\<close>: a task that waits in no stack has nothing left to wait for.\<close>

lemma must_wait_ready: "must_wait s u v \<Longrightarrow> ready s v \<Longrightarrow> finished s u"
  by (induction rule: must_wait.induct) (auto simp: awaits_alt ready_def)

lemma must_wait_finished: "finished s u \<Longrightarrow> must_wait s u v"
  by (rule direct) (simp add: awaits_alt)

definition finished_ready :: "'z deps_state_scheme \<Rightarrow> bool" where
  "finished_ready s \<longleftrightarrow> (\<forall>q. finished s q \<longrightarrow> ready s q)"

text \<open>Waiting for somebody who must wait for \<open>u\<close> is waiting for \<open>u\<close>.\<close>

lemma must_wait_awaits:
  assumes "must_wait s u w" and "awaits s v w" and "finished_ready s"
  shows "must_wait s u v"
proof (cases "finished s w")
  case True
  then have "finished s u" using must_wait_ready [OF assms(1)] assms(3) by (simp add: finished_ready_def)
  then show ?thesis by (rule must_wait_finished)
next
  case False
  then show ?thesis using assms(1,2) by (auto simp: awaits_alt intro: chain)
qed

lemma must_wait_evolves:
  assumes "must_wait s u v" and "evolves t s s'"
  shows "must_wait s' u v"
  using assms(1)
proof (induction rule: must_wait.induct)
  case (direct v u)
  then show ?case using awaits_evolves assms(2) by (blast intro: must_wait.direct)
next
  case (chain u w v)
  have "waits s' v w"
    using chain(2) evolves_fields(9) [OF assms(2), of v w] by (simp add: waits_def)
  with chain show ?case by (blast intro: must_wait.chain)
qed

section \<open>Steps of a run\<close>

definition ptable :: "nat \<Rightarrow> 'z deps_state_scheme \<Rightarrow> int \<Rightarrow> nat option" where
  "ptable p s j = (case metadata (tasks s p) of None \<Rightarrow> None | Some trie \<Rightarrow> trie_view trie j)"

lemma table_ptable: "parent (tasks s t) = Some p \<Longrightarrow> table t s = ptable p s"
  by (auto simp: table_def ptable_def parent_trie_def fun_eq_iff split: option.splits)

abbreviation reader_set :: "'z deps_state_scheme \<Rightarrow> nat \<Rightarrow> nat set" where
  "reader_set s m \<equiv> set (list_items (readers (metas s m)))"

abbreviation is_writer :: "'z deps_state_scheme \<Rightarrow> nat \<Rightarrow> bool" where
  "is_writer s m \<equiv> SCOOP_IS_OUTARG (m_type (metas s m))"

abbreviation owner_of :: "'z deps_state_scheme \<Rightarrow> nat \<Rightarrow> nat" where
  "owner_of s m \<equiv> m_owner (metas s m)"

text \<open>
  The reads the analysis handles: behind a writer that is neither the task nor its most recent
  dependence, with an element that records no other writer; beside readers the first of whom has not
  been released, or all of whom have finished.
\<close>

definition clean_read :: "nat \<Rightarrow> nat \<Rightarrow> nat \<Rightarrow> int \<Rightarrow> 'z deps_state_scheme \<Rightarrow> bool" where
  "clean_read p t nm j s \<longleftrightarrow>
     (case ptable p s j of
        None \<Rightarrow> True
      | Some m \<Rightarrow>
          if is_writer s m then
            owner_of s m \<noteq> t \<and> deps_last (tasks s t) \<noteq> Some (owner_of s m)
            \<and> dependent_metadata (metas s nm) = None
          else status (tasks s (owner_of s m)) \<le> EXECUTED_TASK
            \<or> (\<forall>r \<in> reader_set s m. finished s r))"

text \<open>
  A run with the accesses \<open>H\<close> so far (task, block, whether it writes).  \<open>element\<close> is the
  allocation in \<open>handle_argument\<close>, with the insertion that \<open>create_dependency\<close> makes first for
  an IN argument; \<open>do_move\<close> is any change of status, and any locking of its stack, of a task that
  waits for nobody.
\<close>

type_synonym access = "nat \<times> int \<times> bool"

inductive dep_run :: "nat \<Rightarrow> nat set \<Rightarrow> deps_state \<Rightarrow> access list \<Rightarrow> bool" for p A where
  begin_run: "finite A \<Longrightarrow> metadata (tasks s p) = Some new_trie \<Longrightarrow>
    (\<And>q. to_notify (tasks s q) = NOpen [] \<and> deps_last (tasks s q) = None) \<Longrightarrow> next_meta s = 0 \<Longrightarrow>
    dep_run p A s []"
| element_out: "dep_run p A s H \<Longrightarrow> SCOOP_IS_OUTARG type \<Longrightarrow> t \<in> A \<Longrightarrow>
    new_element type t s = (nm, s') \<Longrightarrow> dep_run p A s' H"
| element_in: "dep_run p A s H \<Longrightarrow> \<not> SCOOP_IS_OUTARG type \<Longrightarrow> t \<in> A \<Longrightarrow>
    new_element type t s = (nm, s1) \<Longrightarrow> insert_front t (readers (metas s1 nm)) = Inr rs \<Longrightarrow>
    dep_run p A (upd_meta nm (\<lambda>e. e\<lparr>readers := rs\<rparr>) s1) H"
| do_write: "dep_run p A s H \<Longrightarrow> t \<in> A \<Longrightarrow> parent (tasks s t) = Some p \<Longrightarrow> \<not> finished s t \<Longrightarrow>
    nm < next_meta s \<Longrightarrow> is_writer s nm \<Longrightarrow> owner_of s nm = t \<Longrightarrow> 0 \<le> j \<Longrightarrow> j < trie_blocks \<Longrightarrow>
    out_block t nm j (w, s) = Inr (w', s') \<Longrightarrow> dep_run p A s' (H @ [(t, j, True)])"
| do_read: "dep_run p A s H \<Longrightarrow> t \<in> A \<Longrightarrow> parent (tasks s t) = Some p \<Longrightarrow> \<not> finished s t \<Longrightarrow>
    nm < next_meta s \<Longrightarrow> \<not> is_writer s nm \<Longrightarrow> owner_of s nm = t \<Longrightarrow> reader_set s nm = {t} \<Longrightarrow>
    0 \<le> j \<Longrightarrow> j < trie_blocks \<Longrightarrow> clean_read p t nm j s \<Longrightarrow>
    in_block t nm j (w, s) = Inr (w', s') \<Longrightarrow> dep_run p A s' (H @ [(t, j, False)])"
| do_move: "dep_run p A s H \<Longrightarrow> ready s q \<Longrightarrow> st' \<in> {to_notify (tasks s q), NLocked} \<Longrightarrow>
    dep_run p A (upd_task q (\<lambda>d. d\<lparr>status := st, to_notify := st'\<rparr>) s) H"

section \<open>The invariant\<close>

text \<open>
  \<open>u\<close> is an access from before the readers of \<open>m\<close>: all of them must wait for it, and so will
  every later reader, through the element's dependence.
\<close>

definition covered :: "'z deps_state_scheme \<Rightarrow> nat \<Rightarrow> nat \<Rightarrow> bool" where
  "covered s m u \<longleftrightarrow> (\<forall>r \<in> reader_set s m. r = u \<or> must_wait s u r)
     \<and> (finished s u \<or> (\<exists>d. dependent_metadata (metas s m) = Some d
          \<and> (u = owner_of s d \<or> must_wait s u (owner_of s d))))"

definition access_ok :: "nat \<Rightarrow> 'z deps_state_scheme \<Rightarrow> access \<Rightarrow> bool" where
  "access_ok p s a \<longleftrightarrow> (case a of (u, j, b) \<Rightarrow>
     (case ptable p s j of
        None \<Rightarrow> False
      | Some m \<Rightarrow>
          if is_writer s m then u = owner_of s m \<or> must_wait s u (owner_of s m)
          else \<not> b \<and> u \<in> reader_set s m \<or> covered s m u))"

definition ordered :: "'z deps_state_scheme \<Rightarrow> access list \<Rightarrow> bool" where
  "ordered s H \<longleftrightarrow> (\<forall>i k u v j b c. i < k \<longrightarrow> k < length H \<longrightarrow> H ! i = (u, j, b) \<longrightarrow> H ! k = (v, j, c) \<longrightarrow>
     u \<noteq> v \<longrightarrow> b \<or> c \<longrightarrow> must_wait s u v)"

definition run_inv :: "nat \<Rightarrow> nat set \<Rightarrow> deps_state \<Rightarrow> access list \<Rightarrow> bool" where
  "run_inv p A s H \<longleftrightarrow> finite A \<and> finished_ready s
     \<and> (\<exists>trie. metadata (tasks s p) = Some trie \<and> trie_inv trie)
     \<and> (\<forall>t. last_ok t s)
     \<and> (\<forall>j m. ptable p s j = Some m \<longrightarrow> m < next_meta s)
     \<and> (\<forall>m < next_meta s. elem_ok A (length H + 1) (next_meta s) (metas s m)
          \<and> (is_writer s m \<or> owner_of s m \<in> reader_set s m))
     \<and> (\<forall>a \<in> set H. access_ok p s a) \<and> ordered s H"

lemma run_invD:
  assumes "run_inv p A s H"
  shows "finite A" "finished_ready s" "\<exists>trie. metadata (tasks s p) = Some trie \<and> trie_inv trie"
    "last_ok t s" "ptable p s j = Some m \<Longrightarrow> m < next_meta s"
    "m < next_meta s \<Longrightarrow> elem_ok A (length H + 1) (next_meta s) (metas s m)"
    "m < next_meta s \<Longrightarrow> \<not> is_writer s m \<Longrightarrow> owner_of s m \<in> reader_set s m"
    "m < next_meta s \<Longrightarrow> dependent_metadata (metas s m) = Some d \<Longrightarrow> d < next_meta s"
    "a \<in> set H \<Longrightarrow> access_ok p s a" "ordered s H"
proof -
  show e: "elem_ok A (length H + 1) (next_meta s) (metas s m)" if "m < next_meta s" for m
    using assms that by (simp add: run_inv_def)
  show "m < next_meta s \<Longrightarrow> dependent_metadata (metas s m) = Some d \<Longrightarrow> d < next_meta s"
    using e by (simp add: elem_ok_def)
qed (use assms in \<open>auto simp: run_inv_def\<close>)

lemma run_inv_deps_ok:
  assumes "run_inv p A s H" and "t \<in> A" and "parent (tasks s t) = Some p"
  shows "deps_ok A (length H + 1) t s"
proof -
  have "table_inv t s" using run_invD(3) [OF assms(1)] assms(3)
    by (auto simp: table_inv_def parent_trie_def)
  then show ?thesis using run_invD [OF assms(1)] assms(2) table_ptable [OF assms(3)]
    by (auto simp: deps_ok_def)
qed

lemma access_ok_mono:
  assumes "access_ok p s (u, i, b)" and "ptable p s' i = ptable p s i"
    and "\<And>m. ptable p s i = Some m \<Longrightarrow> m < next_meta s"
    and "\<And>m d. m < next_meta s \<Longrightarrow> dependent_metadata (metas s m) = Some d \<Longrightarrow> d < next_meta s"
    and "\<And>u v. must_wait s u v \<Longrightarrow> must_wait s' u v" and "\<And>q. finished s q \<Longrightarrow> finished s' q"
    and "\<And>m. m < next_meta s \<Longrightarrow> is_writer s' m = is_writer s m \<and> owner_of s' m = owner_of s m
      \<and> reader_set s m \<subseteq> reader_set s' m"
    and "\<And>m r. ptable p s i = Some m \<Longrightarrow> covered s m u \<Longrightarrow> r \<in> reader_set s' m \<Longrightarrow>
      r \<notin> reader_set s m \<Longrightarrow> r = u \<or> must_wait s' u r"
    and "\<And>m d. m < next_meta s \<Longrightarrow> dependent_metadata (metas s m) = Some d \<Longrightarrow>
      dependent_metadata (metas s' m) = Some d"
  shows "access_ok p s' (u, i, b)"
proof (cases "ptable p s i")
  case None
  then show ?thesis using assms(1) by (simp add: access_ok_def)
next
  case (Some m)
  have m: "m < next_meta s" using assms(3) [OF Some] .
  have cov: "covered s' m u" if c: "covered s m u"
  proof -
    have "r = u \<or> must_wait s' u r" if "r \<in> reader_set s' m" for r
      using c assms(5) assms(8) [OF Some c that] by (auto simp: covered_def)
    moreover have "finished s' u \<or> (\<exists>d. dependent_metadata (metas s' m) = Some d
        \<and> (u = owner_of s' d \<or> must_wait s' u (owner_of s' d)))"
    proof (cases "finished s u")
      case False
      then obtain d where d: "dependent_metadata (metas s m) = Some d"
          "u = owner_of s d \<or> must_wait s u (owner_of s d)"
        using c by (auto simp: covered_def)
      then show ?thesis using assms(9) [OF m d(1)] assms(7) [OF assms(4) [OF m d(1)]] assms(5) by auto
    qed (use assms(6) in blast)
    ultimately show ?thesis by (simp add: covered_def)
  qed
  show ?thesis
    using assms(1,2,5) Some cov assms(7) [OF m] by (auto simp: access_ok_def)
qed

lemma ordered_mono: "ordered s H \<Longrightarrow> (\<And>u v. must_wait s u v \<Longrightarrow> must_wait s' u v) \<Longrightarrow> ordered s' H"
  by (fastforce simp: ordered_def)

lemma ordered_snoc:
  assumes "ordered s H" and "\<And>u b. (u, j, b) \<in> set H \<Longrightarrow> u \<noteq> t \<Longrightarrow> b \<or> c \<Longrightarrow> must_wait s u t"
  shows "ordered s (H @ [(t, j, c)])"
  unfolding ordered_def
proof (intro allI impI)
  fix i k u v j' b c'
  assume a: "i < k" "k < length (H @ [(t, j, c)])" "(H @ [(t, j, c)]) ! i = (u, j', b)"
    "(H @ [(t, j, c)]) ! k = (v, j', c')" "u \<noteq> v" "b \<or> c'"
  show "must_wait s u v"
  proof (cases "k < length H")
    case True
    then show ?thesis using a assms(1) unfolding ordered_def by (simp add: nth_append) blast
  next
    case False
    then have "k = length H" using a(2) by simp
    then have "H ! i = (u, j, b)" "i < length H" "v = t" "c' = c" "j' = j"
      using a(1,3,4) by (auto simp: nth_append)
    then show ?thesis using assms(2) [of u b] a(5,6) nth_mem by fastforce
  qed
qed

section \<open>Each step keeps the invariant\<close>

lemma last_ok_evolves: "last_ok u s \<Longrightarrow> evolves t s s' \<Longrightarrow> u \<noteq> t \<Longrightarrow> last_ok u s'"
  using evolves_fields(7) awaits_evolves by (fastforce simp: last_ok_def)

lemma finished_evolves: "evolves t s s' \<Longrightarrow> finished s' q = finished s q"
  using evolves_fields(6) by (simp add: finished_def)

lemma finished_ready_evolves:
  assumes "finished_ready s" and "evolves t s s'" and "\<not> finished s t"
  shows "finished_ready s'"
  unfolding finished_ready_def ready_def
proof (intro allI impI)
  fix q x
  assume "finished s' q"
  then have q: "finished s q" using finished_evolves [OF assms(2)] by simp
  then have "q \<noteq> t" using assms(3) by blast
  then show "\<not> waits s' q x"
    using evolves_fields(8) [OF assms(2), of q x] assms(1) q
    by (simp add: waits_def finished_ready_def ready_def)
qed

text \<open>An access of \<open>t\<close> to block \<open>j\<close>: what remains to be shown once the frame is known.\<close>

lemma access_step:
  assumes inv: "run_inv p A s H" and t: "t \<in> A" "parent (tasks s t) = Some p" "\<not> finished s t"
    and ok: "deps_ok A (length H + 2) t s'" and ev: "evolves t s s'" and nx: "next_meta s' = next_meta s"
    and me: "metas_evolve t nm s s'"
    and tab: "\<And>i. i \<noteq> j \<Longrightarrow> table t s' i = table t s i"
    and old: "\<And>a. a \<in> set H \<Longrightarrow> access_ok p s' a" and new: "access_ok p s' (t, j, c)"
    and mw: "\<And>u b. (u, j, b) \<in> set H \<Longrightarrow> u \<noteq> t \<Longrightarrow> b \<or> c \<Longrightarrow> must_wait s' u t"
  shows "run_inv p A s' (H @ [(t, j, c)])"
proof -
  have par: "parent (tasks s' t) = Some p" using t(2) evolves_fields(1) [OF ev] by simp
  have "\<exists>trie. metadata (tasks s' p) = Some trie \<and> trie_inv trie"
    using deps_okD(3) [OF ok] par by (auto simp: table_inv_def parent_trie_def split: option.splits)
  moreover have "last_ok u s'" for u
    using deps_okD(4) [OF ok] last_ok_evolves [OF run_invD(4) [OF inv] ev] by (cases "u = t") auto
  moreover have "m < next_meta s'" if "ptable p s' i = Some m" for i m
    using that deps_okD(5) [OF ok] table_ptable [OF par] by simp
  moreover have "elem_ok A (length (H @ [(t, j, c)]) + 1) (next_meta s') (metas s' m)
      \<and> (is_writer s' m \<or> owner_of s' m \<in> reader_set s' m)" if "m < next_meta s'" for m
    using that deps_okD(6) [OF ok that] run_invD(7) [OF inv, of m] metas_evolveD [OF me, of m] nx by auto
  moreover have "ordered s' (H @ [(t, j, c)])"
    using ordered_snoc [OF ordered_mono [OF run_invD(10) [OF inv] must_wait_evolves [OF _ ev]]] mw by blast
  ultimately show ?thesis
    using run_invD(1) [OF inv] finished_ready_evolves [OF run_invD(2) [OF inv] ev t(3)] old new
    unfolding run_inv_def by auto
qed

lemma write_inv:
  assumes inv: "run_inv p A s H" and t: "t \<in> A" "parent (tasks s t) = Some p" "\<not> finished s t"
    and nm: "nm < next_meta s" "is_writer s nm" "owner_of s nm = t" and j: "0 \<le> j" "j < trie_blocks"
    and step: "out_block t nm j (w, s) = Inr (w', s')"
  shows "run_inv p A s' (H @ [(t, j, True)])"
proof -
  have ok: "deps_ok A (length H + 1) t s" using run_inv_deps_ok [OF inv t(1,2)] .
  have r: "deps_ok A (length H + 1) t s'" "evolves t s s'" "metas s' = metas s" "next_meta s' = next_meta s"
      "table t s' = (table t s)(j \<mapsto> nm)"
      "\<forall>m. table t s j = Some m \<longrightarrow> (\<forall>q \<in> blockers (metas s m). q = t \<or> awaits s' t q)"
    using out_block_ok [OF ok nm(1) j, of w] step by auto
  have par: "parent (tasks s' t) = Some p" using t(2) evolves_fields(1) [OF r(2)] by simp
  have pt: "ptable p s' = (ptable p s)(j \<mapsto> nm)"
    using r(5) table_ptable [OF t(2)] table_ptable [OF par] by simp
  have fr: "finished_ready s'" using finished_ready_evolves [OF run_invD(2) [OF inv] r(2) t(3)] .
  have mono: "must_wait s' u v" if "must_wait s u v" for u v using must_wait_evolves [OF that r(2)] .
  have wait: "u = t \<or> must_wait s' u t" if "(u, j, b) \<in> set H" for u b
  proof -
    have a: "access_ok p s (u, j, b)" using run_invD(9) [OF inv that] .
    then obtain m where m: "ptable p s j = Some m" by (auto simp: access_ok_def split: option.splits)
    have m': "m < next_meta s" using run_invD(5) [OF inv m] .
    have blk: "q = t \<or> awaits s' t q" if "q \<in> blockers (metas s m)" for q
      using r(6) m that table_ptable [OF t(2)] by simp
    have via: "u = t \<or> must_wait s' u t" if "u = q \<or> must_wait s u q" "q \<in> blockers (metas s m)" for q
      using that blk mono must_wait_awaits [OF _ _ fr] by (blast intro: direct)
    show ?thesis
    proof (cases "is_writer s m")
      case True
      then show ?thesis using via [of "owner_of s m"] a m by (auto simp: access_ok_def blockers_def)
    next
      case False
      then have own: "owner_of s m \<in> reader_set s m" using run_invD(7) [OF inv m'] by blast
      have "u \<in> reader_set s m \<or> covered s m u" using False a m by (auto simp: access_ok_def)
      then show ?thesis
      proof
        assume "u \<in> reader_set s m"
        then show ?thesis using via [of u] False by (simp add: blockers_def)
      next
        assume "covered s m u"
        then have "u = owner_of s m \<or> must_wait s u (owner_of s m)" using own by (auto simp: covered_def)
        then show ?thesis using via [of "owner_of s m"] own False by (simp add: blockers_def)
      qed
    qed
  qed
  have old: "access_ok p s' a" if "a \<in> set H" for a
  proof -
    obtain u i b where a: "a = (u, i, b)" by (cases a)
    have ua: "access_ok p s (u, i, b)" using run_invD(9) [OF inv that] a by simp
    show ?thesis
    proof (cases "i = j")
      case True
      then show ?thesis using wait [of u b] that a pt nm(2,3) r(3) by (auto simp: access_ok_def)
    next
      case False
      have "ptable p s' i = ptable p s i" using pt False by simp
      then have "access_ok p s' (u, i, b)"
        by (rule access_ok_mono [OF ua])
          (use run_invD(5,8) [OF inv] mono finished_evolves [OF r(2)] r(3) in auto)
      then show ?thesis using a by simp
    qed
  qed
  have "access_ok p s' (t, j, True)" using pt nm(2,3) r(3) by (simp add: access_ok_def)
  moreover have "deps_ok A (length H + 2) t s'" using deps_ok_mono [OF r(1)] by simp
  moreover have "must_wait s' u t" if "(u, j, b) \<in> set H" "u \<noteq> t" for u b using wait that by blast
  ultimately show ?thesis
    using access_step [OF inv t _ r(2,4) metas_evolve_same [OF r(3)], of j True] old r(5) by auto
qed

section \<open>Reads\<close>

text \<open>What \<open>in_block\<close> does to the metadata elements, exactly.\<close>

definition in_effect :: "nat \<Rightarrow> nat \<Rightarrow> int \<Rightarrow> 'z deps_state_scheme \<Rightarrow> 'z deps_state_scheme \<Rightarrow> bool" where
  "in_effect t nm j s s' \<longleftrightarrow>
     (case table t s j of
        None \<Rightarrow> metas s' = metas s
      | Some m \<Rightarrow>
          if is_writer s m then
            metas s' = (metas s)(nm := (metas s nm)\<lparr>dependent_metadata := Some m\<rparr>)
            \<or> metas s' = metas s
              \<and> (owner_of s m = t \<or> deps_last (tasks s t) = Some (owner_of s m) \<or> finished s (owner_of s m))
          else if status (tasks s (owner_of s m)) \<le> EXECUTED_TASK then
            \<exists>rs. metas s' = (metas s)(m := (metas s m)\<lparr>readers := rs\<rparr>)
              \<and> set (list_items rs) = insert t (reader_set s m)
          else metas s' = metas s)"

lemma insert_front_items: "insert_front t l = Inr l' \<Longrightarrow> list_items l' = t # list_items l"
  by (auto simp: insert_front_def list_items_def Let_def fault_simps split: if_splits)

lemma try_wait_frame:
  assumes "try_wait t c q s = (ok, s')"
  shows "metas s' = metas s \<and> (\<not> ok \<longrightarrow> c = t \<or> deps_last (tasks s t) = Some c \<or> finished s q)"
  using assms by (cases rule: try_wait_cases) (auto simp: finished_def)

lemma in_block_effect:
  assumes "in_block t nm j (w, s) = Inr (w', s')" and "table_inv t s" and "0 \<le> j" and "j < trie_blocks"
  shows "in_effect t nm j s s'"
proof -
  obtain p trie trie1 where b: "parent_trie t s = Inr (p, trie)"
      "get_or_create_node trie j = Inr (table t s j, trie1)"
    using touch_block [OF assms(2-4)] by blast
  let ?s1 = "put_trie p trie1 s"
  show ?thesis
  proof (cases "table t s j")
    case None
    then show ?thesis using assms(1) b
      by (auto simp: in_block_def in_effect_def fault_simps put_trie_frame Let_def)
  next
    case (Some m)
    consider (raw) "is_writer s m" | (rar) "\<not> is_writer s m" "status (tasks s (owner_of s m)) \<le> EXECUTED_TASK"
      | (dead) "\<not> is_writer s m" "\<not> status (tasks s (owner_of s m)) \<le> EXECUTED_TASK" by blast
    then show ?thesis
    proof cases
      case raw
      obtain trie2 where c: "set_node trie1 j (Some nm) = Inr trie2"
        using assms(1) b Some raw by (auto simp: in_block_def fault_simps put_trie_frame Let_def)
      obtain ok s2 where tw: "try_wait t (owner_of s m) (owner_of s m) (put_trie p trie2 ?s1) = (ok, s2)"
        by (metis surj_pair)
      have "s' = (if ok then upd_meta nm (\<lambda>e. e\<lparr>dependent_metadata := Some m\<rparr>) s2 else s2)"
        using assms(1) b Some raw c tw by (auto simp: in_block_def put_trie_frame Let_def split: if_splits)
      then show ?thesis using try_wait_frame [OF tw] raw Some
        by (auto simp: in_effect_def upd_meta_def put_trie_frame finished_def)
    next
      case rar
      obtain rs where rs: "insert_front t (readers (metas s m)) = Inr rs"
        using assms(1) b Some rar by (auto simp: in_block_def fault_simps put_trie_frame Let_def)
      let ?s3 = "upd_meta m (\<lambda>e. e\<lparr>readers := rs\<rparr>) ?s1"
      have "metas s' = metas ?s3"
      proof (cases "dependent_metadata (metas s m)")
        case None
        then have "dependent_metadata (metas ?s3 m) = None" by (simp add: upd_meta_def put_trie_frame)
        then show ?thesis using assms(1) b Some rar rs
          by (auto simp: in_block_def put_trie_frame Let_def)
      next
        case d: (Some d)
        then have "dependent_metadata (metas ?s3 m) = Some d" by (simp add: upd_meta_def put_trie_frame)
        moreover obtain ok s2 where tw: "try_wait t (m_owner (metas ?s3 m)) (m_owner (metas ?s3 d)) ?s3 = (ok, s2)"
          by (metis surj_pair)
        ultimately have "s' = s2" using assms(1) b Some rar rs
          by (auto simp: in_block_def put_trie_frame Let_def split: if_splits)
        then show ?thesis using try_wait_frame [OF tw] by simp
      qed
      then show ?thesis using insert_front_items [OF rs] rar Some
        by (auto simp: in_effect_def upd_meta_def put_trie_frame)
    next
      case dead
      then show ?thesis using assms(1) b Some
        by (auto simp: in_block_def in_effect_def fault_simps put_trie_frame Let_def)
    qed
  qed
qed

lemma must_wait_finished_end:
  assumes "must_wait s u w" and "finished s w" and "finished_ready s"
  shows "finished s u"
  using must_wait_ready [OF assms(1)] assms(2,3) by (simp add: finished_ready_def)

text \<open>A task that becomes a reader of \<open>m\<close> waits for whatever its readers are known to wait for.\<close>

lemma covered_new_reader:
  assumes inv: "run_inv p A s H" and ev: "evolves t s s'" and fr: "finished_ready s'"
    and m: "m < next_meta s" "\<not> is_writer s m" and cov: "covered s m u"
    and join: "\<And>d. dependent_metadata (metas s m) = Some d \<Longrightarrow>
      owner_of s m = t \<or> awaits s' t (owner_of s m) \<or> awaits s' t (owner_of s d)"
  shows "t = u \<or> must_wait s' u t"
proof (cases "finished s u")
  case True
  then show ?thesis using must_wait_finished [of s' u t] finished_evolves [OF ev] by simp
next
  case False
  then obtain d where d: "dependent_metadata (metas s m) = Some d"
      "u = owner_of s d \<or> must_wait s u (owner_of s d)"
    using cov by (auto simp: covered_def)
  have own: "owner_of s m = u \<or> must_wait s u (owner_of s m)"
    using cov run_invD(7) [OF inv m] by (auto simp: covered_def)
  have via: "t = u \<or> must_wait s' u t" if "q = u \<or> must_wait s u q" "awaits s' t q" for q
    using that must_wait_awaits [OF must_wait_evolves [OF _ ev] _ fr] direct by blast
  from join [OF d(1)] show ?thesis
  proof (elim disjE)
    assume "owner_of s m = t"
    then show ?thesis using own must_wait_evolves [OF _ ev] by blast
  next
    assume "awaits s' t (owner_of s m)"
    then show ?thesis using via own by blast
  next
    assume "awaits s' t (owner_of s d)"
    then show ?thesis using via d(2) by blast
  qed
qed

lemma read_inv:
  assumes inv: "run_inv p A s H" and t: "t \<in> A" "parent (tasks s t) = Some p" "\<not> finished s t"
    and nm: "nm < next_meta s" "\<not> is_writer s nm" "owner_of s nm = t" "reader_set s nm = {t}"
    and j: "0 \<le> j" "j < trie_blocks" and clean: "clean_read p t nm j s"
    and step: "in_block t nm j (w, s) = Inr (w', s')" and small: "length H + 1 < 2 ^ 32"
  shows "run_inv p A s' (H @ [(t, j, False)])"
proof -
  have ok: "deps_ok A (length H + 1) t s" using run_inv_deps_ok [OF inv t(1,2)] .
  have r: "deps_ok A (length H + 2) t s'" "evolves t s s'" "next_meta s' = next_meta s" "metas_evolve t nm s s'"
      "\<And>i. i \<noteq> j \<Longrightarrow> table t s' i = table t s i" "in_done t nm j s s'"
    using in_block_ok [OF ok nm(1) j small, of w] step by (auto simp: in_result_def)
  have eff: "in_effect t nm j s s'" using in_block_effect [OF step deps_okD(3) [OF ok] j] .
  have pt: "table t s = ptable p s" "table t s' = ptable p s'"
    using table_ptable t(2) evolves_fields(1) [OF r(2), of t] by auto
  have fr: "finished_ready s'" using finished_ready_evolves [OF run_invD(2) [OF inv] r(2) t(3)] .
  have mono: "must_wait s' u v" if "must_wait s u v" for u v using must_wait_evolves [OF that r(2)] .
  have fin: "finished s' q = finished s q" for q using finished_evolves [OF r(2)] .
  have acc: "access_ok p s (u, i, b)" if "(u, i, b) \<in> set H" for u i b using run_invD(9) [OF inv that] .
  have frame: "access_ok p s' (u, i, b)" if "(u, i, b) \<in> set H" "ptable p s' i = ptable p s i"
      "\<And>m. m < next_meta s \<Longrightarrow> is_writer s' m = is_writer s m \<and> owner_of s' m = owner_of s m
        \<and> reader_set s m \<subseteq> reader_set s' m"
      "\<And>m r. ptable p s i = Some m \<Longrightarrow> covered s m u \<Longrightarrow> r \<in> reader_set s' m \<Longrightarrow>
        r \<notin> reader_set s m \<Longrightarrow> r = u \<or> must_wait s' u r"
      "\<And>m d. m < next_meta s \<Longrightarrow> dependent_metadata (metas s m) = Some d \<Longrightarrow>
        dependent_metadata (metas s' m) = Some d" for u i b
    by (rule access_ok_mono [OF acc [OF that(1)] that(2)])
      (use run_invD(5,8) [OF inv] mono fin that in auto)
  have finish: ?thesis if "\<And>a. a \<in> set H \<Longrightarrow> access_ok p s' a" "access_ok p s' (t, j, False)"
      "\<And>u. (u, j, True) \<in> set H \<Longrightarrow> u \<noteq> t \<Longrightarrow> must_wait s' u t"
    using access_step [OF inv t r(1-4), of j False] that r(5) by auto
  consider (none) "ptable p s j = None"
    | (raw) m where "ptable p s j = Some m" "is_writer s m"
    | (rar) m where "ptable p s j = Some m" "\<not> is_writer s m" "status (tasks s (owner_of s m)) \<le> EXECUTED_TASK"
    | (dead) m where "ptable p s j = Some m" "\<not> is_writer s m" "\<not> status (tasks s (owner_of s m)) \<le> EXECUTED_TASK"
    by (cases "ptable p s j") auto
  then show ?thesis
  proof cases
    case none
    then have m: "metas s' = metas s" "ptable p s' j = Some nm"
      using eff r(6) pt by (auto simp: in_effect_def in_done_def)
    have "access_ok p s' a" if "a \<in> set H" for a
    proof -
      obtain u i b where a: "a = (u, i, b)" by (cases a)
      have "i \<noteq> j" using acc [of u i b] that a none by (auto simp: access_ok_def)
      then show ?thesis using frame [of u i b] that a r(5) [of i] pt m(1) by auto
    qed
    moreover have "access_ok p s' (t, j, False)" using m nm by (simp add: access_ok_def)
    moreover have "must_wait s' u t" if "(u, j, True) \<in> set H" for u
      using acc [OF that] none by (simp add: access_ok_def)
    ultimately show ?thesis by (rule finish)
  next
    case raw
    let ?o = "owner_of s m"
    have c: "?o \<noteq> t" "deps_last (tasks s t) \<noteq> Some ?o" "dependent_metadata (metas s nm) = None"
      using clean raw by (auto simp: clean_read_def)
    have d: "ptable p s' j = Some nm" "awaits s' t ?o" using r(6) raw pt c(1) by (auto simp: in_done_def)
    have e: "metas s' = (metas s)(nm := (metas s nm)\<lparr>dependent_metadata := Some m\<rparr>)
        \<or> metas s' = metas s \<and> finished s ?o"
      using eff raw pt c by (auto simp: in_effect_def)
    have same: "is_writer s' i = is_writer s i" "owner_of s' i = owner_of s i" "reader_set s' i = reader_set s i" for i
      using e by (cases "i = nm"; auto)+
    have keep: "dependent_metadata (metas s' i) = Some x" if "dependent_metadata (metas s i) = Some x" for i x
      using e c(3) that by (cases "i = nm") auto
    have before: "u = ?o \<or> must_wait s u ?o" if "(u, j, b) \<in> set H" for u b
      using acc [OF that] raw by (simp add: access_ok_def)
    have wait: "must_wait s' u t" if "(u, j, b) \<in> set H" for u b
      using before [OF that] d(2) mono must_wait_awaits [OF _ d(2) fr] direct by blast
    have "access_ok p s' a" if "a \<in> set H" for a
    proof -
      obtain u i b where a: "a = (u, i, b)" by (cases a)
      show ?thesis
      proof (cases "i = j")
        case True
        have "finished s' u \<or> (\<exists>d. dependent_metadata (metas s' nm) = Some d
            \<and> (u = owner_of s' d \<or> must_wait s' u (owner_of s' d)))"
          using e before [of u b] that a True mono same(2) fin
            must_wait_finished_end [OF _ _ run_invD(2) [OF inv]] by auto
        then have "covered s' nm u" using wait [of u b] that a True same(3) nm(4) by (simp add: covered_def)
        then show ?thesis using a True d(1) same(1) nm(2) by (simp add: access_ok_def)
      next
        case False
        then show ?thesis using frame [of u i b] that a r(5) [of i] pt same keep by auto
      qed
    qed
    moreover have "access_ok p s' (t, j, False)" using d(1) same nm by (simp add: access_ok_def)
    moreover have "must_wait s' u t" if "(u, j, True) \<in> set H" for u using wait that by blast
    ultimately show ?thesis by (rule finish)
  next
    case rar
    obtain rs where rs: "metas s' = (metas s)(m := (metas s m)\<lparr>readers := rs\<rparr>)"
        "set (list_items rs) = insert t (reader_set s m)"
      using eff rar pt by (auto simp: in_effect_def)
    have m: "m < next_meta s" using run_invD(5) [OF inv rar(1)] .
    have "ptable p s' i = ptable p s i" for i
      using r(5) [of i] r(6) pt rar by (cases "i = j") (auto simp: in_done_def)
    then have pt': "ptable p s' = ptable p s" ..
    have same: "is_writer s' i = is_writer s i" "owner_of s' i = owner_of s i"
        "dependent_metadata (metas s' i) = dependent_metadata (metas s i)"
        "reader_set s' i = (if i = m then insert t (reader_set s i) else reader_set s i)" for i
      using rs by auto
    have join: "t = u \<or> must_wait s' u t" if "covered s m u" for u
      by (rule covered_new_reader [OF inv r(2) fr m rar(2) that])
        (use r(6) rar pt in \<open>auto simp: in_done_def\<close>)
    have "access_ok p s' a" if "a \<in> set H" for a
    proof -
      obtain u i b where a: "a = (u, i, b)" by (cases a)
      have "access_ok p s' (u, i, b)"
        by (rule frame) (use that a pt' same join in \<open>auto split: if_splits\<close>)
      then show ?thesis using a by simp
    qed
    moreover have "access_ok p s' (t, j, False)" using pt' rar(1,2) same by (simp add: access_ok_def)
    moreover have "must_wait s' u t" if "(u, j, True) \<in> set H" "u \<noteq> t" for u
      using acc [OF that(1)] rar join [of u] that(2) by (auto simp: access_ok_def)
    ultimately show ?thesis by (rule finish)
  next
    case dead
    have m: "metas s' = metas s" "ptable p s' j = Some nm"
      using eff r(6) dead pt by (auto simp: in_effect_def in_done_def)
    have all: "finished s q" if "q \<in> reader_set s m" for q
      using clean dead that by (auto simp: clean_read_def)
    have gone: "finished s' u" if "(u, j, b) \<in> set H" for u b
    proof -
      have "u \<in> reader_set s m \<or> covered s m u" using acc [OF that] dead by (auto simp: access_ok_def)
      moreover have "owner_of s m \<in> reader_set s m"
        using run_invD(7) [OF inv run_invD(5) [OF inv dead(1)] dead(2)] .
      moreover have "finished s u" if "covered s m u" "r \<in> reader_set s m" for r
        using that all [OF that(2)] must_wait_finished_end [OF _ _ run_invD(2) [OF inv], of u r]
        by (auto simp: covered_def)
      ultimately show ?thesis using all [of u] unfolding fin by auto
    qed
    have "access_ok p s' a" if "a \<in> set H" for a
    proof -
      obtain u i b where a: "a = (u, i, b)" by (cases a)
      show ?thesis
      proof (cases "i = j")
        case True
        then have "covered s' nm u" using gone [of u b] that a by (simp add: covered_def must_wait_finished)
        then show ?thesis using a True m nm(2) by (simp add: access_ok_def)
      next
        case False
        then show ?thesis using frame [of u i b] that a r(5) [of i] pt m(1) by auto
      qed
    qed
    moreover have "access_ok p s' (t, j, False)" using m nm by (simp add: access_ok_def)
    moreover have "must_wait s' u t" if "(u, j, True) \<in> set H" for u
      using gone [OF that] by (rule must_wait_finished)
    ultimately show ?thesis by (rule finish)
  qed
qed

section \<open>The other steps\<close>

lemma must_wait_cong:
  assumes "must_wait s u v" and "tasks s' = tasks s"
  shows "must_wait s' u v"
  using assms(1)
proof (induction rule: must_wait.induct)
  case (direct v u)
  then have "awaits s' v u" using assms(2) by (simp add: awaits_def)
  then show ?case by (rule must_wait.direct)
next
  case (chain u w v)
  have "waits s' v w" using chain(2) assms(2) by (simp add: waits_def)
  with chain(3) show ?case by (rule must_wait.chain)
qed

lemma element_inv:
  assumes inv: "run_inv p A s H" and eq: "tasks s' = tasks s" "next_meta s' = next_meta s + 1"
      "metas s' = (metas s)(next_meta s := e)"
    and e: "elem_ok A (length H + 1) (next_meta s) e"
      "SCOOP_IS_OUTARG (m_type e) \<or> m_owner e \<in> set (list_items (readers e))"
  shows "run_inv p A s' H"
proof -
  have pt: "ptable p s' = ptable p s" by (simp add: ptable_def eq fun_eq_iff)
  have mono: "must_wait s' u v" if "must_wait s u v" for u v using must_wait_cong [OF that eq(1)] .
  have fin: "finished s' q = finished s q" "ready s' q = ready s q" for q
    by (simp_all add: finished_def ready_def waits_def eq)
  have acc: "access_ok p s' a" if "a \<in> set H" for a
  proof -
    obtain u i b where a: "a = (u, i, b)" by (cases a)
    have m: "m < next_meta s" if "ptable p s i = Some m" for m using run_invD(5) [OF inv that] .
    have "access_ok p s' (u, i, b)"
      by (rule access_ok_mono [of p s])
        (use that a run_invD(5,8,9) [OF inv] pt mono fin m in \<open>auto simp: eq(3) split: if_splits\<close>)
    then show ?thesis using a by simp
  qed
  have "elem_ok A (length H + 1) (next_meta s') (metas s' m)
      \<and> (is_writer s' m \<or> owner_of s' m \<in> reader_set s' m)" if "m < next_meta s'" for m
  proof (cases "m = next_meta s")
    case True
    then show ?thesis using e elem_ok_mono [OF e(1)] by (simp add: eq)
  next
    case False
    then show ?thesis using that run_invD(6,7) [OF inv, of m] elem_ok_mono by (fastforce simp: eq)
  qed
  moreover have "last_ok t s'" for t
    using run_invD(4) [OF inv, of t] by (simp add: last_ok_def awaits_def eq)
  moreover have "finished_ready s'" using run_invD(2) [OF inv] by (simp add: finished_ready_def fin)
  moreover have "m < next_meta s'" if "ptable p s' j = Some m" for j m
    using run_invD(5) [OF inv] that pt eq(2) by (simp add: less_SucI)
  ultimately show ?thesis
    using run_invD(1,3) [OF inv] acc ordered_mono [OF run_invD(10) [OF inv] mono]
    by (simp add: run_inv_def eq)
qed

lemma move_inv:
  assumes inv: "run_inv p A s H" and q: "ready s q" and st: "st' \<in> {to_notify (tasks s q), NLocked}"
  shows "run_inv p A (upd_task q (\<lambda>d. d\<lparr>status := st, to_notify := st'\<rparr>) s) H" (is "run_inv p A ?s H")
proof -
  have pt: "ptable p ?s = ptable p s" by (simp add: ptable_def tasks_upd_task fun_eq_iff)
  have fin: "finished ?s x \<longleftrightarrow> finished s x \<or> x = q \<and> st' = NLocked" for x
    using st by (auto simp: finished_def tasks_upd_task)
  have wback: "waits s v x" if "waits ?s v x" for v x
    using that st by (auto simp: waits_def tasks_upd_task split: if_splits)
  have forth: "waits ?s v x \<or> finished ?s x" if "waits s v x" for v x
    using that st by (auto simp: waits_def finished_def tasks_upd_task)
  have aw: "awaits ?s v x" if "awaits s v x" for v x using that forth fin by (auto simp: awaits_alt)
  have mono: "must_wait ?s u v" if "must_wait s u v" for u v
    using that
  proof (induction rule: must_wait.induct)
    case (direct v u)
    then show ?case using aw must_wait.direct by blast
  next
    case (chain u w v)
    show ?case
    proof (cases "waits ?s v w")
      case True
      then show ?thesis using chain must_wait.chain by blast
    next
      case False
      then have "finished ?s w" using forth chain(2) by blast
      then have "w = q" using fin not_waits_finished chain(2) by blast
      then have "finished s u" using must_wait_ready [OF chain(1)] q by simp
      then show ?thesis using fin must_wait_finished by blast
    qed
  qed
  have acc: "access_ok p ?s a" if "a \<in> set H" for a
  proof -
    obtain u i b where a: "a = (u, i, b)" by (cases a)
    have "access_ok p ?s (u, i, b)"
      by (rule access_ok_mono [of p s])
        (use that a run_invD(5,8,9) [OF inv] pt mono fin in auto)
    then show ?thesis using a by simp
  qed
  have "last_ok t ?s" for t
    using run_invD(4) [OF inv, of t] aw by (auto simp: last_ok_def tasks_upd_task split: if_splits)
  moreover have "finished_ready ?s"
    using run_invD(2) [OF inv] q fin wback unfolding finished_ready_def ready_def by blast
  moreover have "\<exists>trie. metadata (tasks ?s p) = Some trie \<and> trie_inv trie"
    using run_invD(3) [OF inv] by (auto simp: tasks_upd_task)
  ultimately show ?thesis
    using inv acc pt ordered_mono [OF run_invD(10) [OF inv] mono] by (simp add: run_inv_def)
qed

lemma dep_run_inv: "dep_run p A s H \<Longrightarrow> length H < 2 ^ 32 - 1 \<Longrightarrow> run_inv p A s H"
proof (induction rule: dep_run.induct)
  case (begin_run s)
  have "finished_ready s" "last_ok t s" for t
    using begin_run(3) by (simp_all add: finished_ready_def finished_def last_ok_def)
  then show ?case using begin_run new_trie_inv
    by (simp add: run_inv_def ptable_def new_trie_view ordered_def)
next
  case (element_out s H type t nm s')
  note n = new_element_frame [OF element_out(4)]
  have "metas s' = (metas s)(next_meta s := \<lparr>m_type = type, readers = init_List, m_owner = t,
      dependent_metadata = None\<rparr>)" using element_out(4) by (auto simp: new_element_def Let_def)
  then show ?case
    by (rule element_inv [OF element_out.IH [OF element_out.prems] n(3,2)])
      (use element_out in \<open>auto simp: elem_ok_def list_inv_def list_items_def init_List_def\<close>)
next
  case (element_in s H type t nm s1 rs)
  note n = new_element_frame [OF element_in(4)]
  have s1: "metas s1 = (metas s)(next_meta s := \<lparr>m_type = type, readers = init_List, m_owner = t,
      dependent_metadata = None\<rparr>)" "nm = next_meta s" using element_in(4) by (auto simp: new_element_def Let_def)
  have rs: "list_items rs = [t]" "list_inv rs" "length (head rs) = 1"
    using element_in(5) s1
    by (auto simp: insert_front_def init_List_def isEmpty_List_def list_items_def list_inv_def Let_def)
  have "metas (upd_meta nm (\<lambda>e. e\<lparr>readers := rs\<rparr>) s1) = (metas s)(next_meta s :=
      \<lparr>m_type = type, readers = rs, m_owner = t, dependent_metadata = None\<rparr>)"
    using s1 by (simp add: upd_meta_def)
  then show ?case
    by (rule element_inv [OF element_in.IH [OF element_in.prems], rotated 2])
      (use element_in n rs in \<open>auto simp: elem_ok_def\<close>)
next
  case (do_write s H t nm j w w' s')
  then show ?case using write_inv by auto
next
  case (do_read s H t nm j w w' s')
  then show ?case using read_inv by auto
next
  case (do_move s H q st' st)
  then show ?case using move_inv by blast
qed

section \<open>Properties\<close>

text \<open>
  C1: in every run of the dependence analysis whose reads are clean, with tasks starting, changing
  status and locking their stacks at any point at which they wait for nobody: when two tasks touch
  the same block and at least one of them writes it, the later one is not ready (it is still waiting
  in some notification stack) until the earlier one has finished.
\<close>

theorem dependences_sound:
  assumes "dep_run p A s (xs @ (u, j, b) # ys @ (v, j, c) # zs)" (is "dep_run p A s ?H")
    and "length (xs @ (u, j, b) # ys @ (v, j, c) # zs) < 2 ^ 32 - 1"
    and "u \<noteq> v" and "b \<or> c" and "ready s v"
  shows "finished s u"
proof -
  have "run_inv p A s ?H" using dep_run_inv [OF assms(1,2)] .
  then have order: "ordered s ?H" by (rule run_invD)
  have "?H ! length xs = (u, j, b)" "?H ! (length xs + 1 + length ys) = (v, j, c)"
      "length xs + 1 + length ys < length ?H"
    by (simp_all add: nth_append)
  then have "must_wait s u v"
    using assms(3,4) by (intro order [unfolded ordered_def, rule_format,
        of "length xs" "length xs + 1 + length ys" u j b v c]) simp_all
  then show ?thesis using must_wait_ready assms(5) by blast
qed

theorem dependences_sound_witness:
  "\<exists>s. dep_run 0 {1, 2} s [(1, 0, True), (2, 0, True)] \<and> ready s 2 \<and> finished s 1"
proof -
  let ?s0 = "one_parent (\<lambda>_. [])"
  let ?s1 = "snd (new_element SCOOP_OUT_ARG 1 ?s0)"
  let ?s2 = "snd (projr (out_block 1 0 0 (0, ?s1)))"
  let ?s3 = "snd (new_element SCOOP_OUT_ARG 2 ?s2)"
  let ?s4 = "snd (projr (out_block 2 1 0 (0, ?s3)))"
  let ?s5 = "upd_task 1 (\<lambda>d. d\<lparr>status := COMPLETE_TASK, to_notify := NLocked\<rparr>) ?s4"
  note ev = evaluate finished_def trie_blocks_def
  have "dep_run 0 {1, 2} ?s0 []"
    by (rule begin_run) (simp_all add: one_parent_def plain_task_def)
  then have "dep_run 0 {1, 2} ?s1 []"
    by (rule element_out [where type = SCOOP_OUT_ARG and t = 1 and nm = 0]) (simp_all add: ev)
  then have "dep_run 0 {1, 2} ?s2 ([] @ [(1, 0, True)])"
    by (rule do_write [where w = 0 and w' = 0 and nm = 0]) (simp_all add: ev)
  then have "dep_run 0 {1, 2} ?s3 ([] @ [(1, 0, True)])"
    by (rule element_out [where type = SCOOP_OUT_ARG and t = 2 and nm = 1]) (simp_all add: ev)
  then have "dep_run 0 {1, 2} ?s4 (([] @ [(1, 0, True)]) @ [(2, 0, True)])"
    by (rule do_write [where w = 0 and w' = 1 and nm = 1]) (simp_all add: ev)
  moreover have "ready ?s4 1" by (simp add: ev ready_def waits_def)
  ultimately have "dep_run 0 {1, 2} ?s5 (([] @ [(1, 0, True)]) @ [(2, 0, True)])" by (rule do_move) simp
  then have run: "dep_run 0 {1, 2} ?s5 ([] @ (1, 0, True) # [] @ (2, 0, True) # [])" by simp
  have rd: "ready ?s5 2" by (simp add: ev ready_def waits_def)
  from dependences_sound [OF run _ _ _ rd] have "finished ?s5 1" by simp
  with run rd show ?thesis by auto
qed
end
