(* ===== verification/Join.thy ===== *)
theory Join
  imports Deps
begin

text \<open>
  The handshake between the creator of a task (the end of \<open>create_dependencies\<close>) and the
  threads that notify it (the loop of \<open>fire_dependencies\<close>), step by step and in any
  interleaving.  The creator publishes \<open>waitfor\<close> after its pushes; each push that succeeded is a
  notification, which some thread delivers at any later time: it increments \<open>fired\<close>
  atomically, waits for the task to be created, and schedules it when the two counters agree.
\<close>

section \<open>The two programs\<close>

datatype creator_pc = KPush | KStatus | KSchedule | KEnd

text \<open>
  A notification that is delivered carries the value its increment returned (\<open>fired\<close> in the
  source).  \<open>NAbort\<close> is a failed assertion of the loop.
\<close>

datatype notice_pc =
  NWaiting
| NSpin u32
| NAsserts u32
| NStatus u32
| NCount u32
| NCas u32
| NDone u32
| NAbort u32

record join_sys =
  j_waitfor :: u32
  j_fired :: u32
  j_status :: task_status
  creator :: creator_pc
  notices :: "notice_pc list"
  scheduled :: nat

definition join_start :: join_sys where
  "join_start = \<lparr>j_waitfor = 0, j_fired = 0, j_status = CREATING_TASK, creator = KPush,
     notices = [], scheduled = 0\<rparr>"

text \<open>\<open>schedule_task\<close>'s race: the compare-and-swap decides who puts the task in a queue.\<close>

definition schedule_cas :: "join_sys \<Rightarrow> join_sys" where
  "schedule_cas s =
     (if j_status s = CREATED_TASK then s\<lparr>j_status := SCHEDULED_TASK, scheduled := scheduled s + 1\<rparr> else s)"

text \<open>A push that succeeds; the local counter \<open>waitfor\<close> is their number.\<close>

definition push_notice :: "join_sys \<Rightarrow> join_sys" where
  "push_notice s = s\<lparr>notices := notices s @ [NWaiting]\<rparr>"

definition creator_step :: "join_sys \<Rightarrow> join_sys" where
  "creator_step s =
     (case creator s of
        KPush \<Rightarrow>
          if (of_nat (length (notices s)) :: u32) = 0 then s\<lparr>j_status := CREATED_TASK, creator := KSchedule\<rparr>
          else s\<lparr>j_waitfor := of_nat (length (notices s)), creator := KStatus\<rparr>
      | KStatus \<Rightarrow> s\<lparr>j_status := CREATED_TASK, creator := KEnd\<rparr>
      | KSchedule \<Rightarrow> (schedule_cas s)\<lparr>creator := KEnd\<rparr>
      | KEnd \<Rightarrow> s)"

definition notice_step :: "nat \<Rightarrow> join_sys \<Rightarrow> join_sys" where
  "notice_step i s =
     (let at = (\<lambda>pc s. s\<lparr>notices := (notices s)[i := pc]\<rparr>) in
      case notices s ! i of
        NWaiting \<Rightarrow> at (NSpin (j_fired s + 1)) (s\<lparr>j_fired := j_fired s + 1\<rparr>)
      | NSpin f \<Rightarrow> if j_status s < CREATED_TASK then s else at (NAsserts f) s
      | NAsserts f \<Rightarrow>
          if j_waitfor s \<ge> f \<and> f > 0 \<and> j_status s \<ge> CREATED_TASK then at (NStatus f) s else at (NAbort f) s
      | NStatus f \<Rightarrow> if j_status s = CREATED_TASK then at (NCount f) s else at (NDone f) s
      | NCount f \<Rightarrow> if j_waitfor s = f then at (NCas f) s else at (NDone f) s
      | NCas f \<Rightarrow> at (NDone f) (schedule_cas s)
      | NDone f \<Rightarrow> s
      | NAbort f \<Rightarrow> s)"

text \<open>A scheduled task may be executed and released by other threads.\<close>

inductive join_step :: "join_sys \<Rightarrow> join_sys \<Rightarrow> bool" where
  push: "creator s = KPush \<Longrightarrow> join_step s (push_notice s)"
| create: "join_step s (creator_step s)"
| notice: "i < length (notices s) \<Longrightarrow> join_step s (notice_step i s)"
| progress: "SCHEDULED_TASK \<le> j_status s \<Longrightarrow> j_status s \<le> st \<Longrightarrow> join_step s (s\<lparr>j_status := st\<rparr>)"

inductive join_reach :: "join_sys \<Rightarrow> bool" where
  join_init: "join_reach join_start"
| join_next: "join_reach s \<Longrightarrow> join_step s s' \<Longrightarrow> length (notices s') < 2 ^ 32 \<Longrightarrow> join_reach s'"

section \<open>The invariant\<close>

text \<open>The value a delivered notification carries.\<close>

fun ticket :: "notice_pc \<Rightarrow> u32 option" where
  "ticket NWaiting = None"
| "ticket (NSpin f) = Some f"
| "ticket (NAsserts f) = Some f"
| "ticket (NStatus f) = Some f"
| "ticket (NCount f) = Some f"
| "ticket (NCas f) = Some f"
| "ticket (NDone f) = Some f"
| "ticket (NAbort f) = Some f"

definition tickets :: "join_sys \<Rightarrow> u32 list" where
  "tickets s = List.map_filter ticket (notices s)"

definition delivered :: "join_sys \<Rightarrow> nat" where
  "delivered s = length (tickets s)"

text \<open>The tickets drawn so far are 1, 2, \<dots>, in some order.\<close>

definition tickets_ok :: "join_sys \<Rightarrow> bool" where
  "tickets_ok s \<longleftrightarrow> j_fired s = of_nat (delivered s)
     \<and> mset (tickets s) = mset (map of_nat [1..<Suc (delivered s)])"

fun unpublished :: "notice_pc \<Rightarrow> bool" where
  "unpublished NWaiting = True"
| "unpublished (NSpin f) = True"
| "unpublished _ = False"

text \<open>What a notification may do once \<open>waitfor\<close> is published as \<open>c\<close>.\<close>

fun published :: "u32 \<Rightarrow> bool \<Rightarrow> notice_pc \<Rightarrow> bool" where
  "published c hit NWaiting = (\<not> hit)"
| "published c hit (NSpin f) = (f = c \<longrightarrow> \<not> hit)"
| "published c hit (NAsserts f) = (f = c \<longrightarrow> \<not> hit)"
| "published c hit (NStatus f) = (f = c \<longrightarrow> \<not> hit)"
| "published c hit (NCount f) = (f = c \<longrightarrow> \<not> hit)"
| "published c hit (NCas f) = (f = c \<and> \<not> hit)"
| "published c hit (NDone f) = (f = c \<longrightarrow> hit)"
| "published c hit (NAbort f) = False"

definition count :: "join_sys \<Rightarrow> u32" where
  "count s = of_nat (length (notices s))"

definition phase_ok :: "join_sys \<Rightarrow> bool" where
  "phase_ok s \<longleftrightarrow>
     (case creator s of
        KPush \<Rightarrow> j_status s = CREATING_TASK \<and> scheduled s = 0 \<and> j_waitfor s = 0
          \<and> (\<forall>pc \<in> set (notices s). unpublished pc)
      | KStatus \<Rightarrow> j_status s = CREATING_TASK \<and> scheduled s = 0 \<and> j_waitfor s = count s
          \<and> notices s \<noteq> [] \<and> (\<forall>pc \<in> set (notices s). unpublished pc)
      | KSchedule \<Rightarrow> j_status s = CREATED_TASK \<and> scheduled s = 0 \<and> notices s = [] \<and> j_waitfor s = 0
      | KEnd \<Rightarrow> scheduled s \<le> 1 \<and> j_waitfor s = count s
          \<and> (if scheduled s = 1 then SCHEDULED_TASK \<le> j_status s else j_status s = CREATED_TASK)
          \<and> (notices s = [] \<longrightarrow> scheduled s = 1)
          \<and> (\<forall>pc \<in> set (notices s). published (count s) (scheduled s = 1) pc))"

definition join_inv :: "join_sys \<Rightarrow> bool" where
  "join_inv s \<longleftrightarrow> length (notices s) < 2 ^ 32 \<and> tickets_ok s \<and> phase_ok s"

subsection \<open>Tickets\<close>

lemma map_filter_snoc: "List.map_filter g (xs @ [x]) =
    List.map_filter g xs @ (case g x of None \<Rightarrow> [] | Some y \<Rightarrow> [y])"
  by (induction xs) (auto simp: List.map_filter_simps split: option.splits)

lemma map_filter_update_same:
  "i < length xs \<Longrightarrow> g y = g (xs ! i) \<Longrightarrow> List.map_filter g (xs[i := y]) = List.map_filter g xs"
proof (induction xs arbitrary: i)
  case (Cons x xs)
  then show ?case by (cases i) (auto simp: List.map_filter_simps split: option.splits)
qed simp

lemma map_filter_update_new:
  "i < length xs \<Longrightarrow> g (xs ! i) = None \<Longrightarrow> g y = Some v \<Longrightarrow>
    mset (List.map_filter g (xs[i := y])) = add_mset v (mset (List.map_filter g xs))"
proof (induction xs arbitrary: i)
  case (Cons x xs)
  then show ?case by (cases i) (auto simp: List.map_filter_simps split: option.splits)
qed simp

lemma map_filter_mem: "v \<in> set (List.map_filter g xs) \<longleftrightarrow> (\<exists>x \<in> set xs. g x = Some v)"
  by (induction xs) (auto simp: List.map_filter_simps split: option.splits)

lemma map_filter_distinct_index:
  "distinct (List.map_filter g xs) \<Longrightarrow> i < length xs \<Longrightarrow> k < length xs \<Longrightarrow> g (xs ! i) = Some v \<Longrightarrow>
    g (xs ! k) = Some v \<Longrightarrow> i = k"
proof (induction xs arbitrary: i k)
  case (Cons x xs)
  have mem: "v \<in> set (List.map_filter g xs)" if "j < length xs" "g (xs ! j) = Some v" for j
    using that map_filter_mem nth_mem by metis
  show ?case
  proof (cases i)
    case 0
    then show ?thesis using Cons.prems mem by (cases k) (auto simp: List.map_filter_simps)
  next
    case (Suc i')
    show ?thesis
    proof (cases k)
      case 0
      then show ?thesis using Cons.prems Suc mem [of i'] by (auto simp: List.map_filter_simps)
    next
      case (Suc k')
      then show ?thesis using Cons.prems Cons.IH [of i' k'] \<open>i = Suc i'\<close>
        by (auto simp: List.map_filter_simps split: option.splits)
    qed
  qed
qed simp

lemma map_filter_length: "length (List.map_filter g xs) \<le> length xs"
  by (induction xs) (auto simp: List.map_filter_simps split: option.splits)

lemma map_filter_full:
  "length (List.map_filter g xs) = length xs \<Longrightarrow> x \<in> set xs \<Longrightarrow> g x \<noteq> None"
proof (induction xs)
  case (Cons a xs)
  then show ?case using map_filter_length [of g xs]
    by (cases "g a") (auto simp: List.map_filter_simps)
qed simp

subsection \<open>Draws and phases\<close>

lemma tickets_distinct:
  assumes "tickets_ok s" and "length (notices s) < 2 ^ 32"
  shows "distinct (tickets s)" "f \<in> set (tickets s) \<longleftrightarrow> (\<exists>k. 1 \<le> k \<and> k \<le> delivered s \<and> f = of_nat k)"
    "delivered s \<le> length (notices s)"
proof -
  show d: "delivered s \<le> length (notices s)" by (simp add: delivered_def tickets_def map_filter_length)
  have "inj_on (of_nat :: nat \<Rightarrow> u32) {1..<Suc (delivered s)}"
    using d assms(2) by (intro inj_onI of_nat_u32_inj) auto
  then have "distinct (map (of_nat :: nat \<Rightarrow> u32) [1..<Suc (delivered s)])"
    by (simp add: distinct_map del: upt_Suc)
  then show "distinct (tickets s)"
    using assms(1) mset_eq_imp_distinct_iff unfolding tickets_ok_def by blast
  have "set (tickets s) = set (map of_nat [1..<Suc (delivered s)])"
    using assms(1) mset_eq_setD unfolding tickets_ok_def by blast
  then show "f \<in> set (tickets s) \<longleftrightarrow> (\<exists>k. 1 \<le> k \<and> k \<le> delivered s \<and> f = of_nat k)"
    by (auto simp: image_iff simp del: upt_Suc)
qed

text \<open>Moving a notification without drawing a ticket.\<close>

lemma tickets_ok_same:
  assumes "tickets_ok s" and "i < length (notices s)" and "ticket pc = ticket (notices s ! i)"
    and "notices s' = (notices s)[i := pc]" and "j_fired s' = j_fired s"
  shows "tickets_ok s'"
  using assms map_filter_update_same [of i "notices s" ticket pc]
  by (simp add: tickets_ok_def delivered_def tickets_def)

lemma tickets_ok_draw:
  assumes "tickets_ok s" and "i < length (notices s)" and "notices s ! i = NWaiting"
    and "notices s' = (notices s)[i := NSpin (j_fired s + 1)]" and "j_fired s' = j_fired s + 1"
  shows "tickets_ok s'"
proof -
  have m: "mset (tickets s') = add_mset (j_fired s + 1) (mset (tickets s))"
    using assms(2-4) map_filter_update_new [of i "notices s" ticket] by (simp add: tickets_def)
  then have d: "delivered s' = Suc (delivered s)"
    unfolding delivered_def by (metis size_add_mset size_mset)
  have f: "j_fired s = of_nat (delivered s)" using assms(1) by (simp add: tickets_ok_def)
  have "mset (map (of_nat :: nat \<Rightarrow> u32) [1..<Suc (delivered s')])
      = add_mset (of_nat (delivered s')) (mset (map of_nat [1..<Suc (delivered s)]))"
    by (simp add: d)
  then show ?thesis using assms(1,5) m d f by (simp add: tickets_ok_def add.commute del: upt_Suc)
qed

lemma published_after_cas:
  assumes inv: "join_inv s" "creator s = KEnd" and i: "i < length (notices s)" "notices s ! i = NCas f"
    and pc: "k < length (notices s)" "k \<noteq> i"
  shows "published (count s) True (notices s ! k)"
proof -
  have t: "tickets_ok s" "length (notices s) < 2 ^ 32" using inv(1) by (auto simp: join_inv_def)
  note d = tickets_distinct [OF t]
  have p: "\<forall>pc \<in> set (notices s). published (count s) (scheduled s = 1) pc"
    using inv by (simp add: join_inv_def phase_ok_def)
  then have f: "f = count s" using i nth_mem by force
  have "f \<in> set (tickets s)"
    unfolding tickets_def map_filter_mem using nth_mem [OF i(1)] i(2) by (intro bexI) simp_all
  then obtain n where n: "n \<le> delivered s" "f = of_nat n" using d(2) by auto
  have "n = length (notices s)"
    using of_nat_u32_inj [of n "length (notices s)"] n f d(3) t(2) by (simp add: count_def)
  then have all: "delivered s = length (notices s)" using n d(3) by simp
  then have nw: "notices s ! k \<noteq> NWaiting"
    using map_filter_full [of ticket "notices s" "notices s ! k"] pc(1)
    by (auto simp: delivered_def tickets_def)
  have nt: "ticket (notices s ! k) \<noteq> Some (count s)"
    using map_filter_distinct_index [OF d(1) [unfolded tickets_def] i(1) pc(1)] i(2) f pc(2) by auto
  have "published (count s) (scheduled s = 1) (notices s ! k)" using p pc(1) by simp
  then show ?thesis using nw nt by (cases "notices s ! k") auto
qed

lemma all_update: "\<forall>x \<in> set xs. P x \<Longrightarrow> P y \<Longrightarrow> \<forall>x \<in> set (xs[i := y]). P x"
  using set_update_subset_insert [of xs i y] by auto

text \<open>A step of a notification that changes only its position.\<close>

lemma move_notice_inv:
  assumes inv: "join_inv s" and i: "i < length (notices s)" and t: "ticket pc = ticket (notices s ! i)"
    and new: "creator s \<in> {KPush, KStatus} \<Longrightarrow> unpublished pc"
      "creator s = KEnd \<Longrightarrow> published (count s) (scheduled s = 1) pc"
  shows "join_inv (s\<lparr>notices := (notices s)[i := pc]\<rparr>)" (is "join_inv ?s")
proof -
  have "tickets_ok ?s" using tickets_ok_same [OF _ i t] inv by (simp add: join_inv_def)
  moreover have "phase_ok ?s"
  proof -
    have c: "count ?s = count s" "notices s \<noteq> []" "(notices s)[i := pc] \<noteq> []" using i by (auto simp: count_def)
    have ph: "phase_ok s" using inv by (simp add: join_inv_def)
    show ?thesis
    proof (cases "creator s")
      case KPush
      then have "\<forall>x \<in> set ((notices s)[i := pc]). unpublished x"
        using ph new(1) by (intro all_update) (simp_all add: phase_ok_def)
      then show ?thesis using ph KPush by (simp add: phase_ok_def)
    next
      case KStatus
      then have "\<forall>x \<in> set ((notices s)[i := pc]). unpublished x"
        using ph new(1) by (intro all_update) (simp_all add: phase_ok_def)
      then show ?thesis using ph KStatus c by (simp add: phase_ok_def)
    next
      case KSchedule
      then show ?thesis using ph c(2) by (simp add: phase_ok_def)
    next
      case KEnd
      then have "\<forall>x \<in> set ((notices s)[i := pc]). published (count s) (scheduled s = 1) x"
        using ph new(2) by (intro all_update) (simp_all add: phase_ok_def)
      then show ?thesis using ph KEnd c by (simp add: phase_ok_def)
    qed
  qed
  ultimately show ?thesis using inv by (simp add: join_inv_def)
qed

lemma notice_step_inv:
  assumes inv: "join_inv s" and i: "i < length (notices s)"
  shows "join_inv (notice_step i s)"
proof -
  have t: "tickets_ok s" "length (notices s) < 2 ^ 32" and ph: "phase_ok s"
    using inv by (auto simp: join_inv_def)
  have ne: "notices s \<noteq> []" "creator s \<noteq> KSchedule" using i ph by (auto simp: phase_ok_def)
  have mem: "notices s ! i \<in> set (notices s)" using i by simp
  have early: "unpublished (notices s ! i) \<and> j_status s = CREATING_TASK" if "creator s \<in> {KPush, KStatus}"
    using that ph mem by (auto simp: phase_ok_def)
  have late: "published (count s) (scheduled s = 1) (notices s ! i)" if "creator s = KEnd"
    using that ph mem by (auto simp: phase_ok_def)
  have cr: "creator s = KEnd" if "\<not> unpublished (notices s ! i)"
    using that early ne by (cases "creator s") auto
  note move = move_notice_inv [OF inv i]
  show ?thesis
  proof (cases "notices s ! i")
    case NWaiting
    let ?s = "s\<lparr>j_fired := j_fired s + 1, notices := (notices s)[i := NSpin (j_fired s + 1)]\<rparr>"
    have "tickets_ok ?s" using tickets_ok_draw [OF t(1) i NWaiting] by simp
    moreover have "phase_ok ?s"
      using ph ne late NWaiting all_update [of "notices s" unpublished "NSpin (j_fired s + 1)" i]
        all_update [of "notices s" "published (count s) (scheduled s = 1)" "NSpin (j_fired s + 1)" i]
      by (cases "creator s") (auto simp: phase_ok_def count_def)
    ultimately show ?thesis using t(2) NWaiting by (simp add: join_inv_def notice_step_def Let_def)
  next
    case (NSpin f)
    have "join_inv (s\<lparr>notices := (notices s)[i := NAsserts f]\<rparr>)" if "\<not> j_status s < CREATED_TASK"
      by (rule move) (use NSpin early late that in \<open>auto simp: less_task_status_def\<close>)
    then show ?thesis using NSpin inv by (simp add: notice_step_def)
  next
    case (NAsserts f)
    have "f \<in> set (tickets s)"
      unfolding tickets_def map_filter_mem using mem NAsserts by (intro bexI) simp_all
    then obtain n where n: "1 \<le> n" "n \<le> delivered s" "f = of_nat n"
      using tickets_distinct(2) [OF t] by auto
    have u: "unat f = n" "unat (count s) = length (notices s)"
      using n t(2) tickets_distinct(3) [OF t] by (simp_all add: unat_of_nat_u32 count_def)
    have "creator s = KEnd" using cr NAsserts by simp
    then have "j_waitfor s \<ge> f \<and> f > 0 \<and> j_status s \<ge> CREATED_TASK"
      using ph u n tickets_distinct(3) [OF t]
      by (auto simp: phase_ok_def word_le_nat_alt word_less_nat_alt less_eq_task_status_def split: if_splits)
    then have "notice_step i s = s\<lparr>notices := (notices s)[i := NStatus f]\<rparr>"
      using NAsserts by (simp add: notice_step_def)
    then show ?thesis using move [of "NStatus f"] cr late NAsserts by simp
  next
    case (NStatus f)
    have "creator s = KEnd" using cr NStatus by simp
    then have "join_inv (s\<lparr>notices := (notices s)[i := NDone f]\<rparr>)" if "j_status s \<noteq> CREATED_TASK"
      using that ph move [of "NDone f"] NStatus by (auto simp: phase_ok_def split: if_splits)
    then show ?thesis using NStatus move [of "NCount f"] cr late by (simp add: notice_step_def)
  next
    case (NCount f)
    have "creator s = KEnd" using cr NCount by simp
    then have "j_waitfor s = count s" using ph by (simp add: phase_ok_def)
    then show ?thesis using NCount move [of "NCas f"] move [of "NDone f"] cr late
      by (auto simp: notice_step_def)
  next
    case (NCas f)
    have k: "creator s = KEnd" using cr NCas by simp
    have l: "f = count s" "scheduled s \<noteq> 1" using late [OF k] NCas by simp_all
    then have st: "j_status s = CREATED_TASK" "scheduled s = 0" using ph k by (auto simp: phase_ok_def)
    let ?s = "s\<lparr>j_status := SCHEDULED_TASK, scheduled := 1, notices := (notices s)[i := NDone f]\<rparr>"
    have "published (count s) True pc" if m: "pc \<in> set ((notices s)[i := NDone f])" for pc
    proof -
      obtain k where k': "k < length (notices s)" "pc = (notices s)[i := NDone f] ! k"
        using m unfolding in_set_conv_nth by auto
      show ?thesis
        using k' l published_after_cas [OF inv k i NCas k'(1)] by (cases "k = i") auto
    qed
    then have "phase_ok ?s" using k ph l by (simp add: phase_ok_def count_def)
    moreover have "tickets_ok ?s" using tickets_ok_same [OF t(1) i, of "NDone f"] NCas by simp
    moreover have "notice_step i s = ?s" using NCas st by (simp add: notice_step_def schedule_cas_def)
    ultimately show ?thesis using t(2) by (simp add: join_inv_def)
  qed (use inv in \<open>simp_all add: notice_step_def\<close>)
qed

lemma join_step_inv:
  assumes "join_step s s'" and "join_inv s" and "length (notices s') < 2 ^ 32"
  shows "join_inv s'"
  using assms
proof (induction rule: join_step.induct)
  case (push s)
  then have "tickets_ok (push_notice s)"
    by (simp add: join_inv_def tickets_ok_def delivered_def tickets_def push_notice_def map_filter_snoc)
  with push show ?case by (simp add: join_inv_def phase_ok_def push_notice_def)
next
  case (create s)
  have t: "tickets_ok (creator_step s)"
    using create(1) by (auto simp: join_inv_def tickets_ok_def delivered_def tickets_def creator_step_def
        schedule_cas_def split: creator_pc.split)
  have z: "count s = 0 \<longleftrightarrow> notices s = []"
    using create(1) of_nat_u32_inj [of "length (notices s)" 0] by (auto simp: join_inv_def count_def)
  have p: "published c False pc" if "unpublished pc" for c pc using that by (cases pc) auto
  show ?case
    using create(1) t z p
    by (cases "creator s") (auto simp: join_inv_def phase_ok_def creator_step_def schedule_cas_def count_def)
next
  case (notice i s)
  then show ?case by (simp add: notice_step_inv)
next
  case (progress s st)
  then have "j_status s \<noteq> CREATED_TASK" "j_status s \<noteq> CREATING_TASK"
    by (auto simp: less_eq_task_status_def word_le_nat_alt)
  moreover have "SCHEDULED_TASK \<le> st" using progress(1,2) by (rule order_trans)
  moreover have "tickets_ok (s\<lparr>j_status := st\<rparr>)"
    using progress(3) by (simp add: join_inv_def tickets_ok_def delivered_def tickets_def)
  ultimately show ?case using progress(3)
    by (cases "creator s") (auto simp: join_inv_def phase_ok_def count_def split: if_splits)
qed

lemma join_reach_inv: "join_reach s \<Longrightarrow> join_inv s"
proof (induction rule: join_reach.induct)
  case join_init
  show ?case by (simp add: join_inv_def tickets_ok_def phase_ok_def join_start_def delivered_def
        tickets_def List.map_filter_simps)
next
  case (join_next s s')
  then show ?case using join_step_inv by blast
qed

text \<open>The run with one notification, delivered before the task is published.\<close>

definition one_notice :: join_sys where
  "one_notice = (notice_step 0 ^^ 5) (creator_step (creator_step (notice_step 0 (push_notice join_start))))"

lemma notices_steps [simp]:
  "length (notices (creator_step s)) = length (notices s)"
  "length (notices (notice_step i s)) = length (notices s)"
  by (auto simp: creator_step_def notice_step_def schedule_cas_def Let_def
      split: creator_pc.split notice_pc.split)

lemma join_reach_steps:
  assumes "join_reach s" and "length (notices s) < 2 ^ 32"
  shows "join_reach (creator_step s)" "i < length (notices s) \<Longrightarrow> join_reach (notice_step i s)"
proof -
  show "join_reach (creator_step s)"
    by (rule join_next [OF assms(1) join_step.create]) (use assms(2) in simp)
  show "join_reach (notice_step i s)" if "i < length (notices s)"
    by (rule join_next [OF assms(1) join_step.notice [OF that]]) (use assms(2) in simp)
qed

lemma one_notice_reach: "join_reach one_notice"
proof -
  have n: "join_reach ((notice_step 0 ^^ k) s) \<and> length (notices ((notice_step 0 ^^ k) s)) = 1"
    if "join_reach s" "length (notices s) = 1" for s k
    using that by (induction k) (auto intro: join_reach_steps)
  have "join_reach (push_notice join_start)"
    by (rule join_next [OF join_init join_step.push]) (simp_all add: join_start_def push_notice_def)
  moreover have "length (notices (push_notice join_start)) = 1" by (simp add: join_start_def push_notice_def)
  ultimately have "join_reach (creator_step (creator_step (notice_step 0 (push_notice join_start))))"
    by (intro join_reach_steps) simp_all
  then show ?thesis unfolding one_notice_def
    using n [of "creator_step (creator_step (notice_step 0 (push_notice join_start)))" 5]
    by (simp add: join_start_def push_notice_def)
qed

lemma one_notice_end: "one_notice = \<lparr>j_waitfor = 1, j_fired = 1, j_status = SCHEDULED_TASK,
    creator = KEnd, notices = [NDone 1], scheduled = 1\<rparr>"
  by (simp add: one_notice_def notice_step_def creator_step_def push_notice_def join_start_def
      schedule_cas_def less_task_status_def less_eq_task_status_def eval_nat_numeral)

section \<open>Properties\<close>

text \<open>
  C19: in every interleaving of the creator with the deliveries of its (fewer than \<open>2 ^ 32\<close>)
  notifications the task is scheduled at most once, only after the creator has published it and
  every notification has incremented \<open>fired\<close>, and no assertion of \<open>fire_dependencies\<close> fails.
\<close>

theorem join_schedules_once:
  assumes "join_reach s"
  shows "scheduled s \<le> 1
    \<and> (scheduled s = 1 \<longrightarrow> creator s = KEnd \<and> (\<forall>pc \<in> set (notices s). pc \<noteq> NWaiting))
    \<and> (\<forall>pc \<in> set (notices s). \<forall>f. pc \<noteq> NAbort f)"
proof -
  have ph: "phase_ok s" using join_reach_inv [OF assms] by (simp add: join_inv_def)
  have "unpublished pc \<Longrightarrow> pc \<noteq> NAbort f" "published c h pc \<Longrightarrow> pc \<noteq> NAbort f"
      "published c True pc \<Longrightarrow> pc \<noteq> NWaiting" for pc f c h
    by (cases pc; simp)+
  then show ?thesis using ph unfolding phase_ok_def by (cases "creator s") fastforce+
qed

theorem join_schedules_once_witness:
  "scheduled one_notice = 1 \<and> NWaiting \<notin> set (notices one_notice) \<and> NAbort 1 \<notin> set (notices one_notice)"
  using join_schedules_once [OF one_notice_reach] by (simp add: one_notice_end)

text \<open>
  C20: no wake-up is lost: when the creator has returned and every notification has been delivered
  and has left the loop, the task has been scheduled exactly once.
\<close>

theorem join_schedules:
  assumes "join_reach s" and "creator s = KEnd" and "\<forall>pc \<in> set (notices s). \<exists>f. pc = NDone f"
  shows "scheduled s = 1"
proof (rule ccontr)
  assume n: "scheduled s \<noteq> 1"
  have inv: "join_inv s" using join_reach_inv [OF assms(1)] .
  then have t: "tickets_ok s" "length (notices s) < 2 ^ 32" and ph: "phase_ok s" by (auto simp: join_inv_def)
  have ne: "notices s \<noteq> []" using ph n assms(2) by (auto simp: phase_ok_def)
  have "List.map_filter ticket xs = map (\<lambda>pc. the (ticket pc)) xs" if "\<forall>pc \<in> set xs. \<exists>f. pc = NDone f" for xs
    using that by (induction xs) (auto simp: List.map_filter_simps)
  then have "delivered s = length (notices s)" using assms(3) by (simp add: delivered_def tickets_def)
  moreover have "0 < length (notices s)" using ne by simp
  ultimately have "1 \<le> length (notices s) \<and> length (notices s) \<le> delivered s
      \<and> count s = of_nat (length (notices s))" by (simp add: count_def Suc_le_eq)
  then have "count s \<in> set (tickets s)" using tickets_distinct(2) [OF t] by blast
  then obtain pc where "pc \<in> set (notices s)" "ticket pc = Some (count s)"
    unfolding tickets_def map_filter_mem by blast
  moreover have "published (count s) False pc" if "pc \<in> set (notices s)" for pc
    using ph n assms(2) that by (auto simp: phase_ok_def split: if_splits)
  ultimately show False using assms(3) by force
qed

theorem join_schedules_witness: "scheduled one_notice = 1"
  by (rule join_schedules [OF one_notice_reach]) (simp_all add: one_notice_end)

end
