(* ===== verification/Release.thy ===== *)
theory Release
  imports Deps
begin

text \<open>
  Who releases a task: the race between the end of \<open>execute_task\<close> and the children of the task,
  each of which decrements \<open>number_of_children\<close> at the end of its own \<open>release_task\<close> and
  releases the parent when it was the last.  Every access to the two shared fields is a step, in any
  interleaving.
\<close>

section \<open>The programs\<close>

text \<open>
  The worker that executes the task: its body (which spawns children with \<open>tpc_call\<close>), the
  store of \<open>EXECUTED_TASK\<close> and the test of the counter, and the compare-and-swap at the head of
  \<open>release_task\<close>.
\<close>

datatype body_pc = BRun | BTest | BCas | BEnd

text \<open>
  A child: running; holding the value of its decrement; about to call \<open>release_task\<close> on the
  parent; past it.
\<close>

datatype child_pc = CRun | CCheck u32 | CCas | CDone

record rel_sys =
  r_children :: u32
  r_status :: task_status
  body :: body_pc
  kids :: "child_pc list"
  releases :: nat

definition rel_start :: rel_sys where
  "rel_start = \<lparr>r_children = 0, r_status = SCHEDULED_TASK, body = BRun, kids = [], releases = 0\<rparr>"

text \<open>\<open>tpc_call\<close> of a child: the parent's counter goes up before the analysis.\<close>

definition spawn_child :: "rel_sys \<Rightarrow> rel_sys" where
  "spawn_child s = s\<lparr>r_children := r_children s + 1, kids := kids s @ [CRun]\<rparr>"

text \<open>The first statement of \<open>release_task\<close>; the winner goes on to \<open>fire_dependencies\<close>.\<close>

definition release_cas :: "rel_sys \<Rightarrow> rel_sys" where
  "release_cas s =
     (if r_status s = EXECUTED_TASK then s\<lparr>r_status := RELEASING_TASK, releases := releases s + 1\<rparr> else s)"

definition body_step :: "rel_sys \<Rightarrow> rel_sys" where
  "body_step s =
     (case body s of
        BRun \<Rightarrow> s\<lparr>r_status := EXECUTED_TASK, body := BTest\<rparr>
      | BTest \<Rightarrow> if sint (r_children s) > 0 then s\<lparr>body := BEnd\<rparr> else s\<lparr>body := BCas\<rparr>
      | BCas \<Rightarrow> (release_cas s)\<lparr>body := BEnd\<rparr>
      | BEnd \<Rightarrow> s)"

definition child_step :: "nat \<Rightarrow> rel_sys \<Rightarrow> rel_sys" where
  "child_step i s =
     (let at = (\<lambda>pc s. s\<lparr>kids := (kids s)[i := pc]\<rparr>) in
      case kids s ! i of
        CRun \<Rightarrow> at (CCheck (r_children s - 1)) (s\<lparr>r_children := r_children s - 1\<rparr>)
      | CCheck children \<Rightarrow>
          if children = 0 \<and> r_status s = EXECUTED_TASK then at CCas s else at CDone s
      | CCas \<Rightarrow> at CDone (release_cas s)
      | CDone \<Rightarrow> s)"

inductive rel_step :: "rel_sys \<Rightarrow> rel_sys \<Rightarrow> bool" where
  spawn: "body s = BRun \<Longrightarrow> rel_step s (spawn_child s)"
| body: "rel_step s (body_step s)"
| child: "i < length (kids s) \<Longrightarrow> rel_step s (child_step i s)"
| progress: "RELEASING_TASK \<le> r_status s \<Longrightarrow> r_status s \<le> st \<Longrightarrow> rel_step s (s\<lparr>r_status := st\<rparr>)"

inductive rel_reach :: "rel_sys \<Rightarrow> bool" where
  rel_init: "rel_reach rel_start"
| rel_next: "rel_reach s \<Longrightarrow> rel_step s s' \<Longrightarrow> length (kids s') < 2 ^ 31 \<Longrightarrow> rel_reach s'"

text \<open>
  The runs in which no child is spawned while another sits between a decrement that returned 0 and
  its look at the parent's status.
\<close>

definition stale :: "rel_sys \<Rightarrow> bool" where
  "stale s \<longleftrightarrow> CCheck 0 \<in> set (kids s)"

inductive rel_tidy :: "rel_sys \<Rightarrow> bool" where
  tidy_init: "rel_tidy rel_start"
| tidy_next: "rel_tidy s \<Longrightarrow> rel_step s s' \<Longrightarrow> length (kids s') < 2 ^ 31 \<Longrightarrow>
    (length (kids s') > length (kids s) \<longrightarrow> \<not> stale s) \<Longrightarrow> rel_tidy s'"

section \<open>The invariant\<close>

definition running :: "rel_sys \<Rightarrow> nat" where
  "running s = count_list (kids s) CRun"

definition rel_inv :: "rel_sys \<Rightarrow> bool" where
  "rel_inv s \<longleftrightarrow> length (kids s) < 2 ^ 31 \<and> r_children s = of_nat (running s)
     \<and> (if body s = BRun then r_status s = SCHEDULED_TASK \<and> releases s = 0 \<and> CCas \<notin> set (kids s)
        else releases s = 0 \<and> r_status s = EXECUTED_TASK \<or> releases s = 1 \<and> RELEASING_TASK \<le> r_status s)
     \<and> (body s = BEnd \<and> releases s = 0 \<longrightarrow> 0 < running s \<or> stale s \<or> CCas \<in> set (kids s))"

text \<open>In tidy runs whoever is about to release the task does so with no child running.\<close>

definition tidy_inv :: "rel_sys \<Rightarrow> bool" where
  "tidy_inv s \<longleftrightarrow> (stale s \<or> CCas \<in> set (kids s) \<or> body s = BCas \<or> releases s = 1 \<longrightarrow> running s = 0)"

lemma not_releasing_executed [simp]: "\<not> RELEASING_TASK \<le> EXECUTED_TASK"
  by (simp add: less_eq_task_status_def)

lemma count_list_update:
  "i < length xs \<Longrightarrow> count_list (xs[i := y]) x + (if xs ! i = x then 1 else 0)
     = count_list xs x + (if y = x then 1 else 0)"
proof (induction xs arbitrary: i)
  case (Cons a xs)
  show ?case
  proof (cases i)
    case (Suc k)
    then show ?thesis using Cons.IH [of k] Cons.prems by (simp split: if_splits)
  qed simp
qed simp

lemma running_le: "running s \<le> length (kids s)"
  by (simp add: running_def count_le_length)

lemma children_zero: "rel_inv s \<Longrightarrow> r_children s = 0 \<longleftrightarrow> running s = 0"
  using running_le [of s] of_nat_u32_inj [of "running s" 0] by (auto simp: rel_inv_def)

lemma children_positive: "rel_inv s \<Longrightarrow> sint (r_children s) > 0 \<longleftrightarrow> running s > 0"
proof -
  assume inv: "rel_inv s"
  have "running s < 2 ^ 31" using inv running_le [of s] by (simp add: rel_inv_def)
  then have "sint (of_nat (running s) :: u32) = int (running s)"
    by (simp add: signed_of_nat signed_take_bit_int_eq_self)
  then show ?thesis using inv by (simp add: rel_inv_def)
qed

lemma child_run_step:
  assumes "i < length (kids s)" and "kids s ! i = CRun"
  shows "running (child_step i s) + 1 = running s"
    "set (kids (child_step i s)) \<subseteq> insert (CCheck (r_children s - 1)) (set (kids s))"
    "CCheck (r_children s - 1) \<in> set (kids (child_step i s))"
  using assms count_list_update [OF assms(1), of "CCheck (r_children s - 1)" CRun]
    set_update_subset_insert [of "kids s" i] set_update_memI [OF assms(1)]
  by (simp_all add: child_step_def running_def)

lemma child_other_step:
  assumes "i < length (kids s)" and "pc \<noteq> CRun" and "kids s ! i \<noteq> CRun" and "kids s' = (kids s)[i := pc]"
  shows "running s' = running s" "x \<in> set (kids s') \<Longrightarrow> x = pc \<or> x \<in> set (kids s)"
    "x \<in> set (kids s) \<Longrightarrow> x \<noteq> kids s ! i \<Longrightarrow> x \<in> set (kids s')" "pc \<in> set (kids s')"
proof -
  show "running s' = running s"
    using assms count_list_update [OF assms(1), of pc CRun] by (simp add: running_def)
  show "x \<in> set (kids s') \<Longrightarrow> x = pc \<or> x \<in> set (kids s)"
    using set_update_subset_insert [of "kids s" i pc] assms(4) by auto
  show "pc \<in> set (kids s')" using set_update_memI [OF assms(1)] assms(4) by simp
  show "x \<in> set (kids s')" if x: "x \<in> set (kids s)" "x \<noteq> kids s ! i"
  proof -
    obtain k where "k < length (kids s)" "kids s ! k = x" using x(1) unfolding in_set_conv_nth by blast
    moreover from this x(2) have "k \<noteq> i" by auto
    ultimately show ?thesis using assms(4) nth_mem [of k "kids s'"] by simp
  qed
qed

lemma child_step_inv:
  assumes inv: "rel_inv s" and i: "i < length (kids s)"
  shows "rel_inv (child_step i s)"
proof (cases "kids s ! i")
  case CRun
  let ?s = "child_step i s"
  note r = child_run_step [OF i CRun]
  have c: "r_children ?s = r_children s - 1" "body ?s = body s" "r_status ?s = r_status s"
      "releases ?s = releases s" "length (kids ?s) = length (kids s)"
    using CRun by (simp_all add: child_step_def)
  have n: "r_children ?s = of_nat (running ?s)"
    using inv c(1) r(1) by (simp add: rel_inv_def flip: r(1))
  have "stale ?s" if "running ?s = 0"
    using r(3) n c(1) that by (simp add: stale_def)
  moreover have "CCas \<in> set (kids ?s) \<Longrightarrow> CCas \<in> set (kids s)" using r(2) by auto
  ultimately show ?thesis using inv c n by (auto simp: rel_inv_def)
next
  case (CCheck ch)
  show ?thesis
  proof (cases "ch = 0 \<and> r_status s = EXECUTED_TASK")
    case True
    let ?s = "s\<lparr>kids := (kids s)[i := CCas]\<rparr>"
    have "running ?s = running s" "CCas \<in> set (kids ?s)" using child_other_step(1,4) [OF i, of CCas ?s] CCheck by simp_all
    moreover have "body s \<noteq> BRun" using True inv by (auto simp: rel_inv_def)
    ultimately have "rel_inv ?s" using inv by (auto simp: rel_inv_def)
    then show ?thesis using True CCheck by (simp add: child_step_def)
  next
    case False
    let ?s = "s\<lparr>kids := (kids s)[i := CDone]\<rparr>"
    have r: "running ?s = running s" "CCas \<in> set (kids ?s) \<longleftrightarrow> CCas \<in> set (kids s)"
      using child_other_step [OF i, of CDone ?s] CCheck by auto
    have "stale ?s \<or> ch = 0" if "stale s"
      using that child_other_step(3) [OF i, of CDone ?s "CCheck 0"] CCheck by (auto simp: stale_def)
    then have "stale ?s" if "stale s" "body s = BEnd" "releases s = 0"
      using that False inv by (auto simp: rel_inv_def)
    then have "rel_inv ?s" using inv r by (auto simp: rel_inv_def)
    then show ?thesis using False CCheck by (auto simp: child_step_def)
  qed
next
  case CCas
  let ?s = "child_step i s"
  have k: "kids ?s = (kids s)[i := CDone]" "body ?s = body s" "r_children ?s = r_children s"
    using CCas by (simp_all add: child_step_def release_cas_def)
  have r: "running ?s = running s" using child_other_step(1) [OF i _ _ k(1)] CCas by simp
  have "body s \<noteq> BRun" using inv CCas i nth_mem by (fastforce simp: rel_inv_def)
  moreover have "releases ?s = 1 \<and> RELEASING_TASK \<le> r_status ?s"
    using inv \<open>body s \<noteq> BRun\<close> CCas by (auto simp: rel_inv_def child_step_def release_cas_def)
  ultimately show ?thesis using inv k r by (simp add: rel_inv_def)
next
  case CDone
  then show ?thesis using inv by (simp add: child_step_def)
qed

lemma rel_step_inv:
  assumes "rel_step s s'" and "rel_inv s" and "length (kids s') < 2 ^ 31"
  shows "rel_inv s'"
  using assms
proof (induction rule: rel_step.induct)
  case (spawn s)
  then show ?case by (auto simp: rel_inv_def spawn_child_def running_def stale_def)
next
  case (body s)
  have "rel_inv (body_step s)"
    using body(1) children_positive [OF body(1)] not_releasing_executed
    by (cases "body s") (auto simp: rel_inv_def body_step_def release_cas_def running_def stale_def)
  then show ?case .
next
  case (child i s)
  then show ?case by (simp add: child_step_inv)
next
  case (progress s st)
  then have "r_status s \<noteq> SCHEDULED_TASK" "r_status s \<noteq> EXECUTED_TASK" "RELEASING_TASK \<le> st"
    by (auto simp: less_eq_task_status_def word_le_nat_alt)
  then show ?case using progress(3) by (auto simp: rel_inv_def running_def stale_def)
qed

lemma rel_reach_inv: "rel_reach s \<Longrightarrow> rel_inv s"
proof (induction rule: rel_reach.induct)
  case rel_init
  show ?case by (simp add: rel_inv_def rel_start_def running_def)
next
  case (rel_next s s')
  then show ?case using rel_step_inv by blast
qed

lemma tidy_inv_step:
  assumes "rel_step s s'" and "rel_inv s" and "tidy_inv s"
    and "length (kids s') > length (kids s) \<longrightarrow> \<not> stale s"
  shows "tidy_inv s'"
  using assms
proof (induction rule: rel_step.induct)
  case (spawn s)
  then show ?case by (auto simp: rel_inv_def tidy_inv_def spawn_child_def stale_def)
next
  case (body s)
  have "kids (body_step s) = kids s"
    by (simp add: body_step_def release_cas_def split: body_pc.split)
  then have same: "running (body_step s) = running s" "stale (body_step s) = stale s"
      "kids (body_step s) = kids s" by (simp_all add: running_def stale_def)
  have pos: "body (body_step s) = BCas \<longrightarrow> running s = 0" if "body s = BTest"
    using children_positive [OF body(1)] that by (cases "running s = 0") (simp_all add: body_step_def)
  show ?case
  proof (cases "body s")
    case BTest
    then show ?thesis using body(2) pos [OF BTest] same
      by (auto simp: tidy_inv_def body_step_def split: if_splits)
  next
    case BCas
    then show ?thesis using body(2) same by (simp add: tidy_inv_def)
  qed (use body(1,2) same in \<open>auto simp: tidy_inv_def body_step_def rel_inv_def\<close>)
next
  case (child i s)
  let ?s = "child_step i s"
  have b: "body ?s = body s" by (auto simp: child_step_def release_cas_def Let_def split: child_pc.split)
  show ?case
  proof (cases "kids s ! i")
    case CRun
    note r = child_run_step [OF child(1) CRun]
    have c: "r_children ?s = r_children s - 1" "releases ?s = releases s"
      using CRun by (simp_all add: child_step_def)
    have "running ?s = 0" if "r_children s - 1 = 0"
    proof -
      have "(of_nat (running s) :: u32) = of_nat 1" using child(2) that by (simp add: rel_inv_def)
      moreover have "running s < 2 ^ 32" using child(2) running_le [of s] by (simp add: rel_inv_def)
      ultimately have "running s = 1" by (intro of_nat_u32_inj) simp_all
      then show ?thesis using r(1) by simp
    qed
    moreover have "running s \<noteq> 0" using r(1) by simp
    ultimately show ?thesis using child(3) b c r(2) by (auto simp: tidy_inv_def stale_def)
  next
    case (CCheck ch)
    obtain pc where pc: "kids ?s = (kids s)[i := pc]" "pc = CCas \<and> ch = 0 \<or> pc = CDone" "releases ?s = releases s"
      by (rule that [of "if ch = 0 \<and> r_status s = EXECUTED_TASK then CCas else CDone"])
        (use CCheck in \<open>simp_all add: child_step_def\<close>)
    have "running ?s = running s" using child_other_step(1) [OF child(1) _ _ pc(1)] pc(2) CCheck by auto
    moreover have "x = pc \<or> x \<in> set (kids s)" if "x \<in> set (kids ?s)" for x
      using child_other_step(2) [OF child(1) _ _ pc(1) that] pc(2) CCheck by auto
    moreover have "stale s" if "ch = 0" using nth_mem [OF child(1)] CCheck that by (simp add: stale_def)
    ultimately show ?thesis using child(3) b pc(2,3) by (fastforce simp: tidy_inv_def stale_def)
  next
    case CCas
    have k: "kids ?s = (kids s)[i := CDone]" using CCas by (simp add: child_step_def release_cas_def)
    have "running ?s = running s" using child_other_step(1) [OF child(1) _ _ k] CCas by simp
    moreover have "CCas \<in> set (kids s)" using nth_mem [OF child(1)] CCas by simp
    ultimately show ?thesis using child(3) by (simp add: tidy_inv_def)
  next
    case CDone
    then show ?thesis using child(3) by (simp add: child_step_def)
  qed
next
  case (progress s st)
  then show ?case by (simp add: tidy_inv_def running_def stale_def)
qed

lemma rel_tidy_inv: "rel_tidy s \<Longrightarrow> rel_inv s \<and> tidy_inv s"
proof (induction rule: rel_tidy.induct)
  case tidy_init
  show ?case by (simp add: rel_inv_def tidy_inv_def rel_start_def running_def stale_def)
next
  case (tidy_next s s')
  then show ?case using rel_step_inv tidy_inv_step by blast
qed

section \<open>Concrete runs\<close>

text \<open>Steps named by who takes them, for building runs.\<close>

datatype rel_move = MSpawn | MBody | MChild nat

fun rel_do :: "rel_move \<Rightarrow> rel_sys \<Rightarrow> rel_sys" where
  "rel_do MSpawn s = spawn_child s"
| "rel_do MBody s = body_step s"
| "rel_do (MChild i) s = child_step i s"

fun rel_can :: "rel_move \<Rightarrow> rel_sys \<Rightarrow> bool" where
  "rel_can MSpawn s = (body s = BRun \<and> \<not> stale s)"
| "rel_can MBody s = True"
| "rel_can (MChild i) s = (i < length (kids s))"

fun rel_all :: "rel_move list \<Rightarrow> rel_sys \<Rightarrow> rel_sys" where
  "rel_all [] s = s"
| "rel_all (m # ms) s = rel_all ms (rel_do m s)"

fun rel_allowed :: "rel_move list \<Rightarrow> rel_sys \<Rightarrow> bool" where
  "rel_allowed [] s = True"
| "rel_allowed (m # ms) s = (rel_can m s \<and> rel_allowed ms (rel_do m s))"

lemma rel_do_kids: "length (kids (rel_do m s)) = length (kids s) + (if m = MSpawn then 1 else 0)"
  by (cases m) (auto simp: spawn_child_def body_step_def child_step_def release_cas_def Let_def
      split: body_pc.split child_pc.split)

lemma rel_all_tidy:
  "rel_tidy s \<Longrightarrow> rel_allowed ms s \<Longrightarrow> length (kids s) + length ms < 2 ^ 31 \<Longrightarrow> rel_tidy (rel_all ms s)"
proof (induction ms arbitrary: s)
  case (Cons m ms)
  have "rel_step s (rel_do m s)" using Cons.prems(2) by (cases m) (auto intro: rel_step.intros)
  then have "rel_tidy (rel_do m s)"
    by (rule tidy_next [OF Cons.prems(1)]) (use Cons.prems(2,3) rel_do_kids [of m s] in \<open>cases m; auto\<close>)+
  then show ?case using Cons.IH [of "rel_do m s"] Cons.prems(2,3) rel_do_kids [of m s] by (auto split: if_splits)
qed simp

lemma rel_tidy_reach: "rel_tidy s \<Longrightarrow> rel_reach s"
  by (induction rule: rel_tidy.induct) (auto intro: rel_reach.intros)

text \<open>A task with two children, the second of which finishes last.\<close>

definition two_children :: rel_sys where
  "two_children = rel_all [MSpawn, MSpawn, MChild 0, MBody, MBody, MChild 0, MChild 1, MChild 1, MChild 1] rel_start"

lemmas rel_eval = spawn_child_def body_step_def child_step_def release_cas_def rel_start_def stale_def

lemma two_children_tidy: "rel_tidy two_children"
  unfolding two_children_def by (rule rel_all_tidy [OF tidy_init]) (simp_all add: rel_eval)

lemma two_children_end: "releases two_children = 1 \<and> body two_children = BEnd
    \<and> kids two_children = [CDone, CDone]"
  by (simp add: two_children_def rel_eval)

section \<open>Properties\<close>

text \<open>
  C21: a task is released at most once and never before its body has returned, in every interleaving
  of its worker with its children; and no release is lost: when the worker and all children are
  past the protocol the task has been released.
\<close>

theorem release_once:
  assumes "rel_reach s"
  shows "releases s \<le> 1 \<and> (releases s = 1 \<longrightarrow> body s \<noteq> BRun)
    \<and> (body s = BEnd \<and> set (kids s) \<subseteq> {CDone} \<longrightarrow> releases s = 1)"
proof -
  have inv: "rel_inv s" using rel_reach_inv [OF assms] .
  have "running s = 0 \<and> \<not> stale s \<and> CCas \<notin> set (kids s)" if "set (kids s) \<subseteq> {CDone}"
    using that by (auto simp: running_def stale_def count_list_0_iff)
  then show ?thesis using inv by (auto simp: rel_inv_def split: if_splits)
qed

theorem release_once_witness: "releases two_children = 1"
  using release_once [OF rel_tidy_reach [OF two_children_tidy]] two_children_end by auto

text \<open>
  C22: if the body never spawns a child while another child is between a decrement that returned 0
  and its look at the parent's status, the task is released only when no child is running.
\<close>

theorem release_after_children:
  assumes "rel_tidy s" and "releases s = 1"
  shows "CRun \<notin> set (kids s)"
  using rel_tidy_inv [OF assms(1)] assms(2) by (simp add: tidy_inv_def running_def count_list_0_iff)

theorem release_after_children_witness: "CRun \<notin> set (kids two_children)"
  by (rule release_after_children [OF two_children_tidy]) (simp add: two_children_end)

text \<open>
  C23: without that proviso a task is released while a child is running: the first child decrements
  the counter to 0 and is delayed, the body spawns a second child and returns, and the first child
  then finds the parent executed and releases it.
\<close>

theorem release_race:
  "\<exists>s. rel_reach s \<and> releases s = 1 \<and> r_status s = RELEASING_TASK \<and> CRun \<in> set (kids s) \<and> r_children s = 1"
proof -
  let ?s1 = "child_step 0 (spawn_child rel_start)"
  let ?s2 = "body_step (body_step (spawn_child ?s1))"
  let ?s3 = "child_step 0 (child_step 0 ?s2)"
  have "rel_reach (spawn_child rel_start)"
    by (rule rel_next [OF rel_init rel_step.spawn]) (simp_all add: rel_eval)
  then have "rel_reach ?s1" by (rule rel_next [OF _ rel_step.child]) (simp_all add: rel_eval)
  then have "rel_reach (spawn_child ?s1)" by (rule rel_next [OF _ rel_step.spawn]) (simp_all add: rel_eval)
  then have "rel_reach (body_step (spawn_child ?s1))"
    by (rule rel_next [OF _ rel_step.body]) (simp add: rel_eval)
  then have "rel_reach ?s2" by (rule rel_next [OF _ rel_step.body]) (simp add: rel_eval)
  then have "rel_reach (child_step 0 ?s2)" by (rule rel_next [OF _ rel_step.child]) (simp_all add: rel_eval)
  then have "rel_reach ?s3" by (rule rel_next [OF _ rel_step.child]) (simp_all add: rel_eval)
  moreover have "releases ?s3 = 1 \<and> r_status ?s3 = RELEASING_TASK \<and> CRun \<in> set (kids ?s3) \<and> r_children ?s3 = 1"
    by (simp add: rel_eval)
  ultimately show ?thesis by blast
qed

end
