(* ===== verification/Atomics.thy ===== *)
theory Atomics
  imports Prelude
begin

text \<open>
  \<open>src/atomic.c\<close>: the test-and-set spinlock that guards the page lists and the region tree,
  with its back-off loop, and the atomic increment.  The lock is modelled step by step for any
  number of threads; the theorems are mutual exclusion and the behaviour of the back-off delay.
\<close>

section \<open>Atomic operations\<close>

text \<open>\<open>lock incl\<close>: the counter wraps at 32 bits.\<close>

definition v_atomic_incr_long :: "u32 \<Rightarrow> u32" where
  "v_atomic_incr_long address = address + 1"

definition LOCKED :: u32 where "LOCKED = 1"
definition UNLOCKED :: u32 where "UNLOCKED = 0"

text \<open>\<open>xchg\<close>: the old value, and the lock set to 1.\<close>

definition v_atomic_test_and_set :: "u32 \<Rightarrow> u32 \<times> u32" where
  "v_atomic_test_and_set lock = (lock, 1)"

definition try_lock :: "u32 \<Rightarrow> u32 \<times> u32" where
  "try_lock l = v_atomic_test_and_set l"

definition release_spinlock :: "u32 \<Rightarrow> u32" where
  "release_spinlock l = UNLOCKED"

section \<open>The back-off\<close>

text \<open>
  \<open>atomic.c\<close> does not include \<open>config.h\<close>, so its own defaults apply.  The delay is a
  \<open>long\<close>; after every failed attempt it is shifted and masked.
\<close>

definition BACKOFF_MIN :: "64 word" where "BACKOFF_MIN = 128"
definition BACKOFF_MAX :: "64 word" where "BACKOFF_MAX = 1024"

definition backoff :: "64 word \<Rightarrow> 64 word" where
  "backoff delay = (push_bit 1 delay) AND BACKOFF_MAX"

text \<open>
  One iteration of \<open>acquire_spinlock\<close>'s loop condition and body: \<open>None\<close> when the lock was
  obtained, otherwise the next delay.
\<close>

definition acquire_try :: "64 word \<Rightarrow> u32 \<Rightarrow> 64 word option \<times> u32" where
  "acquire_try delay l =
     (let (old, l') = v_atomic_test_and_set l
      in if LOCKED = old then (Some (backoff delay), l') else (None, l'))"

text \<open>The delay before the attempt that follows \<open>n\<close> failures.\<close>

primrec delay_after :: "nat \<Rightarrow> 64 word" where
  "delay_after 0 = BACKOFF_MIN"
| "delay_after (Suc n) = backoff (delay_after n)"

section \<open>Threads around one lock\<close>

datatype lock_user = Outside | Spinning "64 word" | Inside

record lock_sys =
  lock :: u32
  user :: "nat \<Rightarrow> lock_user"

definition lock_start :: lock_sys where
  "lock_start = \<lparr>lock = UNLOCKED, user = (\<lambda>_. Outside)\<rparr>"

text \<open>
  A thread enters \<open>acquire_spinlock\<close>, repeats its loop until it holds the lock, and leaves
  with \<open>release_spinlock\<close>; or it calls \<open>try_lock\<close> once, entering when the old value is 0.
\<close>

inductive lock_moves :: "lock_sys \<Rightarrow> lock_sys \<Rightarrow> bool" where
  enter: "user s i = Outside \<Longrightarrow> lock_moves s (s\<lparr>user := (user s)(i := Spinning BACKOFF_MIN)\<rparr>)"
| attempt: "user s i = Spinning d \<Longrightarrow> acquire_try d (lock s) = (r, l') \<Longrightarrow>
    lock_moves s (s\<lparr>lock := l',
      user := (user s)(i := (case r of None \<Rightarrow> Inside | Some d' \<Rightarrow> Spinning d'))\<rparr>)"
| trylock: "user s i = Outside \<Longrightarrow> try_lock (lock s) = (old, l') \<Longrightarrow>
    lock_moves s (s\<lparr>lock := l', user := (user s)(i := (if old = 1 then Outside else Inside))\<rparr>)"
| leave: "user s i = Inside \<Longrightarrow>
    lock_moves s (s\<lparr>lock := release_spinlock (lock s), user := (user s)(i := Outside)\<rparr>)"

inductive lock_reach :: "lock_sys \<Rightarrow> bool" where
  lock_init: "lock_reach lock_start"
| lock_next: "lock_reach s \<Longrightarrow> lock_moves s s' \<Longrightarrow> lock_reach s'"

definition inside :: "lock_sys \<Rightarrow> nat set" where
  "inside s = {i. user s i = Inside}"

definition lock_inv :: "lock_sys \<Rightarrow> bool" where
  "lock_inv s \<longleftrightarrow>
     lock s = UNLOCKED \<and> inside s = {} \<or> lock s = LOCKED \<and> (\<exists>i. inside s = {i})"

lemmas lock_defs = LOCKED_def UNLOCKED_def v_atomic_test_and_set_def try_lock_def
  release_spinlock_def acquire_try_def

lemma inside_update:
  "{k. ((user s)(i := u)) k = Inside} = (if u = Inside then insert i (inside s) else inside s - {i})"
  by (auto simp: inside_def)

lemma lock_moves_inv: "lock_moves s s' \<Longrightarrow> lock_inv s \<Longrightarrow> lock_inv s'"
proof (induction rule: lock_moves.induct)
  case (enter s i)
  then have "inside s - {i} = inside s" by (auto simp: inside_def)
  with enter show ?case
    by (simp add: lock_inv_def inside_def [of "s\<lparr>user := f\<rparr>" for f] inside_update
        del: fun_upd_apply)
next
  case (attempt s i d r l')
  then have "inside s - {i} = inside s" by (auto simp: inside_def)
  moreover have "inside (s\<lparr>lock := l', user := (user s)(i := u)\<rparr>) =
      (if u = Inside then insert i (inside s) else inside s - {i})" for u
    by (auto simp: inside_def)
  moreover have "l' = 1 \<and> (r = None \<longleftrightarrow> lock s \<noteq> 1)"
    using attempt(2) by (auto simp: lock_defs split: if_splits)
  ultimately show ?case
    using attempt(3) by (cases r) (auto simp: lock_inv_def lock_defs simp del: fun_upd_apply)
next
  case (trylock s i old l')
  then have "inside s - {i} = inside s" by (auto simp: inside_def)
  moreover have "inside (s\<lparr>lock := l', user := (user s)(i := u)\<rparr>) =
      (if u = Inside then insert i (inside s) else inside s - {i})" for u
    by (auto simp: inside_def)
  moreover have "l' = 1 \<and> old = lock s" using trylock(2) by (simp add: lock_defs)
  ultimately show ?case
    using trylock(3) by (cases "lock s = 1") (auto simp: lock_inv_def lock_defs simp del: fun_upd_apply)
next
  case (leave s i)
  then have "i \<in> inside s" by (simp add: inside_def)
  then have "inside s = {i}" using leave(2) by (auto simp: lock_inv_def)
  moreover have "inside (s\<lparr>lock := l', user := (user s)(i := Outside)\<rparr>) = inside s - {i}" for l'
    by (auto simp: inside_def)
  ultimately show ?case by (simp add: lock_inv_def lock_defs del: fun_upd_apply)
qed

lemma lock_reach_inv: "lock_reach s \<Longrightarrow> lock_inv s"
proof (induction rule: lock_reach.induct)
  case lock_init
  show ?case by (simp add: lock_inv_def lock_start_def inside_def)
next
  case (lock_next s s')
  then show ?case using lock_moves_inv by blast
qed

lemma backoff_zero [simp]: "backoff 0 = 0"
  by (simp add: backoff_def)

lemma delay_collapses: "delay_after (Suc n) = 0"
  by (induction n) (simp_all add: backoff_def BACKOFF_MIN_def BACKOFF_MAX_def)

section \<open>Properties\<close>

text \<open>
  C17: at any time at most one thread is between acquiring and releasing a lock, whatever mix of
  \<open>acquire_spinlock\<close> and \<open>try_lock\<close> the threads use, and the lock word is 1 exactly then.
\<close>

theorem spinlock_mutual_exclusion:
  assumes "lock_reach s" and "user s i = Inside" and "user s j = Inside"
  shows "i = j \<and> lock s = LOCKED"
proof -
  have "i \<in> inside s" "j \<in> inside s" using assms(2,3) by (simp_all add: inside_def)
  with lock_reach_inv [OF assms(1)] show ?thesis by (auto simp: lock_inv_def)
qed

theorem spinlock_mutual_exclusion_witness:
  "lock (lock_start\<lparr>lock := 1, user := (\<lambda>_. Outside)(7 := Inside)\<rparr>) = LOCKED"
proof -
  let ?s = "lock_start\<lparr>lock := 1, user := (\<lambda>_. Outside)(7 := Inside)\<rparr>"
  have "lock_moves lock_start ?s"
    using lock_moves.trylock [of lock_start 7 0 1] by (simp add: lock_start_def lock_defs)
  then have "lock_reach ?s" by (rule lock_next [OF lock_init])
  from spinlock_mutual_exclusion [OF this, of 7 7] show ?thesis by simp
qed

text \<open>
  The back-off of \<open>acquire_spinlock\<close> never backs off: after the first failed attempt
  the delay is 0 for good, since the mask \<open>delay &= BACKOFF_MAX\<close> clears it (an upper bound
  would keep it at or above \<open>BACKOFF_MIN\<close>).
\<close>

lemma spinlock_backoff_collapses:
  "delay_after 0 = BACKOFF_MIN \<and> delay_after (Suc n) = 0 \<and> delay_after (Suc n) < BACKOFF_MIN"
  using delay_collapses by (simp add: BACKOFF_MIN_def)

end
