(* ===== verification/Runtime.thy ===== *)
theory Runtime
  imports Deque Deps_Edges Atomics
begin

text \<open>
  \<open>src/runtime.c\<close>: one worker's view of the scheduler.  The shared state of the dependence
  analysis is extended by the task queues and by the worker's own variables.  The wrapper functions
  of the tasks are compiled from the user's program: a parameter that gives for each task the calls
  of the runtime it makes.  The functions call each other through \<open>schedule_task\<close>, which runs a
  task in place when its queue is full, so \<open>execute_task\<close> is defined with a bound on the depth of
  the nesting: a run that needs more ends in \<open>OutOfFuel\<close>.
\<close>

section \<open>State\<close>

record rt_state = deps_state +
  task_Queues :: "nat \<Rightarrow> nat queue_t"
  MaxActiveThreads :: u32
  active_threads :: u32
  queue_index :: nat
  curr_task :: "nat option"
  cur_parent :: "nat option"
  steal_index :: nat
  bk :: u32
  seed :: u32
  executed :: "nat list"
  called :: "nat list"

text \<open>
  The calls a task's wrapper makes.  Two logs that the code does not have: \<open>executed\<close> of the wrappers
  called, \<open>called\<close> of the descriptors passed to \<open>tpc_call\<close>.
\<close>

datatype api_call = Call nat | Sync

type_synonym program = "nat \<Rightarrow> api_call list"

section \<open>Scheduling\<close>

definition schedule_task :: "(nat \<Rightarrow> rt_state \<Rightarrow> rt_state res) \<Rightarrow> nat \<Rightarrow> rt_state \<Rightarrow> rt_state res" where
  "schedule_task execute_task t s =
     ebind (c_assert (waitfor (tasks s t) = fired (tasks s t))) (\<lambda>_.
     if status (tasks s t) = CREATED_TASK then
       let s = upd_task t (\<lambda>d. d\<lparr>status := SCHEDULED_TASK\<rparr>) s;
           (r, q) = enqueue t (task_Queues s (queue_index s));
           s = s\<lparr>task_Queues := (task_Queues s)(queue_index s := q)\<rparr>
       in if r = 0 then execute_task t s else Inr s
     else Inr s)"

definition pop_task :: "rt_state \<Rightarrow> (nat option \<times> rt_state) res" where
  "pop_task s =
     (let (t, q) = dequeue_front (task_Queues s (queue_index s));
          s = s\<lparr>task_Queues := (task_Queues s)(queue_index s := q)\<rparr>
      in ebind (c_assert (t \<noteq> None \<or> isEmpty_Queue (task_Queues s (queue_index s)))) (\<lambda>_. Inr (t, s)))"

text \<open>\<open>config.h\<close>: the bounds of the back-off between steals.\<close>

definition STEAL_BACKOFF_MIN :: u32 where "STEAL_BACKOFF_MIN = 2"
definition STEAL_BACKOFF_MAX :: u32 where "STEAL_BACKOFF_MAX = push_bit 8 STEAL_BACKOFF_MIN"

definition get_next_random_Queue :: "(u32 \<Rightarrow> u32 \<times> u32) \<Rightarrow> rt_state \<Rightarrow> nat \<times> rt_state" where
  "get_next_random_Queue rand_r s =
     (let (r, seed') = rand_r (seed s) in (unat (r mod MaxActiveThreads s), s\<lparr>seed := seed'\<rparr>))"

text \<open>One attempt to steal; \<open>rand_r\<close> is the C library's generator.\<close>

definition steal_task :: "(u32 \<Rightarrow> u32 \<times> u32) \<Rightarrow> rt_state \<Rightarrow> nat option \<times> rt_state" where
  "steal_task rand_r s =
     (let (ret, t, q) = dequeue_back (task_Queues s (steal_index s)) None;
          s = s\<lparr>task_Queues := (task_Queues s)(steal_index s := q)\<rparr>
      in if ret = 0 then
           let (i, s) = get_next_random_Queue rand_r s
           in (t, s\<lparr>steal_index := i, bk := STEAL_BACKOFF_MIN\<rparr>)
         else if ret = -1 then
           let b = push_bit 2 (bk s)
           in (t, s\<lparr>bk := (if b > STEAL_BACKOFF_MAX then STEAL_BACKOFF_MAX else b)\<rparr>)
         else (t, s\<lparr>bk := STEAL_BACKOFF_MIN\<rparr>))"

section \<open>Releasing and executing\<close>

text \<open>The recursion to the parent goes as deep as the task tree.\<close>

primrec release_task :: "(nat \<Rightarrow> rt_state \<Rightarrow> rt_state res) \<Rightarrow> nat \<Rightarrow> nat \<Rightarrow> rt_state \<Rightarrow> rt_state res" where
  "release_task sched 0 t s = Inl OutOfFuel"
| "release_task sched (Suc n) t s =
     (if status (tasks s t) \<noteq> EXECUTED_TASK then Inr s
      else
        let s = upd_task t (\<lambda>d. d\<lparr>status := RELEASING_TASK\<rparr>) s in
        ebind (fire_dependencies sched t s) (\<lambda>s.
        case parent (tasks s t) of
          None \<Rightarrow> Inr s
        | Some p \<Rightarrow>
            let s = upd_task p (\<lambda>d. d\<lparr>number_of_children := number_of_children d - 1\<rparr>) s;
                children = number_of_children (tasks s p)
            in ebind (c_assert (sint children \<ge> 0)) (\<lambda>_.
               if children = 0 \<and> status (tasks s p) = EXECUTED_TASK
               then release_task sched n p s else Inr s)))"

definition tpc_call :: "(nat \<Rightarrow> rt_state \<Rightarrow> rt_state res) \<Rightarrow> nat \<Rightarrow> rt_state \<Rightarrow> rt_state res" where
  "tpc_call sched t s =
     (let s = (case parent (tasks s t) of
                 None \<Rightarrow> s
               | Some p \<Rightarrow> upd_task p (\<lambda>d. d\<lparr>number_of_children :=
                   v_atomic_incr_long (number_of_children d)\<rparr>) s);
          s = upd_task t (\<lambda>d. d\<lparr>status := CREATING_TASK\<rparr>) s;
          s = s\<lparr>called := called s @ [t]\<rparr>
      in create_dependencies sched t s)"

text \<open>First the local queue, then the thief: the search for work that two loops share.\<close>

definition find_work :: "(u32 \<Rightarrow> u32 \<times> u32) \<Rightarrow> rt_state \<Rightarrow> (nat option \<times> rt_state) res" where
  "find_work rand_r s =
     ebind (pop_task s) (\<lambda>(t, s). if t \<noteq> None then Inr (t, s) else Inr (steal_task rand_r s))"

definition work_once :: "(u32 \<Rightarrow> u32 \<times> u32) \<Rightarrow> (nat \<Rightarrow> rt_state \<Rightarrow> rt_state res) \<Rightarrow> rt_state \<Rightarrow> rt_state res" where
  "work_once rand_r exec s =
     ebind (find_work rand_r s) (\<lambda>(t, s). case t of Some t \<Rightarrow> exec t s | None \<Rightarrow> Inr s)"

text \<open>The loop of \<open>tpc_sync\<close> for the calling task \<open>tmp\<close>.\<close>

primrec sync_loop :: "(u32 \<Rightarrow> u32 \<times> u32) \<Rightarrow> (nat \<Rightarrow> rt_state \<Rightarrow> rt_state res) \<Rightarrow> nat \<Rightarrow> nat \<Rightarrow>
    rt_state \<Rightarrow> rt_state res" where
  "sync_loop rand_r exec 0 tmp s = Inl OutOfFuel"
| "sync_loop rand_r exec (Suc n) tmp s =
     (if number_of_children (tasks s tmp) = 0 then Inr s
      else ebind (work_once rand_r exec s) (sync_loop rand_r exec n tmp))"

definition tpc_sync :: "(u32 \<Rightarrow> u32 \<times> u32) \<Rightarrow> (nat \<Rightarrow> rt_state \<Rightarrow> rt_state res) \<Rightarrow> nat \<Rightarrow>
    rt_state \<Rightarrow> rt_state res" where
  "tpc_sync rand_r execute_task n s =
     (case curr_task s of
        None \<Rightarrow> Inl NullDeref
      | Some tmp \<Rightarrow>
          ebind (sync_loop rand_r execute_task n tmp s) (\<lambda>s.
          Inr (s\<lparr>curr_task := Some tmp, cur_parent := Some tmp\<rparr>)))"

text \<open>A wrapper function: the log entry and then its calls in order.\<close>

definition api_step :: "(u32 \<Rightarrow> u32 \<times> u32) \<Rightarrow> (nat \<Rightarrow> rt_state \<Rightarrow> rt_state res) \<Rightarrow> nat \<Rightarrow>
    api_call \<Rightarrow> rt_state \<Rightarrow> rt_state res" where
  "api_step rand_r execute_task n a s =
     (case a of
        Call c \<Rightarrow> tpc_call (schedule_task execute_task) c s
      | Sync \<Rightarrow> tpc_sync rand_r execute_task n s)"

definition wrapper :: "(u32 \<Rightarrow> u32 \<times> u32) \<Rightarrow> program \<Rightarrow> (nat \<Rightarrow> rt_state \<Rightarrow> rt_state res) \<Rightarrow> nat \<Rightarrow>
    nat \<Rightarrow> rt_state \<Rightarrow> rt_state res" where
  "wrapper rand_r prog execute_task n t s =
     efold (api_step rand_r execute_task n) (prog t) (s\<lparr>executed := executed s @ [t]\<rparr>)"

primrec execute_task :: "(u32 \<Rightarrow> u32 \<times> u32) \<Rightarrow> program \<Rightarrow> nat \<Rightarrow> nat \<Rightarrow> rt_state \<Rightarrow> rt_state res" where
  "execute_task rand_r prog 0 t s = Inl OutOfFuel"
| "execute_task rand_r prog (Suc n) t s =
     (let tmp = curr_task s;
          s = s\<lparr>cur_parent := Some t, curr_task := Some t\<rparr>;
          s = upd_task t (\<lambda>d. d\<lparr>metadata := Some new_trie\<rparr>) s
      in ebind (wrapper rand_r prog (execute_task rand_r prog n) n t s) (\<lambda>s.
         ebind (c_assert (status (tasks s t) = SCHEDULED_TASK)) (\<lambda>_.
         let s = upd_task t (\<lambda>d. d\<lparr>status := EXECUTED_TASK\<rparr>) s in
         if sint (number_of_children (tasks s t)) > 0 then Inr (s\<lparr>curr_task := tmp, cur_parent := tmp\<rparr>)
         else
           ebind (release_task (schedule_task (execute_task rand_r prog n)) n t s) (\<lambda>s.
           Inr (s\<lparr>curr_task := tmp, cur_parent := tmp\<rparr>)))))"

text \<open>The loop of \<open>worker_thread\<close>, for at most \<open>n\<close> turns.\<close>

primrec worker_loop :: "(u32 \<Rightarrow> u32 \<times> u32) \<Rightarrow> (nat \<Rightarrow> rt_state \<Rightarrow> rt_state res) \<Rightarrow> nat \<Rightarrow>
    rt_state \<Rightarrow> rt_state res" where
  "worker_loop rand_r exec 0 s = Inr s"
| "worker_loop rand_r exec (Suc n) s =
     (if active_threads s = 0 then Inr s
      else ebind (work_once rand_r exec s) (worker_loop rand_r exec n))"

end
