(* ===== verification/Runtime_Quiet.thy ===== *)
theory Runtime_Quiet
  imports Runtime
begin

text \<open>
  The dependence analysis changes neither the scheduler's state nor the state, the parent or the
  children counter of a task: what the proofs about the scheduler need to know of it.
\<close>

section \<open>What the dependence analysis leaves alone\<close>

definition quiet :: "'z deps_state_scheme \<Rightarrow> 'z deps_state_scheme \<Rightarrow> bool" where
  "quiet s s' \<longleftrightarrow> deps_state.more s' = deps_state.more s
     \<and> (\<forall>q. status (tasks s' q) = status (tasks s q) \<and> parent (tasks s' q) = parent (tasks s q)
          \<and> number_of_children (tasks s' q) = number_of_children (tasks s q))"

lemma quiet_refl [simp]: "quiet s s"
  by (simp add: quiet_def)

lemma quiet_trans [trans]: "quiet s t \<Longrightarrow> quiet t u \<Longrightarrow> quiet s u"
  by (simp add: quiet_def)

lemma quiet_upd_task:
  assumes "\<And>d. status (f d) = status d \<and> parent (f d) = parent d \<and> number_of_children (f d) = number_of_children d"
  shows "quiet s (upd_task q f s)"
  using assms by (simp add: quiet_def tasks_upd_task)

lemma quiet_upd_meta [simp]: "quiet s (upd_meta m f s)"
  by (simp add: quiet_def upd_meta_def)

lemma quiet_put_trie [simp]: "quiet s (put_trie p tr s)"
  unfolding put_trie_def by (rule quiet_upd_task) simp

lemma quiet_set_arg [simp]: "quiet s (set_arg t i f s)"
  unfolding set_arg_def by (rule quiet_upd_task) simp

lemma quiet_new_element: "new_element ty t s = (m, s') \<Longrightarrow> quiet s s'"
  by (auto simp: new_element_def quiet_def Let_def)

lemma quiet_try_wait: "try_wait t c q s = (ok, s') \<Longrightarrow> quiet s s'"
proof (erule try_wait_cases)
  show "quiet s s'" if "s' = s" using that by simp
  show "quiet s s'" if "s' = upd_task q (\<lambda>d. d\<lparr>to_notify := NLocked\<rparr>) s"
    unfolding that by (rule quiet_upd_task) simp
  show "quiet s s'" if "s' = upd_task t (\<lambda>d. d\<lparr>deps_last := Some q\<rparr>) (upd_task q (\<lambda>d. d\<lparr>to_notify := NOpen (t # xs)\<rparr>) s)" for xs
    unfolding that by (rule quiet_trans [OF quiet_upd_task quiet_upd_task]) simp_all
qed

lemma quiet_try_wait2 [simp]: "quiet s (snd (try_wait t c q s))"
  using quiet_try_wait [of t c q s] by (metis prod.collapse)

text \<open>The same for a fallible computation, with a rule for each way to build one.\<close>

definition quietly :: "'z deps_state_scheme \<Rightarrow> ('a \<times> 'z deps_state_scheme) res \<Rightarrow> bool" where
  "quietly s m \<longleftrightarrow> (\<forall>w s'. m = Inr (w, s') \<longrightarrow> quiet s s')"

named_theorems quietly_intros \<open>how quiet computations are built\<close>

lemma quietlyD: "quietly s m \<Longrightarrow> m = Inr (w, s') \<Longrightarrow> quiet s s'"
  by (simp add: quietly_def)

lemma quietly_Inr [quietly_intros]: "quiet s s' \<Longrightarrow> quietly s (Inr (w, s'))"
  by (simp add: quietly_def)

lemma quietly_bind [quietly_intros]: "(\<And>x. m = Inr x \<Longrightarrow> quietly s (f x)) \<Longrightarrow> quietly s (ebind m f)"
  by (cases m) (simp_all add: quietly_def)

lemma quietly_prod [quietly_intros]: "(\<And>a b. p = (a, b) \<Longrightarrow> quietly s (f a b)) \<Longrightarrow> quietly s (case p of (a, b) \<Rightarrow> f a b)"
  by (cases p) simp

lemma quietly_option [quietly_intros]: "(x = None \<Longrightarrow> quietly s a) \<Longrightarrow> (\<And>y. x = Some y \<Longrightarrow> quietly s (f y)) \<Longrightarrow>
    quietly s (case x of None \<Rightarrow> a | Some y \<Rightarrow> f y)"
  by (cases x) simp_all

lemma quietly_if [quietly_intros]: "(b \<Longrightarrow> quietly s x) \<Longrightarrow> (\<not> b \<Longrightarrow> quietly s y) \<Longrightarrow> quietly s (if b then x else y)"
  by simp

lemma quietly_loop:
  assumes "\<And>x w s. quietly s (f x (w, s))" and "quiet s u"
  shows "quietly s (efold f xs (w, u))"
  using assms(2)
proof (induction xs arbitrary: w u)
  case Nil
  then show ?case by (simp add: quietly_def)
next
  case (Cons x xs)
  show ?case
  proof (cases "f x (w, u)")
    case (Inl e)
    then show ?thesis by (simp add: quietly_def)
  next
    case (Inr r)
    then obtain w1 u1 where r: "f x (w, u) = Inr (w1, u1)" by (cases r) auto
    then have "quiet s u1" using quietlyD [OF assms(1) r] Cons.prems quiet_trans by blast
    then show ?thesis using Cons.IH r by simp
  qed
qed

lemma quiet_after [quietly_intros]:
  "quiet s u \<Longrightarrow> quiet s (upd_meta m f u)" "quiet s u \<Longrightarrow> quiet s (put_trie p tr u)"
  "quiet s u \<Longrightarrow> quiet s (set_arg t i g u)"
  using quiet_trans by (blast intro: quiet_upd_meta quiet_put_trie quiet_set_arg)+

lemma quiet_after_wait: "try_wait t c q u = (ok, u') \<Longrightarrow> quiet s u \<Longrightarrow> quiet s u'"
  using quiet_try_wait quiet_trans by blast

lemma wait_step_quiet: "quietly s (wait_step t r (w, s))"
  unfolding wait_step_def Let_def prod.case
  by (intro quietly_intros) (auto intro: quiet_try_wait)

lemma out_block_quiet: "quietly s (out_block t m j (w, s))"
  unfolding out_block_def Let_def prod.case
  by (intro quietly_intros quietly_loop)
    (erule quiet_after_wait | (intro quietly_intros quiet_refl; assumption?) | assumption
      | (clarsimp, erule quiet_after_wait) | clarsimp)+

lemma in_block_quiet: "quietly s (in_block t m j (w, s))"
  unfolding in_block_def Let_def prod.case
  by (intro quietly_intros) (erule quiet_after_wait | intro quietly_intros quiet_refl | assumption)+

lemma create_dependency_quiet: "quietly s (create_dependency t arg m s)"
  unfolding create_dependency_def Let_def
  by (intro quietly_intros quietly_loop out_block_quiet in_block_quiet quiet_refl)

lemma quietly_bind2:
  assumes "quietly s m" and "\<And>w u. quiet s u \<Longrightarrow> quietly s (f (w, u))"
  shows "quietly s (ebind m f)"
proof (rule quietly_bind)
  show "quietly s (f x)" if "m = Inr x" for x
    using that assms(2) quietlyD [OF assms(1)] by (cases x) auto
qed

lemma create_dependency_quiet_after: "quiet s u \<Longrightarrow> quietly s (create_dependency t arg m u)"
  using create_dependency_quiet [of u t arg m] quiet_trans by (auto simp: quietly_def)

lemma handle_argument_quiet: "quietly s (handle_argument i t s)"
proof -
  let ?new = "new_element (arg_type (args (tasks s t) ! i)) t s"
  have loop: "quietly s (ebind (efold (\<lambda>j (v, s).
        ebind (create_dependency t (args (tasks s t) ! i) m s) (\<lambda>(w, s). Inr (v + w, set_arg t i f s))) js (w, u))
      (\<lambda>(v, s). Inr (v, set_arg t i g s)))" if "quiet s u" for m u w f g js
  proof (rule quietly_bind2)
    show "quietly s (efold (\<lambda>j (v, s).
        ebind (create_dependency t (args (tasks s t) ! i) m s) (\<lambda>(w, s). Inr (v + w, set_arg t i f s))) js (w, u))"
    proof (rule quietly_loop [OF _ that])
      show "quietly s (case (w, s) of (v, s) \<Rightarrow>
          ebind (create_dependency t (args (tasks s t) ! i) m s) (\<lambda>(w, s). Inr (v + w, set_arg t i f s)))" for w s
        unfolding prod.case by (rule quietly_bind2 [OF create_dependency_quiet]) (simp add: quietly_intros)
    qed
  qed (simp add: quietly_intros)
  have n: "quiet s (snd ?new)" using quiet_new_element [of _ t s] by (metis prod.collapse)
  obtain m u where mu: "?new = (m, u)" by (metis surj_pair)
  then have u: "quiet s u" using n by simp
  then have c: "quietly s (create_dependency t arg m u)" for arg by (rule create_dependency_quiet_after)
  show ?thesis unfolding handle_argument_def Let_def mu prod.case
    by (intro quietly_if loop u c quietly_Inr quiet_refl)
qed

lemma arguments_quiet: "quietly s (efold (\<lambda>i (v, s).
    ebind (handle_argument i t s) (\<lambda>(w, s). Inr (v + w, s))) is (w, s))"
proof (rule quietly_loop [OF _ quiet_refl])
  show "quietly s (case (w, s) of (v, s) \<Rightarrow>
      ebind (handle_argument i t s) (\<lambda>(w, s). Inr (v + w, s)))" for i w s
    unfolding prod.case by (rule quietly_bind2 [OF handle_argument_quiet]) (simp add: quietly_Inr)
qed

end
