(* ===== verification/Runtime_Inv.thy ===== *)
theory Runtime_Inv
  imports Runtime_Quiet
begin

text \<open>
  The invariant of the scheduler and how the elementary changes of its state affect it: the state of
  a task, a queue that gains or loses a task, the search for work.
\<close>

section \<open>The invariant\<close>

definition queued :: "rt_state \<Rightarrow> nat list" where
  "queued s = concat (map (\<lambda>k. dq_list (task_Queues s k)) [0..<unat (MaxActiveThreads s)])"

text \<open>The children of \<open>p\<close> that are not released yet.\<close>

definition unfinished :: "nat \<Rightarrow> rt_state \<Rightarrow> nat set" where
  "unfinished p s = {c \<in> set (called s). parent (tasks s c) = Some p \<and> status (tasks s c) \<noteq> COMPLETE_TASK}"

definition queues_inv :: "rt_state \<Rightarrow> bool" where
  "queues_inv s \<longleftrightarrow>
     queue_index s < unat (MaxActiveThreads s) \<and> steal_index s < unat (MaxActiveThreads s)
     \<and> (\<forall>k < unat (MaxActiveThreads s). dq_inv (task_Queues s k)) \<and> distinct (queued s)"

definition tasks_inv :: "rt_state \<Rightarrow> bool" where
  "tasks_inv s \<longleftrightarrow>
     (\<forall>t \<in> set (queued s). status (tasks s t) = SCHEDULED_TASK \<and> t \<notin> set (executed s))
     \<and> distinct (executed s) \<and> set (executed s) \<subseteq> set (called s)
     \<and> (\<forall>t \<in> set (executed s). SCHEDULED_TASK \<le> status (tasks s t))
     \<and> (\<forall>t. status (tasks s t) \<noteq> CREATING_TASK \<longrightarrow> t \<in> set (called s))
     \<and> (\<forall>t. EXECUTED_TASK \<le> status (tasks s t) \<longrightarrow> t \<in> set (executed s))"

text \<open>\<open>off\<close>: the task whose counter is one ahead, between two statements that belong together.\<close>

definition rt_inv :: "nat option \<Rightarrow> rt_state \<Rightarrow> bool" where
  "rt_inv off s \<longleftrightarrow> queues_inv s \<and> tasks_inv s
     \<and> (\<forall>p. number_of_children (tasks s p) = of_nat (card (unfinished p s) + (if off = Some p then 1 else 0)))"

text \<open>A task taken from a queue, or refused by a full one.\<close>

definition in_hand :: "nat \<Rightarrow> rt_state \<Rightarrow> bool" where
  "in_hand t s \<longleftrightarrow> status (tasks s t) = SCHEDULED_TASK \<and> t \<notin> set (queued s) \<and> t \<notin> set (executed s)"

text \<open>
  What every operation guarantees: the logs grow, the family tree and the current task stay; and if it starts under
  the condition \<open>P\<close> then, as long as no descriptor is passed to \<open>tpc_call\<close> twice, the invariant
  holds again and the state of a task that is being released has not changed.
\<close>

definition logs :: "rt_state \<Rightarrow> rt_state \<Rightarrow> bool" where
  "logs s s' \<longleftrightarrow> (\<exists>xs. called s' = called s @ xs) \<and> (\<exists>ys. executed s' = executed s @ ys)
     \<and> (\<forall>q. parent (tasks s' q) = parent (tasks s q)) \<and> curr_task s' = curr_task s
     \<and> MaxActiveThreads s' = MaxActiveThreads s"

definition kept :: "rt_state \<Rightarrow> rt_state \<Rightarrow> bool" where
  "kept s s' \<longleftrightarrow> (\<forall>t. RELEASING_TASK \<le> status (tasks s t) \<longrightarrow> status (tasks s' t) = status (tasks s t))"

definition good :: "bool \<Rightarrow> rt_state \<Rightarrow> rt_state \<Rightarrow> bool" where
  "good P s s' \<longleftrightarrow> logs s s' \<and> (distinct (called s') \<and> rt_inv None s \<and> P \<longrightarrow> rt_inv None s' \<and> kept s s')"

lemma logs_refl [simp]: "logs s s"
  by (simp add: logs_def)

lemma logs_trans [trans]: "logs s t \<Longrightarrow> logs t u \<Longrightarrow> logs s u"
  by (auto simp: logs_def)

lemma logs_distinct: "logs s t \<Longrightarrow> distinct (called t) \<Longrightarrow> distinct (called s)"
  by (auto simp: logs_def)

lemma kept_trans: "kept s t \<Longrightarrow> kept t u \<Longrightarrow> kept s u"
  by (simp add: kept_def)

lemma good_refl [simp]: "good P s s"
  by (simp add: good_def kept_def)

lemma good_logs: "good P s s' \<Longrightarrow> logs s s'"
  by (simp add: good_def)

lemma good_trans:
  assumes "good P s t" and "good Q t u"
    and "distinct (called t) \<Longrightarrow> rt_inv None s \<Longrightarrow> rt_inv None t \<Longrightarrow> P \<Longrightarrow> Q"
  shows "good P s u"
  using assms logs_trans [of s t u] logs_distinct [of t u] kept_trans [of s t u] by (auto simp: good_def)

lemma good_mono: "good P s s' \<Longrightarrow> (Q \<Longrightarrow> P) \<Longrightarrow> good Q s s'"
  by (auto simp: good_def)

lemma goodD:
  assumes "good P s s'" and "distinct (called s')" and "rt_inv None s" and "P"
  shows "rt_inv None s'" "kept s s'" "distinct (called s)"
  using assms logs_distinct [of s s'] by (auto simp: good_def)

text \<open>The order of the states of a task.\<close>

lemmas status_order = less_eq_task_status_def less_task_status_def word_le_nat_alt word_less_nat_alt

section \<open>Frames\<close>

lemma rt_upd_task [simp]:
  "task_Queues (upd_task q f s) = task_Queues s" "MaxActiveThreads (upd_task q f s) = MaxActiveThreads s"
  "queue_index (upd_task q f s) = queue_index s" "steal_index (upd_task q f s) = steal_index s"
  "called (upd_task q f s) = called s" "executed (upd_task q f s) = executed s"
  "curr_task (upd_task q f s) = curr_task s" "queued (upd_task q f s) = queued s"
  by (simp_all add: upd_task_def queued_def)

lemma rt_more:
  assumes "deps_state.more s' = deps_state.more (s :: rt_state)"
  shows "task_Queues s' = task_Queues s" "MaxActiveThreads s' = MaxActiveThreads s"
    "queue_index s' = queue_index s" "steal_index s' = steal_index s"
    "called s' = called s" "executed s' = executed s" "curr_task s' = curr_task s"
  using assms by (cases s; cases s'; simp)+

lemma quiet_inv:
  assumes "quiet s s'"
  shows "rt_inv off s' = rt_inv off s" "logs s s'" "kept s s'"
proof -
  have m: "deps_state.more s' = deps_state.more s" using assms by (simp add: quiet_def)
  note r = rt_more [OF m]
  have q: "queued s' = queued s" by (simp add: queued_def r)
  have t: "status (tasks s' q) = status (tasks s q)" "parent (tasks s' q) = parent (tasks s q)"
    "number_of_children (tasks s' q) = number_of_children (tasks s q)" for q
    using assms by (simp_all add: quiet_def)
  have "unfinished p s' = unfinished p s" for p by (simp add: unfinished_def r t)
  then show "rt_inv off s' = rt_inv off s"
    by (simp add: rt_inv_def queues_inv_def tasks_inv_def r q t)
  show "logs s s'" "kept s s'" by (simp_all add: logs_def kept_def r t)
qed

lemma quiet_good: "quiet s s' \<Longrightarrow> good P s s'"
  using quiet_inv [of s s'] by (simp add: good_def)

text \<open>Other variables of the worker.\<close>

lemma good_vars:
  assumes "tasks s' = tasks s" and "task_Queues s' = task_Queues s" and "MaxActiveThreads s' = MaxActiveThreads s"
    and "queue_index s' = queue_index s" and "steal_index s' = steal_index s"
    and "called s' = called s" and "executed s' = executed s" and "curr_task s' = curr_task s"
  shows "good P s s'"
proof -
  have "queued s' = queued s" "unfinished p s' = unfinished p s" for p
    using assms by (simp_all add: queued_def unfinished_def)
  then have "rt_inv None s' = rt_inv None s"
    using assms by (simp add: rt_inv_def queues_inv_def tasks_inv_def)
  then show ?thesis using assms by (simp add: good_def logs_def kept_def)
qed

text \<open>A task runs with \<open>curr_task\<close> set to itself; afterwards it is set back.\<close>

lemma vars_inv:
  "rt_inv off (s\<lparr>curr_task := x, cur_parent := y\<rparr>) = rt_inv off s"
  "rt_inv off (s\<lparr>cur_parent := y, curr_task := x\<rparr>) = rt_inv off s"
  "in_hand t (s\<lparr>cur_parent := y, curr_task := x\<rparr>) = in_hand t s"
  by (simp_all add: rt_inv_def queues_inv_def tasks_inv_def queued_def unfinished_def in_hand_def)

lemma good_nested:
  assumes "good P (s\<lparr>cur_parent := a, curr_task := b\<rparr>) v"
  shows "good P s (v\<lparr>curr_task := curr_task s, cur_parent := c\<rparr>)"
  using assms by (simp add: good_def logs_def kept_def vars_inv)

text \<open>Changing the state of one task.\<close>

definition set_status :: "nat \<Rightarrow> task_status \<Rightarrow> rt_state \<Rightarrow> rt_state" where
  "set_status t x s = upd_task t (\<lambda>d. d\<lparr>status := x\<rparr>) s"

lemma set_status_simps [simp]:
  "status (tasks (set_status t x s) q) = (if q = t then x else status (tasks s q))"
  "parent (tasks (set_status t x s) q) = parent (tasks s q)"
  "number_of_children (tasks (set_status t x s) q) = number_of_children (tasks s q)"
  "queued (set_status t x s) = queued s" "called (set_status t x s) = called s"
  "executed (set_status t x s) = executed s" "curr_task (set_status t x s) = curr_task s"
  "task_Queues (set_status t x s) = task_Queues s" "queue_index (set_status t x s) = queue_index s"
  "MaxActiveThreads (set_status t x s) = MaxActiveThreads s" "queues_inv (set_status t x s) = queues_inv s"
  by (simp_all add: set_status_def tasks_upd_task queues_inv_def)

lemma set_status_tasks_inv:
  assumes "tasks_inv s" and "t \<in> set (queued s) \<Longrightarrow> x = SCHEDULED_TASK"
    and "t \<in> set (executed s) \<Longrightarrow> SCHEDULED_TASK \<le> x" and "x \<noteq> CREATING_TASK \<Longrightarrow> t \<in> set (called s)"
    and "EXECUTED_TASK \<le> x \<Longrightarrow> t \<in> set (executed s)"
  shows "tasks_inv (set_status t x s)"
  using assms unfolding tasks_inv_def by auto

lemma set_status_good:
  assumes "distinct (called s) \<Longrightarrow> rt_inv None s \<Longrightarrow> P \<Longrightarrow> status (tasks s t) < RELEASING_TASK \<and> x \<noteq> COMPLETE_TASK
      \<and> (t \<in> set (queued s) \<longrightarrow> x = SCHEDULED_TASK) \<and> (t \<in> set (executed s) \<longrightarrow> SCHEDULED_TASK \<le> x)
      \<and> (x \<noteq> CREATING_TASK \<longrightarrow> t \<in> set (called s)) \<and> (EXECUTED_TASK \<le> x \<longrightarrow> t \<in> set (executed s))"
  shows "good P s (set_status t x s)"
proof -
  have "rt_inv None (set_status t x s) \<and> kept s (set_status t x s)"
    if "distinct (called s)" "rt_inv None s" "P"
  proof -
    note a = assms [OF that]
    have "status (tasks s t) \<noteq> COMPLETE_TASK" using a by (auto simp: status_order)
    then have "unfinished p (set_status t x s) = unfinished p s" for p
      using a by (auto simp: unfinished_def)
    moreover have "tasks_inv (set_status t x s)"
      using that(2) a by (intro set_status_tasks_inv) (auto simp: rt_inv_def)
    ultimately show ?thesis using that(2) a by (auto simp: rt_inv_def kept_def)
  qed
  then show ?thesis by (auto simp: good_def logs_def)
qed


section \<open>Queues\<close>

definition set_queue :: "nat \<Rightarrow> nat queue_t \<Rightarrow> rt_state \<Rightarrow> rt_state" where
  "set_queue k q s = s\<lparr>task_Queues := (task_Queues s)(k := q)\<rparr>"

lemma set_queue_simps [simp]:
  "tasks (set_queue k q s) = tasks s" "called (set_queue k q s) = called s" "executed (set_queue k q s) = executed s"
  "MaxActiveThreads (set_queue k q s) = MaxActiveThreads s" "queue_index (set_queue k q s) = queue_index s"
  "steal_index (set_queue k q s) = steal_index s" "task_Queues (set_queue k q s) = (task_Queues s)(k := q)"
  "curr_task (set_queue k q s) = curr_task s"
  by (simp_all add: set_queue_def)

lemma queued_set_queue:
  assumes "k < unat (MaxActiveThreads s)"
  shows "mset (queued (set_queue k q s)) + mset (dq_list (task_Queues s k)) = mset (queued s) + mset (dq_list q)"
proof -
  have m: "mset (concat (map (\<lambda>j. dq_list (f j)) js)) = (\<Sum>j \<leftarrow> js. mset (dq_list (f j)))" for f :: "nat \<Rightarrow> nat queue_t" and js
    by (induction js) simp_all
  have "(\<Sum>j \<leftarrow> js. mset (dq_list ((f(k := q)) j))) + mset (dq_list (f k)) = (\<Sum>j \<leftarrow> js. mset (dq_list (f j))) + mset (dq_list q)"
    if "distinct js" "k \<in> set js" for f :: "nat \<Rightarrow> nat queue_t" and js
    using that
  proof (induction js)
    case (Cons j js)
    show ?case
    proof (cases "j = k")
      case True
      then have "(\<Sum>i \<leftarrow> js. mset (dq_list ((f(k := q)) i))) = (\<Sum>i \<leftarrow> js. mset (dq_list (f i)))"
        using Cons.prems(1) by (intro arg_cong [where f = sum_list] map_cong) auto
      then show ?thesis using True by (simp add: ac_simps)
    next
      case False
      then show ?thesis using Cons by (simp add: ac_simps)
    qed
  qed simp
  from this [of "[0..<unat (MaxActiveThreads s)]" "task_Queues s"] assms
  show ?thesis by (simp add: queued_def m)
qed

text \<open>A queue that gains or loses the task \<open>t\<close>.\<close>

lemma queue_gain:
  assumes "k < unat (MaxActiveThreads s)" and "dq_list q = dq_list (task_Queues s k) @ [t]"
  shows "mset (queued (set_queue k q s)) = add_mset t (mset (queued s))"
proof -
  have "mset (queued (set_queue k q s)) + mset (dq_list (task_Queues s k))
      = add_mset t (mset (queued s)) + mset (dq_list (task_Queues s k))"
    using queued_set_queue [OF assms(1), of q] assms(2) by simp
  then show ?thesis by simp
qed

lemma queue_loss:
  assumes "k < unat (MaxActiveThreads s)" and "mset (dq_list (task_Queues s k)) = add_mset t (mset (dq_list q))"
  shows "mset (queued s) = add_mset t (mset (queued (set_queue k q s)))"
proof -
  have "add_mset t (mset (queued (set_queue k q s))) + mset (dq_list q) = mset (queued s) + mset (dq_list q)"
    using queued_set_queue [OF assms(1), of q] assms(2) by simp
  then show ?thesis by simp
qed

lemma set_queue_same:
  assumes "k < unat (MaxActiveThreads s)" and "dq_list q = dq_list (task_Queues s k)"
  shows "mset (queued (set_queue k q s)) = mset (queued s)"
  using queued_set_queue [OF assms(1), of q] assms(2) by simp

text \<open>The invariant after a change of a queue, in terms of the tasks queued.\<close>

lemma set_queue_inv:
  assumes "rt_inv None s" and "k < unat (MaxActiveThreads s)" and "dq_inv q"
    and "distinct (queued (set_queue k q s))"
    and "\<And>t. t \<in> set (queued (set_queue k q s)) \<Longrightarrow> status (tasks s t) = SCHEDULED_TASK \<and> t \<notin> set (executed s)"
  shows "rt_inv None (set_queue k q s)"
  using assms unfolding rt_inv_def queues_inv_def tasks_inv_def unfinished_def by auto

lemma set_queue_logs [simp]: "logs s (set_queue k q s)" "kept s (set_queue k q s)"
  by (simp_all add: logs_def kept_def)

lemma queue_loss_inv:
  assumes inv: "rt_inv None s" and k: "k < unat (MaxActiveThreads s)" and q: "dq_inv q"
    and l: "mset (dq_list (task_Queues s k)) = add_mset t (mset (dq_list q))"
  shows "rt_inv None (set_queue k q s) \<and> in_hand t (set_queue k q s)"
proof -
  note m = queue_loss [OF k l]
  have d: "distinct (queued s)" "\<And>t. t \<in> set (queued s) \<Longrightarrow> status (tasks s t) = SCHEDULED_TASK \<and> t \<notin> set (executed s)"
    using inv by (auto simp: rt_inv_def queues_inv_def tasks_inv_def)
  have "distinct (t # queued (set_queue k q s))" "set (queued s) = set (t # queued (set_queue k q s))"
    using m d(1) by (metis mset.simps(2) mset_eq_imp_distinct_iff) (metis m mset.simps(2) mset_eq_setD)
  then show ?thesis using set_queue_inv [OF inv k q] d(2) by (auto simp: in_hand_def)
qed

lemma queue_same_inv:
  assumes inv: "rt_inv None s" and k: "k < unat (MaxActiveThreads s)" and q: "dq_inv q"
    and l: "dq_list q = dq_list (task_Queues s k)"
  shows "rt_inv None (set_queue k q s)"
proof (rule set_queue_inv [OF inv k q])
  have m: "mset (queued (set_queue k q s)) = mset (queued s)" using set_queue_same [OF k l] .
  then show "distinct (queued (set_queue k q s))"
    using inv mset_eq_imp_distinct_iff by (auto simp: rt_inv_def queues_inv_def)
  show "status (tasks s t) = SCHEDULED_TASK \<and> t \<notin> set (executed s)" if "t \<in> set (queued (set_queue k q s))" for t
    using inv that mset_eq_setD [OF m] by (auto simp: rt_inv_def tasks_inv_def)
qed

lemma queue_gain_inv:
  assumes inv: "rt_inv None s" and k: "k < unat (MaxActiveThreads s)" and q: "dq_inv q"
    and l: "dq_list q = dq_list (task_Queues s k) @ [t]" and t: "in_hand t s"
  shows "rt_inv None (set_queue k q s)"
proof (rule set_queue_inv [OF inv k q])
  have m: "mset (queued (set_queue k q s)) = mset (t # queued s)" using queue_gain [OF k l] by simp
  have "distinct (t # queued s)" using inv t by (auto simp: in_hand_def rt_inv_def queues_inv_def)
  then show "distinct (queued (set_queue k q s))" using mset_eq_imp_distinct_iff [OF m] by simp
  show "status (tasks s u) = SCHEDULED_TASK \<and> u \<notin> set (executed s)" if "u \<in> set (queued (set_queue k q s))" for u
    using inv that mset_eq_setD [OF m] t by (auto simp: rt_inv_def tasks_inv_def in_hand_def)
qed

section \<open>Searching for work\<close>

lemma own_queue: "rt_inv None s \<Longrightarrow> queue_index s < unat (MaxActiveThreads s) \<and> dq_inv (task_Queues s (queue_index s))"
  by (simp add: rt_inv_def queues_inv_def)

lemma list_pop_mset: "list_pop xs = (Some x, ys) \<Longrightarrow> mset xs = add_mset x (mset ys)"
  by (cases xs rule: rev_cases) (auto simp: list_pop_def)

lemma list_steal_mset: "list_steal xs = (r, Some x, ys) \<Longrightarrow> mset xs = add_mset x (mset ys)"
  by (cases xs) auto

lemma list_pop_None: "fst (list_pop xs) = None \<Longrightarrow> snd (list_pop xs) = xs \<and> xs = []"
  by (auto simp: list_pop_def split: if_splits)

lemma list_steal_None: "fst (snd (list_steal xs)) = None \<Longrightarrow> list_steal xs = (0, None, []) \<and> xs = []"
  by (cases xs) auto

lemma pop_task_logs:
  assumes "pop_task s = Inr (x, s')"
  shows "logs s s' \<and> kept s s'"
  using assms by (auto simp: pop_task_def set_queue_def [symmetric] fault_simps split: prod.splits)

lemma pop_task_inv:
  assumes inv: "rt_inv None s" and pop: "pop_task s = Inr (x, s')"
  shows "rt_inv None s' \<and> (\<forall>t. x = Some t \<longrightarrow> in_hand t s')"
proof -
  let ?k = "queue_index s" and ?q = "task_Queues s (queue_index s)"
  have k: "?k < unat (MaxActiveThreads s)" "dq_inv ?q" using own_queue [OF inv] by auto
  obtain q where q: "dequeue_front ?q = (fst (list_pop (dq_list ?q)), q)" "dq_inv q"
      "dq_list q = snd (list_pop (dq_list ?q))"
    using dq.pop_sim [OF k(2)] by blast
  have s': "s' = set_queue ?k q s" "x = fst (list_pop (dq_list ?q))"
    using pop q(1) by (auto simp: pop_task_def set_queue_def [symmetric] fault_simps)
  show ?thesis
  proof (cases x)
    case None
    then show ?thesis using queue_same_inv [OF inv k(1) q(2)] q(3) s' list_pop_None by auto
  next
    case (Some t)
    then have "mset (dq_list ?q) = add_mset t (mset (dq_list q))"
      using s'(2) q(3) list_pop_mset by (metis prod.collapse)
    then show ?thesis using queue_loss_inv [OF inv k(1) q(2)] s' Some by auto
  qed
qed

lemma steal_task_logs:
  assumes "steal_task rand_r s = (x, s')"
  shows "logs s s' \<and> kept s s'"
  using assms by (auto simp: steal_task_def get_next_random_Queue_def Let_def logs_def kept_def split: prod.splits if_splits)

lemma in_hand_vars: "tasks s' = tasks s \<Longrightarrow> queued s' = queued s \<Longrightarrow> executed s' = executed s \<Longrightarrow>
    in_hand t s' = in_hand t s"
  by (simp add: in_hand_def)

text \<open>A change of the thief's own variables.\<close>

lemma thief_vars:
  assumes "i < unat (MaxActiveThreads s)" and "rt_inv None s"
  shows "rt_inv None (s\<lparr>steal_index := i, bk := b, seed := sd\<rparr>)"
  using assms by (auto simp: rt_inv_def queues_inv_def tasks_inv_def unfinished_def queued_def)

lemma thief_in_hand [simp]: "in_hand t (s\<lparr>steal_index := i, bk := b, seed := sd\<rparr>) = in_hand t s"
  by (simp add: in_hand_def queued_def)

lemma steal_task_inv:
  assumes inv: "rt_inv None s" and steal: "steal_task rand_r s = (x, s')"
  shows "rt_inv None s' \<and> (\<forall>t. x = Some t \<longrightarrow> in_hand t s')"
proof -
  let ?k = "steal_index s" and ?q = "task_Queues s (steal_index s)"
  have k: "?k < unat (MaxActiveThreads s)" "dq_inv ?q" using inv by (auto simp: rt_inv_def queues_inv_def)
  obtain q where q: "dequeue_back ?q None = (fst (list_steal (dq_list ?q)), fst (snd (list_steal (dq_list ?q))), q)"
      "dq_inv q" "dq_list q = snd (snd (list_steal (dq_list ?q)))"
    using dq.steal_sim [OF k(2)] by blast
  let ?s = "set_queue ?k q s"
  have vars: "\<exists>i b sd. i < unat (MaxActiveThreads s) \<and> s' = ?s\<lparr>steal_index := i, bk := b, seed := sd\<rparr>"
      and x: "x = fst (snd (list_steal (dq_list ?q)))"
  proof -
    have pos: "unat (r mod MaxActiveThreads s) < unat (MaxActiveThreads s)" for r
      using k(1) by (intro unat_mono word_mod_less_divisor) (simp add: word_less_nat_alt)
    have keep: "?s\<lparr>bk := b\<rparr> = ?s\<lparr>steal_index := steal_index ?s, bk := b, seed := seed ?s\<rparr>" for b by simp
    let ?ret = "fst (list_steal (dq_list ?q))"
    have s': "s' = (if ?ret = 0 then ?s\<lparr>seed := snd (rand_r (seed s)),
          steal_index := unat (fst (rand_r (seed s)) mod MaxActiveThreads s), bk := STEAL_BACKOFF_MIN\<rparr>
        else if ?ret = -1 then ?s\<lparr>bk := (if push_bit 2 (bk s) > STEAL_BACKOFF_MAX then STEAL_BACKOFF_MAX
          else push_bit 2 (bk s))\<rparr> else ?s\<lparr>bk := STEAL_BACKOFF_MIN\<rparr>)"
      using steal q(1)
      by (simp add: steal_task_def get_next_random_Queue_def Let_def set_queue_def split_beta split: if_splits)
    show "\<exists>i b sd. i < unat (MaxActiveThreads s) \<and> s' = ?s\<lparr>steal_index := i, bk := b, seed := sd\<rparr>"
    proof (cases "?ret = 0")
      case True
      then have "s' = ?s\<lparr>steal_index := unat (fst (rand_r (seed s)) mod MaxActiveThreads s),
          bk := STEAL_BACKOFF_MIN, seed := snd (rand_r (seed s))\<rparr>" using s' by simp
      then show ?thesis using pos by blast
    next
      case False
      then have "s' = ?s\<lparr>bk := (if ?ret = -1 then if push_bit 2 (bk s) > STEAL_BACKOFF_MAX
          then STEAL_BACKOFF_MAX else push_bit 2 (bk s) else STEAL_BACKOFF_MIN)\<rparr>" using s' by simp
      then show ?thesis unfolding keep using k(1) set_queue_simps(6) by metis
    qed
    show "x = fst (snd (list_steal (dq_list ?q)))"
      using steal q(1) by (auto simp: steal_task_def get_next_random_Queue_def Let_def split: prod.splits if_splits)
  qed
  show ?thesis
  proof (cases x)
    case None
    then have "dq_list q = dq_list ?q" using q(3) x list_steal_None [of "dq_list ?q"] by simp
    then have "rt_inv None ?s" by (rule queue_same_inv [OF inv k(1) q(2)])
    then show ?thesis using None vars thief_vars [of _ ?s] by auto
  next
    case (Some t)
    then have "mset (dq_list ?q) = add_mset t (mset (dq_list q))"
      using x q(3) list_steal_mset by (metis prod.collapse)
    then have "rt_inv None ?s \<and> in_hand t ?s" using queue_loss_inv [OF inv k(1) q(2)] by blast
    then show ?thesis using Some vars thief_vars [of _ ?s] by auto
  qed
qed


text \<open>The search never breaks the invariant, and what it finds is in hand.\<close>

lemma find_work_good:
  assumes "find_work rand_r s = Inr (x, s')"
  shows "good True s s' \<and> (rt_inv None s \<longrightarrow> (\<forall>t. x = Some t \<longrightarrow> in_hand t s'))"
proof -
  from assms obtain y u where pop: "pop_task s = Inr (y, u)"
      and s': "(if y \<noteq> None then Inr (y, u) else Inr (steal_task rand_r u)) = (Inr (x, s') :: (nat option \<times> rt_state) res)"
    by (auto simp: find_work_def fault_simps)
  note p = pop_task_logs [OF pop] pop_task_inv [OF _ pop]
  show ?thesis
  proof (cases y)
    case None
    then have st: "steal_task rand_r u = (x, s')" using s' by simp
    then show ?thesis
      using p steal_task_logs [OF st] steal_task_inv [OF _ st] logs_trans kept_trans by (auto simp: good_def)
  next
    case (Some t)
    then show ?thesis using p s' by (auto simp: good_def)
  qed
qed

end
