(* ===== verification/Runtime_Init.thy ===== *)
theory Runtime_Init
  imports Runtime Balloc
begin

text \<open>
  \<open>src/runtime.c\<close>: the start and the end of the runtime (\<open>tpc_init\<close>, the first part of
  \<open>worker_thread\<close>, \<open>tpc_shutdown\<close>), the allocation of task descriptors and the placement of the
  workers on the cores.  What the operating system and the C library answer is a record of
  parameters.
\<close>

section \<open>The machine\<close>

definition MAX_THREADS :: u32 where "MAX_THREADS = 64"

record host =
  nprocs :: u32
  numa_available :: int
  numa_nodes :: u32
  pthread_self :: u32
  queue_mem :: "nat \<Rightarrow> nat queue_t option"
  grid_mem :: u64

section \<open>Placement of the workers\<close>

text \<open>The core of the worker \<open>arg\<close>; without NUMA the workers go round robin.\<close>

definition pad_of :: "u32 \<Rightarrow> u32 \<Rightarrow> u32" where
  "pad_of per_node pad =
     (if pad \<noteq> 0 \<and> pad \<noteq> per_node - 1 then
        if pad < per_node div 2 then 0 + pad * 2 else 1 + (pad - per_node div 2) * 2
      else pad)"

definition phys_core :: "host \<Rightarrow> u64 \<Rightarrow> u32" where
  "phys_core h arg =
     (let system_proc = nprocs h in
      if numa_available h = -1 then ucast ((arg AND 0xFFFFFFFF) mod ucast system_proc)
      else
        let total_nodes = numa_nodes h;
            core = ucast (((arg AND 0xFFFFFFFF) * ucast (system_proc div total_nodes)) mod ucast system_proc);
            pad = ucast (((arg AND 0xFFFFFFFF) * ucast (system_proc div total_nodes)) div ucast system_proc);
            pad = pad_of (system_proc div total_nodes) pad
        in (core + pad) mod system_proc)"

section \<open>Descriptors\<close>

text \<open>\<open>bzero\<close> of a descriptor with \<open>n\<close> arguments.\<close>

definition zero_argument :: tpc_task_argument where
  "zero_argument = \<lparr>addr_in = 0, addr_out = 0, arg_type = 0, arg_size = 0, stride = 0, element_num = 0\<rparr>"

definition zero_descriptor :: "nat \<Rightarrow> tpc_task_descriptor" where
  "zero_descriptor n = \<lparr>args = replicate n zero_argument, number_of_children = 0, status = CREATING_TASK,
     parent = None, waitfor = 0, fired = 0, task_region = 0, to_notify = NOpen [], metadata = None,
     deps_last = None\<rparr>"

text \<open>\<open>new\<close>: the object \<open>rstralloc0\<close> returned, if any; \<open>region\<close>: the result of \<open>newregion\<close>.\<close>

definition tpc_task_descriptor_alloc :: "int \<Rightarrow> nat option \<Rightarrow> nat \<Rightarrow> rt_state \<Rightarrow> (nat \<times> rt_state) res" where
  "tpc_task_descriptor_alloc args_num new region s =
     ebind (c_assert (args_num \<ge> 0)) (\<lambda>_.
     case cur_parent s of
       None \<Rightarrow> Inl NullDeref
     | Some _ \<Rightarrow>
         (case new of
            None \<Rightarrow> Inl AssertFailed
          | Some t \<Rightarrow>
              let s = upd_task t (\<lambda>_. zero_descriptor (nat args_num)) s;
                  s = upd_task t (\<lambda>d. d\<lparr>task_region := region\<rparr>) s
              in ebind (c_assert (region \<noteq> 0)) (\<lambda>_. Inr (t, s))))"

section \<open>Start\<close>

text \<open>Each worker allocates its own queue.\<close>

definition own_queue_init :: "host \<Rightarrow> nat \<Rightarrow> rt_state \<Rightarrow> rt_state res" where
  "own_queue_init h i s =
     (if i < unat MAX_THREADS then
        ebind (new_Queue (numa_available h) (queue_mem h i) (queue_mem h i)) (\<lambda>q.
        Inr (s\<lparr>task_Queues := (task_Queues s)(i := init_queue q)\<rparr>))
      else Inl OutOfBounds)"

text \<open>The state of the barrier is the number of threads it was made for; \<open>n\<close> threads arrive.\<close>

definition barrier_init :: "u32 \<Rightarrow> u32 res" where
  "barrier_init participants = (if participants = 0 then Inl Aborted else Inr participants)"

definition barrier_wait :: "u32 \<Rightarrow> u32 \<Rightarrow> unit res" where
  "barrier_wait barrier n = (if n = barrier then Inr () else Inl Spins)"

definition num_threads :: "u32 \<Rightarrow> u32 \<Rightarrow> u32" where
  "num_threads threads system_proc = (if threads \<le> 0 \<or> threads > MAX_THREADS then system_proc else threads)"

text \<open>A worker: its core, its queue, its loop, what it hands back.\<close>

definition worker_thread :: "host \<Rightarrow> (u32 \<Rightarrow> u32 \<times> u32) \<Rightarrow> (nat \<Rightarrow> rt_state \<Rightarrow> rt_state res) \<Rightarrow> nat \<Rightarrow> nat \<Rightarrow>
    u32 \<Rightarrow> u64 \<Rightarrow> rt_state \<Rightarrow> (u32 \<times> deallocator \<times> rt_state) res" where
  "worker_thread h rand_r exec n main barrier arg s =
     ebind (c_assert (arg \<noteq> 0)) (\<lambda>_.
     let s = s\<lparr>cur_parent := Some main\<rparr>;
         core = phys_core h arg;
         s = s\<lparr>queue_index := unat (arg AND 0xFFFFFFFF)\<rparr>;
         s = s\<lparr>seed := pthread_self h\<rparr>
     in ebind (own_queue_init h (queue_index s) s) (\<lambda>s.
        ebind (barrier_wait barrier (MaxActiveThreads s)) (\<lambda>_.
        ebind (worker_loop rand_r exec n s) (\<lambda>s.
        ebind (barrier_wait barrier (MaxActiveThreads s)) (\<lambda>_.
        Inr (core, release_queue (numa_available h), s))))))"

text \<open>The initial values of the static variables, with empty logs.\<close>

definition static_init :: "rt_state \<Rightarrow> rt_state" where
  "static_init s = s\<lparr>MaxActiveThreads := 1, active_threads := 1, steal_index := 0, bk := STEAL_BACKOFF_MIN,
     executed := [], called := []\<rparr>"

text \<open>The descriptor of the main program, which counts as called and executed from here on.\<close>

definition main_descriptor :: "nat \<Rightarrow> tpc_task_descriptor" where
  "main_descriptor region = (zero_descriptor 0)\<lparr>status := SCHEDULED_TASK, number_of_children := 0,
     parent := None, task_region := region, metadata := Some new_trie\<rparr>"

definition tpc_init :: "host \<Rightarrow> u32 \<Rightarrow> nat \<Rightarrow> nat \<Rightarrow> balloc_t \<Rightarrow> rt_state \<Rightarrow> (u32 \<times> balloc_t \<times> rt_state) res" where
  "tpc_init h threads main region b s =
     (let s = s\<lparr>MaxActiveThreads := num_threads threads (nprocs h)\<rparr> in
      ebind (balloc_init GRID_SZ (grid_mem h) b) (\<lambda>b.
      let s = s\<lparr>grid := grid_t b\<rparr> in
      ebind (barrier_init threads) (\<lambda>barrier.
      let s = s\<lparr>queue_index := 0, seed := pthread_self h\<rparr>;
          s = upd_task main (\<lambda>_. main_descriptor region) s;
          s = s\<lparr>called := [main], executed := [main]\<rparr>;
          s = s\<lparr>cur_parent := Some main, curr_task := Some main\<rparr>
      in ebind (own_queue_init h 0 s) (\<lambda>s.
         ebind (efold (own_queue_init h) [1..<unat (MaxActiveThreads s)] s) (\<lambda>s.
         ebind (barrier_wait barrier (MaxActiveThreads s)) (\<lambda>_. Inr (barrier, b, s)))))))"

section \<open>End\<close>

text \<open>The result carries what is handed back: the grid and the queue of worker 0.\<close>

definition tpc_shutdown :: "host \<Rightarrow> (u32 \<Rightarrow> u32 \<times> u32) \<Rightarrow> (nat \<Rightarrow> rt_state \<Rightarrow> rt_state res) \<Rightarrow> nat \<Rightarrow> nat \<Rightarrow>
    u32 \<times> balloc_t \<times> rt_state \<Rightarrow> (u64 \<times> deallocator \<times> rt_state) res" where
  "tpc_shutdown h rand_r exec n main = (\<lambda>(barrier, b, s).
     ebind (tpc_sync rand_r exec n s) (\<lambda>s.
     let s = s\<lparr>active_threads := 0\<rparr> in
     ebind (barrier_wait barrier (MaxActiveThreads s)) (\<lambda>_.
     let s = s\<lparr>deleted := deleted s @ [task_region (tasks s main)]\<rparr> in
     ebind (balloc_finalize b) (\<lambda>grid. Inr (grid, release_queue (numa_available h), s)))))"

text \<open>A whole program: start, the calls of \<open>main\<close>, end.\<close>

definition run_program :: "host \<Rightarrow> (u32 \<Rightarrow> u32 \<times> u32) \<Rightarrow> program \<Rightarrow> nat \<Rightarrow> u32 \<Rightarrow> nat \<Rightarrow> nat \<Rightarrow>
    balloc_t \<Rightarrow> rt_state \<Rightarrow> (u64 \<times> deallocator \<times> rt_state) res" where
  "run_program h rand_r prog n threads main region b s =
     ebind (tpc_init h threads main region b (static_init s)) (\<lambda>(barrier, b, s).
     ebind (efold (api_step rand_r (execute_task rand_r prog n) n) (prog main) s) (\<lambda>s.
     tpc_shutdown h rand_r (execute_task rand_r prog n) n main (barrier, b, s)))"


section \<open>Where the workers run\<close>

text \<open>The permutation of the cores of one node, in natural numbers.\<close>

definition spread :: "nat \<Rightarrow> nat \<Rightarrow> nat" where
  "spread c q = (if q \<noteq> 0 \<and> q \<noteq> c - 1 then if q < c div 2 then q * 2 else 1 + (q - c div 2) * 2 else q)"

lemma spread_less: "q < c \<Longrightarrow> spread c q < c"
  by (auto simp: spread_def)

definition unspread :: "nat \<Rightarrow> nat \<Rightarrow> nat" where
  "unspread c r = (if r \<noteq> 0 \<and> r \<noteq> c - 1 then if even r then r div 2 else c div 2 + r div 2 else r)"

lemma unspread_spread:
  assumes "q < c"
  shows "unspread c (spread c q) = q"
proof -
  consider "q = 0 \<or> q = c - 1" | "q \<noteq> 0" "q \<noteq> c - 1" "q < c div 2" | "q \<noteq> 0" "q \<noteq> c - 1" "\<not> q < c div 2" by blast
  then show ?thesis
  proof cases
    case 1
    then show ?thesis by (auto simp: spread_def unspread_def)
  next
    case 2
    then have "q * 2 \<noteq> c - 1" by linarith
    then show ?thesis using 2 by (simp add: spread_def unspread_def)
  next
    case 3
    then have "1 + (q - c div 2) * 2 \<noteq> c - 1" using assms by linarith
    moreover have "odd (1 + (q - c div 2) * 2)" "(1 + (q - c div 2) * 2) div 2 = q - c div 2" by simp_all
    ultimately show ?thesis using 3 by (simp add: spread_def unspread_def)
  qed
qed

lemma spread_inj: "a < c \<Longrightarrow> b < c \<Longrightarrow> spread c a = spread c b \<Longrightarrow> a = b"
  by (metis unspread_spread)

text \<open>The word arithmetic computes it, when the nodes have equally many cores.\<close>

lemma unat_narrow: "unat (x :: u64) < 2 ^ 32 \<Longrightarrow> unat (ucast x :: u32) = unat x"
  by (simp add: unsigned_ucast_eq take_bit_nat_eq_self)

lemma unat_u32_less: "unat (x :: u32) < 4294967296"
  using unsigned_less [of x, where ?'a = nat] by simp

lemma unat_widen: "unat (ucast (x :: u32) :: u64) = unat x"
proof -
  have "unat x < 2 ^ 64" using unat_u32_less [of x] by simp
  then show ?thesis by (simp add: unsigned_ucast_eq take_bit_nat_eq_self)
qed

lemma low_word: "unat (x :: u64) < 2 ^ 32 \<Longrightarrow> x AND 0xFFFFFFFF = x"
proof -
  assume "unat x < 2 ^ 32"
  then have "take_bit 32 x = x"
    by (intro word_unat_eq_iff [THEN iffD2]) (simp add: unsigned_take_bit_eq take_bit_nat_eq_self)
  moreover have "x AND 0xFFFFFFFF = take_bit 32 x"
    by (simp add: take_bit_eq_mask mask_eq_exp_minus_1)
  ultimately show ?thesis by simp
qed

lemma pad_of_nat:
  assumes "unat q < unat c"
  shows "unat (pad_of c q) = spread (unat c) (unat q)"
proof -
  have "c \<noteq> 0" using assms by auto
  then have c: "unat (c - 1) = unat c - 1" "unat c < 2 ^ 32"
    using unat_minus_one [of c] unat_u32_less [of c] by simp_all
  have h: "unat (c div 2) = unat c div 2" by (simp add: unat_div)
  have tests: "q \<noteq> 0 \<longleftrightarrow> unat q \<noteq> 0" "q \<noteq> c - 1 \<longleftrightarrow> unat q \<noteq> unat c - 1" "q < c div 2 \<longleftrightarrow> unat q < unat c div 2"
    by (metis unat_0 word_unat_eq_iff) (metis c(1) word_unat_eq_iff, metis h word_less_nat_alt)
  have dbl: "unat (q * 2) = unat q * 2" if "unat q < unat c div 2"
    using that c(2) by (subst unat_mult_lem [THEN iffD1]) auto
  have rest: "unat (1 + (q - c div 2) * 2) = 1 + (unat q - unat c div 2) * 2"
    if "\<not> unat q < unat c div 2" "unat q \<noteq> unat c - 1"
  proof -
    have d: "unat (q - c div 2) = unat q - unat c div 2" using that h by (subst unat_sub) (auto simp: word_le_nat_alt)
    have m: "unat ((q - c div 2) * 2) = (unat q - unat c div 2) * 2"
      using that assms c(2) by (subst unat_mult_lem [THEN iffD1]) (auto simp: d)
    have "1 + (unat q - unat c div 2) * 2 < 2 ^ 32" using that assms c(2) by auto
    then show ?thesis using unat_add_lem [of 1 "(q - c div 2) * 2"] by (simp only: m unat_1 len_of_numeral_defs(2) len_num0 len_bit0 len_num1) (simp)
  qed
  show ?thesis using dbl rest by (simp add: pad_of_def spread_def tests)
qed

lemma phys_core_nat:
  assumes numa: "numa_available h \<noteq> -1" and N: "0 < unat (numa_nodes h)"
    and P: "unat (nprocs h) = unat (numa_nodes h) * c" and i: "unat arg < unat (nprocs h)"
  shows "unat (phys_core h arg) = (unat arg mod unat (numa_nodes h)) * c + spread c (unat arg div unat (numa_nodes h))"
proof -
  let ?N = "unat (numa_nodes h)" and ?i = "unat arg" and ?per = "nprocs h div numa_nodes h"
  have c: "unat ?per = c" using N P by (simp add: unat_div)
  have lt: "unat (nprocs h) < 2 ^ 32" "?i < 2 ^ 32" "c < 2 ^ 32" "0 < c"
    using i P unat_u32_less [of "nprocs h"] unat_u32_less [of ?per] unfolding c by (auto intro: Nat.gr0I)
  have low: "arg AND 0xFFFFFFFF = arg" using lt(2) by (rule low_word)
  have "?i * c < 2 ^ 64" using mult_strict_mono' [OF lt(2,3)] by simp
  then have prod: "unat (arg * ucast ?per) = ?i * c"
    by (subst unat_mult_lem [THEN iffD1]) (simp_all add: unat_widen c)
  have ms: "?i * c mod unat (nprocs h) = (?i mod ?N) * c" by (simp add: P mult_mod_left)
  have ds: "?i * c div unat (nprocs h) = ?i div ?N" using lt(4) by (simp add: P)
  have q: "?i div ?N < c" using i P by (simp add: less_mult_imp_div_less mult.commute)
  have core: "unat (ucast ((arg * ucast ?per) mod ucast (nprocs h)) :: u32) = (?i mod ?N) * c"
    using lt(1) N mod_less_divisor [of "unat (nprocs h)" "?i * c"] i
    by (subst unat_narrow) (simp_all add: unat_mod prod unat_widen ms del: mod_less_divisor)
  have pad0: "unat (ucast ((arg * ucast ?per) div ucast (nprocs h)) :: u32) = ?i div ?N"
    using lt(3) q by (subst unat_narrow) (simp_all add: unat_div prod unat_widen ds)
  have pad: "unat (pad_of ?per (ucast ((arg * ucast ?per) div ucast (nprocs h)))) = spread c (?i div ?N)"
    using q by (simp add: pad_of_nat pad0 c)
  have sum: "(?i mod ?N) * c + spread c (?i div ?N) < unat (nprocs h)"
  proof -
    have "(?i mod ?N) * c + spread c (?i div ?N) < (?i mod ?N) * c + c" using spread_less [OF q] by simp
    also have "\<dots> = (?i mod ?N + 1) * c" by simp
    also have "\<dots> \<le> ?N * c" using N by (intro mult_right_mono) (simp_all add: Suc_leI)
    finally show ?thesis using P by simp
  qed
  have "unat (ucast ((arg * ucast ?per) mod ucast (nprocs h)) + pad_of ?per (ucast ((arg * ucast ?per) div ucast (nprocs h))))
      = (?i mod ?N) * c + spread c (?i div ?N)"
    using sum lt(1) by (subst unat_add_lem [THEN iffD1]) (simp_all add: core pad)
  then show ?thesis using sum numa by (simp add: phys_core_def low Let_def unat_mod)
qed

text \<open>
  C35: With equally many cores on every NUMA node, two workers never share a core as long as
  there are no more workers than cores.
\<close>

theorem workers_on_distinct_cores:
  assumes "numa_available h \<noteq> -1" and "0 < unat (numa_nodes h)"
    and "unat (nprocs h) = unat (numa_nodes h) * c"
    and "unat a < unat (nprocs h)" and "unat b < unat (nprocs h)" and "a \<noteq> b"
  shows "phys_core h a \<noteq> phys_core h b"
proof
  let ?N = "unat (numa_nodes h)"
  assume "phys_core h a = phys_core h b"
  then have eq: "(unat a mod ?N) * c + spread c (unat a div ?N) = (unat b mod ?N) * c + spread c (unat b div ?N)"
    using phys_core_nat [OF assms(1-4)] phys_core_nat [OF assms(1-3,5)] by simp
  have q: "unat a div ?N < c" "unat b div ?N < c"
    using assms(3-5) by (simp_all add: less_mult_imp_div_less mult.commute)
  have d: "(x * c + y) div c = x" "(x * c + y) mod c = y" if "y < c" for x y :: nat
    using that by simp_all
  have "unat a mod ?N = unat b mod ?N" "spread c (unat a div ?N) = spread c (unat b div ?N)"
    using eq d [OF spread_less [OF q(1)]] d [OF spread_less [OF q(2)]] by metis+
  then have "unat a mod ?N = unat b mod ?N" "unat a div ?N = unat b div ?N" using spread_inj q by blast+
  then have "unat a = unat b" by (metis div_mult_mod_eq)
  then show False using assms(6) by (simp add: word_unat_eq_iff)
qed


theorem workers_on_distinct_cores_witness:
  "phys_core \<lparr>nprocs = 8, numa_available = 0, numa_nodes = 2, pthread_self = 7, queue_mem = (\<lambda>_. None),
     grid_mem = 0\<rparr> 1 \<noteq> phys_core \<lparr>nprocs = 8, numa_available = 0, numa_nodes = 2, pthread_self = 7,
     queue_mem = (\<lambda>_. None), grid_mem = 0\<rparr> 2"
  by (rule workers_on_distinct_cores [where c = 4]) simp_all

section \<open>When the start succeeds\<close>

lemma new_Queue_ok: "new_Queue numa (Some q) (Some q) = Inr q"
  by (simp add: new_Queue_def MAX_QUEUE_ENTRIES_def)

lemma own_queue_init_eq:
  assumes "queue_mem h i = Some q"
  shows "own_queue_init h i s =
    (if i < 64 then Inr (s\<lparr>task_Queues := (task_Queues s)(i := init_queue q)\<rparr>) else Inl OutOfBounds)"
  using assms by (simp add: own_queue_init_def MAX_THREADS_def new_Queue_ok)

lemma start_workers:
  assumes mem: "\<And>i. queue_mem h i = Some (q i)"
  shows "efold (own_queue_init h) is s =
    (if \<forall>i\<in>set is. i < 64 then
       Inr (s\<lparr>task_Queues := (\<lambda>k. if k \<in> set is then init_queue (q k) else task_Queues s k)\<rparr>)
     else Inl OutOfBounds)"
proof (induction "is" arbitrary: s)
  case Nil
  then show ?case by simp
next
  case (Cons i "is")
  have "(\<lambda>k. if k \<in> set is then init_queue (q k) else ((task_Queues s)(i := init_queue (q i))) k)
      = (\<lambda>k. if k = i \<or> k \<in> set is then init_queue (q k) else task_Queues s k)" by auto
  then have "efold (own_queue_init h) is (s\<lparr>task_Queues := (task_Queues s)(i := init_queue (q i))\<rparr>) =
    (if \<forall>i\<in>set is. i < 64 then
       Inr (s\<lparr>task_Queues := (\<lambda>k. if k = i \<or> k \<in> set is then init_queue (q k) else task_Queues s k)\<rparr>)
     else Inl OutOfBounds)" by (simp add: Cons.IH cong: if_cong)
  then show ?case using own_queue_init_eq [OF mem [of i], of s] by simp
qed

text \<open>What a successful start leaves.\<close>

lemma tpc_init_result:
  assumes mem: "\<And>i. queue_mem h i = Some (q i)" and grid: "grid_mem h \<noteq> 0"
  shows "\<exists>b'. tpc_init h threads main region b s =
    (let n = num_threads threads (nprocs h) in
     if threads = 0 then Inl Aborted
     else if unat n > 64 then Inl OutOfBounds
     else if n \<noteq> threads then Inl Spins
     else Inr (threads, b', s\<lparr>MaxActiveThreads := n, grid := grid_t b', queue_index := 0, seed := pthread_self h,
       tasks := (tasks s)(main := main_descriptor region), called := [main], executed := [main],
       cur_parent := Some main, curr_task := Some main,
       task_Queues := (\<lambda>k. if k < unat n \<or> k = 0 then init_queue (q k) else task_Queues s k)\<rparr>))"
proof -
  obtain b' where b': "balloc_init GRID_SZ (grid_mem h) b = Inr b'"
    using grid by (simp add: balloc_init_def newGrid_def)
  let ?n = "num_threads threads (nprocs h)"
  have all: "(\<forall>i\<in>set [1..<unat ?n]. i < 64) \<longleftrightarrow> \<not> unat ?n > 64"
    by (auto simp: not_less)
  have qs: "(\<lambda>k. if k \<in> set [1..<unat ?n] then init_queue (q k) else ((task_Queues s)(0 := init_queue (q 0))) k)
      = (\<lambda>k. if k < unat ?n \<or> k = 0 then init_queue (q k) else task_Queues s k)"
    by (intro ext) (auto simp: Suc_le_eq)
  show ?thesis
  proof (cases "threads = 0")
    case True
    then show ?thesis using b' by (simp add: tpc_init_def barrier_init_def)
  next
    case False
    let ?s = "s\<lparr>MaxActiveThreads := ?n, grid := grid_t b', queue_index := 0, seed := pthread_self h,
       tasks := (tasks s)(main := main_descriptor region), called := [main], executed := [main],
       cur_parent := Some main, curr_task := Some main\<rparr>"
    have "tpc_init h threads main region b s =
      ebind (own_queue_init h 0 ?s) (\<lambda>s.
      ebind (efold (own_queue_init h) [1..<unat (MaxActiveThreads s)] s) (\<lambda>s.
      ebind (barrier_wait threads (MaxActiveThreads s)) (\<lambda>_. Inr (threads, b', s))))"
      using b' False by (simp add: tpc_init_def barrier_init_def Let_def upd_task_def)
    also have "\<dots> = (if unat ?n > 64 then Inl OutOfBounds else
      ebind (barrier_wait threads ?n) (\<lambda>_. Inr (threads, b',
        ?s\<lparr>task_Queues := (\<lambda>k. if k < unat ?n \<or> k = 0 then init_queue (q k) else task_Queues s k)\<rparr>)))"
      unfolding own_queue_init_eq [OF mem [of 0]]
      using all qs by (simp add: start_workers [OF mem] del: set_upt cong: if_cong)
    finally show ?thesis using False
      by (intro exI [of _ b']) (auto simp: Let_def barrier_wait_def)
  qed
qed

text \<open>
  C36: When memory is not exhausted, \<open>tpc_init\<close> succeeds exactly for 1 to 64 threads: 0, which
  the code means to replace by the number of cores, fails in \<open>pthread_barrier_init\<close>, and more
  than 64 end outside the arrays of queues or at a barrier that waits for threads never created.
\<close>

theorem tpc_init_succeeds:
  assumes "grid_mem h \<noteq> 0" and "\<forall>i. queue_mem h i \<noteq> None"
  shows "(\<exists>r. tpc_init h threads main region b s = Inr r) \<longleftrightarrow> 1 \<le> threads \<and> threads \<le> 64"
proof -
  have q: "queue_mem h i = Some (the (queue_mem h i))" for i using assms(2) by auto
  let ?n = "num_threads threads (nprocs h)"
  have "(\<exists>r. tpc_init h threads main region b s = Inr r) \<longleftrightarrow> threads \<noteq> 0 \<and> \<not> unat ?n > 64 \<and> ?n = threads"
    using tpc_init_result [OF q assms(1), of threads main region b s] by (auto simp: Let_def split: if_splits)
  also have "\<dots> \<longleftrightarrow> 1 \<le> threads \<and> threads \<le> 64"
  proof -
    have pos: "threads \<noteq> 0 \<longleftrightarrow> 1 \<le> threads" by (simp only: word_le_nat_alt unat_1 One_nat_def Suc_le_eq unat_gt_0)
    have bound: "\<not> unat x > 64 \<longleftrightarrow> x \<le> 64" for x :: u32 by (simp add: word_le_nat_alt not_less)
    show ?thesis unfolding bound pos
      by (auto simp: num_threads_def MAX_THREADS_def not_le split: if_splits)
  qed
  finally show ?thesis .
qed


text \<open>A machine with four cores and memory to spare, and the state in which a program starts.\<close>

definition four_cores :: host where
  "four_cores = \<lparr>nprocs = 4, numa_available = -1, numa_nodes = 1, pthread_self = 7,
     queue_mem = (\<lambda>_. Some \<lparr>bottom = 0, top = 0, size = 0, entries = []\<rparr>), grid_mem = 0x10000\<rparr>"

definition no_grid :: balloc_t where
  "no_grid = \<lparr>grid_t = 0, Top = 0, grid_size_g = 0, block_size_g = BLOCK_SZ\<rparr>"

definition at_boot :: rt_state where
  "at_boot = \<lparr>tasks = (\<lambda>t. (zero_descriptor 0)\<lparr>parent := Some 0\<rparr>),
     metas = (\<lambda>_. \<lparr>m_type = 0, readers = init_List, m_owner = 0, dependent_metadata = None\<rparr>), next_meta = 0,
     grid = 0, deleted = [], task_Queues = (\<lambda>_. \<lparr>bottom = 0, top = 0, size = 0, entries = []\<rparr>),
     MaxActiveThreads = 0, active_threads = 0, queue_index = 0, curr_task = None, cur_parent = None,
     steal_index = 0, bk = 0, seed = 0, executed = [], called = []\<rparr>"

theorem tpc_init_succeeds_witness:
  "(\<exists>r. tpc_init four_cores 1 0 5 no_grid at_boot = Inr r) \<and> \<not> (\<exists>r. tpc_init four_cores 0 0 5 no_grid at_boot = Inr r)
    \<and> \<not> (\<exists>r. tpc_init four_cores 65 0 5 no_grid at_boot = Inr r)"
  using tpc_init_succeeds [of four_cores 1 0 5 no_grid at_boot]
    tpc_init_succeeds [of four_cores 0 0 5 no_grid at_boot]
    tpc_init_succeeds [of four_cores 65 0 5 no_grid at_boot]
  by (simp add: four_cores_def)

end
