(* ===== verification/Runtime_Ok.thy ===== *)
theory Runtime_Ok
  imports Runtime_Inv Runtime_Init
begin

text \<open>
  The scheduler as one worker runs it, whatever program the tasks run and however executions nest:
  every task is executed at most once, and when \<open>tpc_sync\<close> returns the tasks its caller spawned
  have all been executed and released.
\<close>

lemma rt_inv_deleted: "rt_inv off (s\<lparr>deleted := x\<rparr>) = rt_inv off s"
  by (simp add: rt_inv_def queues_inv_def tasks_inv_def queued_def unfinished_def)

text \<open>A task that starts enters the log.\<close>

lemma log_inv:
  assumes "rt_inv None s" and "in_hand t s"
  shows "rt_inv None (s\<lparr>executed := executed s @ [t]\<rparr>)"
proof -
  have q: "queued (s\<lparr>executed := executed s @ [t]\<rparr>) = queued s" "unfinished p (s\<lparr>executed := executed s @ [t]\<rparr>) = unfinished p s" for p
    by (simp_all add: queued_def unfinished_def)
  have "t \<in> set (called s)" using assms by (auto simp: in_hand_def rt_inv_def tasks_inv_def)
  then show ?thesis using assms by (auto simp: rt_inv_def queues_inv_def tasks_inv_def in_hand_def q)
qed

text \<open>The end of a release: the task leaves the set of unfinished children, then the counter follows.\<close>

lemma complete_task:
  assumes inv: "rt_inv None s" and t: "status (tasks s t) = RELEASING_TASK"
  shows "rt_inv (parent (tasks s t)) (set_status t COMPLETE_TASK s)"
proof -
  let ?u = "set_status t COMPLETE_TASK s"
  have mem: "t \<in> set (called s)" "t \<in> set (executed s)" "t \<notin> set (queued s)"
    using inv t by (auto simp: rt_inv_def tasks_inv_def status_order)
  have unf: "unfinished p s = (if parent (tasks s t) = Some p then insert t (unfinished p ?u) else unfinished p ?u)"
    and new: "t \<notin> unfinished p ?u" "finite (unfinished p ?u)" for p
    using mem t by (auto simp: unfinished_def)
  have "tasks_inv ?u"
    using inv mem by (intro set_status_tasks_inv) (auto simp: rt_inv_def status_order)
  moreover have "number_of_children (tasks ?u p)
      = of_nat (card (unfinished p ?u) + (if parent (tasks s t) = Some p then 1 else 0))" for p
    using inv unf [of p] new [of p] by (simp add: rt_inv_def)
  ultimately show ?thesis using inv by (simp add: rt_inv_def)
qed

lemma decrement:
  assumes inv: "rt_inv (Some p) s"
  shows "rt_inv None (upd_task p (\<lambda>d. d\<lparr>number_of_children := number_of_children d - 1\<rparr>) s)"
proof -
  let ?u = "upd_task p (\<lambda>d. d\<lparr>number_of_children := number_of_children d - 1\<rparr>) s"
  have t: "status (tasks ?u q) = status (tasks s q)" "parent (tasks ?u q) = parent (tasks s q)"
    "number_of_children (tasks ?u q) = number_of_children (tasks s q) - (if q = p then 1 else 0)" for q
    by (simp_all add: tasks_upd_task)
  have "unfinished q ?u = unfinished q s" for q by (simp add: unfinished_def t)
  then show ?thesis using inv by (simp add: rt_inv_def queues_inv_def tasks_inv_def t)
qed

section \<open>What the executor's clients rely on\<close>

text \<open>
  \<open>schedule_task\<close>, \<open>release_task\<close> and the loops only need to know of the function that executes a
  task that it keeps the invariant when the task is in hand.
\<close>

locale executor =
  fixes exec :: "nat \<Rightarrow> rt_state \<Rightarrow> rt_state res"
  assumes exec_good: "exec t s = Inr s' \<Longrightarrow> good (in_hand t s) s s'"
begin

lemma schedule_task_good:
  assumes "schedule_task exec t s = Inr s'"
  shows "good True s s'"
proof (cases "status (tasks s t) = CREATED_TASK")
  case False
  then show ?thesis using assms by (simp add: schedule_task_def fault_simps)
next
  case True
  let ?u = "set_status t SCHEDULED_TASK s"
  let ?k = "queue_index s" and ?q = "task_Queues s (queue_index s)"
  obtain r q where eq: "enqueue t ?q = (r, q)" by (metis surj_pair)
  let ?v = "set_queue ?k q ?u"
  have run: "(if r = 0 then exec t ?v else Inr ?v) = Inr s'"
    using assms True eq
    by (simp add: schedule_task_def fault_simps set_queue_def set_status_def Let_def split: if_splits)
  have fresh: "t \<notin> set (queued s) \<and> t \<notin> set (executed s) \<and> t \<in> set (called s)" if "rt_inv None s"
    using that True by (force simp: rt_inv_def tasks_inv_def status_order)
  have u: "good True s ?u"
    using True fresh by (intro set_status_good) (auto simp: status_order)
  have hand: "in_hand t ?u" if "rt_inv None s"
    using fresh [OF that] by (simp add: in_hand_def)
  have v: "good True s ?v \<and> (distinct (called ?v) \<longrightarrow> rt_inv None s \<longrightarrow> r = 0 \<longrightarrow> in_hand t ?v)"
  proof -
    have "rt_inv None ?v \<and> kept s ?v \<and> (r = 0 \<longrightarrow> in_hand t ?v)" if d: "distinct (called s)" and inv: "rt_inv None s"
    proof -
      have iu: "rt_inv None ?u" "kept s ?u" using u d inv by (auto simp: good_def)
      have k: "?k < unat (MaxActiveThreads ?u)" "dq_inv ?q" using own_queue [OF inv] by (auto simp: set_status_def)
      have q: "r = fst (list_push MAX_QUEUE_ENTRIES t (dq_list ?q))" "dq_inv q" "dq_list q = snd (list_push MAX_QUEUE_ENTRIES t (dq_list ?q))"
        using dq.push_sim [OF k(2), of t] eq by auto
      have tq: "task_Queues ?u ?k = ?q" by (simp add: set_status_def)
      show ?thesis
      proof (cases "r = 0")
        case True
        then have same: "dq_list q = dq_list (task_Queues ?u ?k)" using q tq by (auto simp: list_push_def split: if_splits)
        then have "rt_inv None ?v" by (rule queue_same_inv [OF iu(1) k(1) q(2)])
        moreover have "set (queued ?v) = set (queued ?u)" using set_queue_same [OF k(1) same] by (rule mset_eq_setD)
        ultimately show ?thesis using hand [OF inv] iu(2) by (simp add: in_hand_def kept_def)
      next
        case False
        then have "dq_list q = dq_list (task_Queues ?u ?k) @ [t]" using q tq by (auto simp: list_push_def split: if_splits)
        then show ?thesis using False queue_gain_inv [OF iu(1) k(1) q(2) _ hand [OF inv]] iu(2) by (simp add: kept_def)
      qed
    qed
    then show ?thesis using u by (auto simp: good_def logs_def)
  qed
  show ?thesis
  proof (cases "r = 0")
    case True
    then have "exec t ?v = Inr s'" using run by simp
    from exec_good [OF this] show ?thesis using v True by (auto intro: good_trans)
  next
    case False
    then show ?thesis using run v by simp
  qed
qed

lemma create_dependencies_good:
  assumes "create_dependencies (schedule_task exec) t s = Inr s'"
  shows "good (status (tasks s t) = CREATING_TASK \<and> t \<in> set (called s)) s s'"
proof -
  let ?P = "\<lambda>s. status (tasks s t) = CREATING_TASK \<and> t \<in> set (called s)"
  from assms obtain w u where loop: "efold (\<lambda>i (v, s).
        ebind (handle_argument i t s) (\<lambda>(w, s). Inr (v + w, s))) [0..<length (args (tasks s t))] (0, s) = Inr (w, u)"
      and fin: "(if w = 0 then schedule_task exec t (upd_task t (\<lambda>d. d\<lparr>status := CREATED_TASK\<rparr>) u)
        else Inr (upd_task t (\<lambda>d. d\<lparr>waitfor := w, status := CREATED_TASK\<rparr>) u)) = Inr s'"
    by (auto simp: create_dependencies_def fault_simps)
  have q: "quiet s u" using quietlyD [OF arguments_quiet loop] .
  have Pu: "?P u" if "?P s"
    using that q rt_more(5) [of u s] by (simp add: quiet_def)
  have created: "good (?P v) v (set_status t CREATED_TASK v)" for v
    by (intro set_status_good) (force simp: status_order rt_inv_def tasks_inv_def)
  have end': "good (?P u) u s'"
  proof (cases "w = 0")
    case True
    then have "schedule_task exec t (set_status t CREATED_TASK u) = Inr s'"
      using fin by (simp add: set_status_def)
    from schedule_task_good [OF this] created show ?thesis by (auto intro: good_trans)
  next
    case False
    let ?v = "upd_task t (\<lambda>d. d\<lparr>waitfor := w\<rparr>) u"
    have s': "s' = set_status t CREATED_TASK ?v"
      using False fin by (simp add: set_status_def upd_task_def)
    have "quiet u ?v" by (rule quiet_upd_task) simp
    then have "good (?P u) u ?v" by (rule quiet_good)
    then show ?thesis unfolding s'
      by (rule good_trans [OF _ created]) (simp add: tasks_upd_task)
  qed
  show ?thesis using quiet_good [OF q] Pu by (auto intro: good_trans [OF _ end'])
qed

text \<open>A call of \<open>tpc_call\<close>: the parent's counter and its set of unfinished children grow together.\<close>

lemma tpc_call_good:
  assumes "tpc_call (schedule_task exec) t s = Inr s'"
  shows "good True s s'"
proof -
  define u where "u = (case parent (tasks s t) of None \<Rightarrow> s
    | Some p \<Rightarrow> upd_task p (\<lambda>d. d\<lparr>number_of_children := v_atomic_incr_long (number_of_children d)\<rparr>) s)"
  define v where "v = (set_status t CREATING_TASK u)\<lparr>called := called u @ [t]\<rparr>"
  have run: "create_dependencies (schedule_task exec) t v = Inr s'"
    using assms by (simp add: tpc_call_def v_def u_def set_status_def Let_def)
  have u: "task_Queues u = task_Queues s" "MaxActiveThreads u = MaxActiveThreads s" "queue_index u = queue_index s"
      "steal_index u = steal_index s" "called u = called s" "executed u = executed s" "queued u = queued s"
      "\<And>q. status (tasks u q) = status (tasks s q)" "\<And>q. parent (tasks u q) = parent (tasks s q)"
      "\<And>q. number_of_children (tasks u q) = number_of_children (tasks s q) + (if parent (tasks s t) = Some q then 1 else 0)"
    by (auto simp: u_def tasks_upd_task v_atomic_incr_long_def split: option.split)
  have v: "task_Queues v = task_Queues s" "MaxActiveThreads v = MaxActiveThreads s" "queue_index v = queue_index s"
      "steal_index v = steal_index s" "called v = called s @ [t]" "executed v = executed s" "queued v = queued s"
      "\<And>q. status (tasks v q) = (if q = t then CREATING_TASK else status (tasks s q))"
      "\<And>q. parent (tasks v q) = parent (tasks s q)"
      "\<And>q. number_of_children (tasks v q) = number_of_children (tasks s q) + (if parent (tasks s t) = Some q then 1 else 0)"
    using u by (simp_all add: v_def set_status_def tasks_upd_task queued_def)
  have "rt_inv None v \<and> kept s v" if d: "distinct (called v)" and inv: "rt_inv None s"
  proof -
    have new: "t \<notin> set (called s)" using d v(5) by simp
    then have t: "status (tasks s t) = CREATING_TASK" "t \<notin> set (executed s)" "t \<notin> set (queued s)"
      using inv by (auto simp: rt_inv_def tasks_inv_def)
    have st: "status (tasks v q) = status (tasks s q)" for q using v(8) t by simp
    have unf: "unfinished p v = unfinished p s \<union> (if parent (tasks s t) = Some p then {t} else {})" for p
      using t by (auto simp: unfinished_def v(5,9) st)
    have "card (unfinished p v) = card (unfinished p s) + (if parent (tasks s t) = Some p then 1 else 0)" for p
    proof -
      have "t \<notin> unfinished p s" "finite (unfinished p s)" using new by (auto simp: unfinished_def)
      then show ?thesis by (simp add: unf)
    qed
    then have "number_of_children (tasks v p) = of_nat (card (unfinished p v))" for p
      using inv v(10) by (simp add: rt_inv_def)
    moreover have "queues_inv v" using inv v by (simp add: rt_inv_def queues_inv_def)
    moreover have "tasks_inv v" using inv by (auto simp: rt_inv_def tasks_inv_def st v(5,6,7))
    ultimately show ?thesis by (simp add: rt_inv_def kept_def st)
  qed
  moreover have "curr_task v = curr_task s"
    by (simp add: v_def set_status_def u_def split: option.split)
  ultimately have "good True s v" using v(2,5,6,9) by (auto simp: good_def logs_def)
  then show ?thesis
    by (rule good_trans [OF _ create_dependencies_good [OF run]]) (simp add: v(5,8))
qed

lemma fire_one_good:
  assumes "fire_one (schedule_task exec) w s = Inr s'"
  shows "good True s s'"
proof -
  let ?u = "upd_task w (\<lambda>d. d\<lparr>fired := fired d + 1\<rparr>) s"
  have "good True s ?u" by (intro quiet_good quiet_upd_task) simp
  moreover from assms have "good True ?u s'"
    by (auto simp: fire_one_def Let_def fault_simps intro: schedule_task_good split: if_splits)
  ultimately show ?thesis by (rule good_trans) simp
qed

lemma fire_loop_good: "fire_loop (schedule_task exec) chain s = Inr s' \<Longrightarrow> good True s s'"
proof (induction chain arbitrary: s)
  case Nil
  then show ?case by simp
next
  case (Cons w chain)
  then obtain u where "fire_one (schedule_task exec) w s = Inr u" "fire_loop (schedule_task exec) chain u = Inr s'"
    by (auto simp: fault_simps)
  then show ?case using good_trans [OF fire_one_good Cons.IH] by blast
qed

lemma fire_dependencies_good:
  assumes "fire_dependencies (schedule_task exec) t s = Inr s'"
  shows "\<exists>u. good True s u \<and> status (tasks s t) = RELEASING_TASK
    \<and> (\<exists>x. s' = (set_status t COMPLETE_TASK u)\<lparr>deleted := x\<rparr>)"
proof -
  from assms obtain chain st u where t: "status (tasks s t) = RELEASING_TASK"
      and loop: "fire_loop (schedule_task exec) chain (upd_task t (\<lambda>d. d\<lparr>to_notify := st\<rparr>) s) = Inr u"
      and s': "\<exists>x. s' = (set_status t COMPLETE_TASK u)\<lparr>deleted := x\<rparr>"
    by (auto simp: fire_dependencies_def fault_simps set_status_def Let_def)
  have "good True s (upd_task t (\<lambda>d. d\<lparr>to_notify := st\<rparr>) s)" by (intro quiet_good quiet_upd_task) simp
  then have "good True s u" by (rule good_trans [OF _ fire_loop_good [OF loop]]) simp
  then show ?thesis using t s' by blast
qed

lemma release_task_good:
  "release_task (schedule_task exec) n t s = Inr s' \<Longrightarrow> good True s s'"
proof (induction n arbitrary: t s)
  case 0
  then show ?case by simp
next
  case (Suc n)
  show ?case
  proof (cases "status (tasks s t) = EXECUTED_TASK")
    case False
    then show ?thesis using Suc.prems by simp
  next
    case ex: True
    let ?r = "set_status t RELEASING_TASK s"
    from Suc.prems ex obtain v where fire: "fire_dependencies (schedule_task exec) t ?r = Inr v"
      and rest: "(case parent (tasks v t) of None \<Rightarrow> Inr v
        | Some p \<Rightarrow>
            let s = upd_task p (\<lambda>d. d\<lparr>number_of_children := number_of_children d - 1\<rparr>) v;
                children = number_of_children (tasks s p)
            in ebind (c_assert (sint children \<ge> 0)) (\<lambda>_.
               if children = 0 \<and> status (tasks s p) = EXECUTED_TASK
               then release_task (schedule_task exec) n p s else Inr s)) = Inr s'"
      by (auto simp: fault_simps set_status_def Let_def simp del: split_paired_Ex)
    obtain u x where u: "good True ?r u" and v: "v = (set_status t COMPLETE_TASK u)\<lparr>deleted := x\<rparr>"
      using fire_dependencies_good [OF fire] by blast
    have r: "good True s ?r"
      using ex by (intro set_status_good) (auto simp: status_order rt_inv_def tasks_inv_def)
    have su: "good True s u" by (rule good_trans [OF r u]) simp
    define off where "off = parent (tasks u t)"
    have vinv: "rt_inv off' v = rt_inv off' (set_status t COMPLETE_TASK u)" for off'
      unfolding v by (rule rt_inv_deleted)
    have vf: "called v = called u" "executed v = executed u" "parent (tasks v q) = parent (tasks u q)"
      "status (tasks v q) = (if q = t then COMPLETE_TASK else status (tasks u q))" "curr_task v = curr_task u"
      "MaxActiveThreads v = MaxActiveThreads u" for q
      by (simp_all add: v)
    have lv: "logs s v" using su by (auto simp: good_def logs_def vf)
    have iv: "rt_inv off v \<and> kept s v" if d: "distinct (called v)" and inv: "rt_inv None s"
    proof -
      have ru: "rt_inv None ?r" "distinct (called ?r)" "kept s ?r" using goodD [OF r _ inv] d lv logs_distinct by auto
      have "status (tasks u t) = RELEASING_TASK"
        using goodD(2) [OF u _ ru(1)] d vf by (auto simp: kept_def status_order)
      moreover have "rt_inv None u" "kept s u" using goodD [OF su _ inv] d vf by auto
      ultimately show ?thesis using complete_task [of u t] ex by (auto simp: vinv off_def kept_def vf status_order)
    qed
    show ?thesis
    proof (cases off)
      case None
      then have "s' = v" using rest vf(3) by (simp add: off_def)
      then show ?thesis using iv lv None by (simp add: good_def)
    next
      case (Some p)
      let ?w = "upd_task p (\<lambda>d. d\<lparr>number_of_children := number_of_children d - 1\<rparr>) v"
      have w: "called ?w = called v" "executed ?w = executed v" "parent (tasks ?w q) = parent (tasks v q)"
        "status (tasks ?w q) = status (tasks v q)" "curr_task ?w = curr_task v" for q by (simp_all add: tasks_upd_task)
      have gw: "good True s ?w"
        using lv iv Some decrement [of p v] by (auto simp: good_def logs_def kept_def w)
      have "parent (tasks v t) = Some p" using Some vf(3) by (simp add: off_def)
      with rest have "s' = ?w \<or> release_task (schedule_task exec) n p ?w = Inr s'"
        by (auto simp: Let_def fault_simps split: if_splits)
      then show ?thesis using gw Suc.IH by (auto intro: good_trans)
    qed
  qed
qed

text \<open>The loops that search for work and run it.\<close>

lemma work_once_good:
  assumes "work_once rand_r exec s = Inr s'"
  shows "good True s s'"
proof -
  from assms obtain x u where f: "find_work rand_r s = Inr (x, u)"
      and run: "(case x of Some t \<Rightarrow> exec t u | None \<Rightarrow> Inr u) = Inr s'"
    by (auto simp: work_once_def fault_simps)
  note g = find_work_good [OF f]
  show ?thesis
  proof (cases x)
    case None
    then show ?thesis using g run by simp
  next
    case (Some t)
    then have "exec t u = Inr s'" using run by simp
    then show ?thesis using g Some by (blast intro: good_trans exec_good)
  qed
qed

lemma sync_loop_good:
  "sync_loop rand_r exec n tmp s = Inr s' \<Longrightarrow> good True s s' \<and> number_of_children (tasks s' tmp) = 0"
proof (induction n arbitrary: s)
  case 0
  then show ?case by simp
next
  case (Suc n)
  show ?case
  proof (cases "number_of_children (tasks s tmp) = 0")
    case True
    then show ?thesis using Suc.prems by simp
  next
    case False
    then obtain u where "work_once rand_r exec s = Inr u" "sync_loop rand_r exec n tmp u = Inr s'"
      using Suc.prems by (auto simp: fault_simps)
    then show ?thesis using Suc.IH work_once_good good_trans by blast
  qed
qed

lemma tpc_sync_good:
  assumes "tpc_sync rand_r exec n s = Inr s'"
  shows "good True s s' \<and> (\<exists>p. curr_task s = Some p \<and> number_of_children (tasks s' p) = 0)"
proof -
  from assms obtain p u where c: "curr_task s = Some p" and l: "sync_loop rand_r exec n p s = Inr u"
      and s': "s' = u\<lparr>curr_task := Some p, cur_parent := Some p\<rparr>"
    by (auto simp: tpc_sync_def fault_simps split: option.splits)
  have "curr_task u = Some p" using good_logs [OF conjunct1 [OF sync_loop_good [OF l]]] c by (simp add: logs_def)
  then have "good True u s'" unfolding s' by (intro good_vars) simp_all
  then have "good True s s'" using sync_loop_good [OF l] by (blast intro: good_trans)
  then show ?thesis using c sync_loop_good [OF l] s' by simp
qed

lemma worker_loop_good: "worker_loop rand_r exec n s = Inr s' \<Longrightarrow> good True s s'"
  by (induction n arbitrary: s) (auto simp: fault_simps split: if_splits intro: good_trans work_once_good)

lemma api_step_good: "api_step rand_r exec n a s = Inr s' \<Longrightarrow> good True s s'"
  using tpc_call_good tpc_sync_good by (auto simp: api_step_def split: api_call.splits)

lemma api_steps_good: "efold (api_step rand_r exec n) as s = Inr s' \<Longrightarrow> good True s s'"
  by (erule efold_rel) (auto intro: api_step_good good_trans)

lemma wrapper_good:
  assumes "wrapper rand_r prog exec n t s = Inr s'"
  shows "good (in_hand t s) s s' \<and> t \<in> set (executed s')"
proof -
  let ?u = "s\<lparr>executed := executed s @ [t]\<rparr>"
  have run: "efold (api_step rand_r exec n) (prog t) ?u = Inr s'" using assms by (simp add: wrapper_def)
  have "good (in_hand t s) s ?u" using log_inv by (auto simp: good_def logs_def kept_def)
  moreover have "good True ?u s'" by (rule api_steps_good [OF run])
  moreover have "t \<in> set (executed s')" using good_logs [OF \<open>good True ?u s'\<close>] by (auto simp: logs_def)
  ultimately show ?thesis by (blast intro: good_trans)
qed

end

section \<open>The executor\<close>

lemma execute_task_good:
  "execute_task rand_r prog n t s = Inr s' \<Longrightarrow> good (in_hand t s) s s'"
proof (induction n arbitrary: t s s')
  case 0
  then show ?case by simp
next
  case (Suc n)
  have ex: "executor (execute_task rand_r prog n)" by (rule executor.intro) (rule Suc.IH)
  define r where "r = s\<lparr>cur_parent := Some t, curr_task := Some t\<rparr>"
  let ?m = "upd_task t (\<lambda>d. d\<lparr>metadata := Some new_trie\<rparr>) r"
  from Suc.prems obtain u where w: "wrapper rand_r prog (execute_task rand_r prog n) n t ?m = Inr u"
      and st: "status (tasks u t) = SCHEDULED_TASK"
      and rest: "(let s2 = set_status t EXECUTED_TASK u in
        if sint (number_of_children (tasks s2 t)) > 0 then Inr (s2\<lparr>curr_task := curr_task s, cur_parent := curr_task s\<rparr>)
        else ebind (release_task (schedule_task (execute_task rand_r prog n)) n t s2) (\<lambda>s3.
             Inr (s3\<lparr>curr_task := curr_task s, cur_parent := curr_task s\<rparr>))) = Inr s'"
    by (auto simp: fault_simps set_status_def Let_def r_def)
  let ?e = "set_status t EXECUTED_TASK u"
  have hand: "in_hand t ?m = in_hand t r" by (simp add: in_hand_def tasks_upd_task)
  have "good (in_hand t r) r ?m" by (intro quiet_good quiet_upd_task) simp
  note w' = executor.wrapper_good [OF ex w]
  have u: "good (in_hand t r) r u"
    by (rule good_trans [OF \<open>good (in_hand t r) r ?m\<close> conjunct1 [OF w']]) (simp only: hand)
  have tu: "t \<in> set (executed u)" by (rule conjunct2 [OF w'])
  have "good True u ?e"
    using st tu by (intro set_status_good) (auto simp: status_order rt_inv_def tasks_inv_def)
  then have e: "good (in_hand t r) r ?e" by (rule good_trans [OF u]) simp
  obtain v where v: "v = ?e \<or> release_task (schedule_task (execute_task rand_r prog n)) n t ?e = Inr v"
      and s': "s' = v\<lparr>curr_task := curr_task s, cur_parent := curr_task s\<rparr>"
    using rest by (auto simp: Let_def fault_simps split: if_splits)
  have "good (in_hand t r) r v"
    using v good_trans [OF e executor.release_task_good [OF ex]] e by blast
  then show ?case unfolding s' r_def vars_inv by (rule good_nested)
qed

interpretation ex: executor "execute_task rand_r prog n" for rand_r prog n
  by unfold_locales (rule execute_task_good)

section \<open>From the start\<close>

text \<open>Descriptors that \<open>tpc_task_descriptor_alloc\<close> has zeroed.\<close>

definition fresh_tasks :: "nat \<Rightarrow> rt_state \<Rightarrow> bool" where
  "fresh_tasks main s \<longleftrightarrow>
     (\<forall>t. t \<noteq> main \<longrightarrow> status (tasks s t) = CREATING_TASK \<and> number_of_children (tasks s t) = 0)"

lemma own_queue_init_frame:
  assumes "own_queue_init h i s = Inr s'"
  shows "\<exists>q. s' = set_queue i (init_queue q) s \<and> i < 64"
  using assms by (auto simp: own_queue_init_def set_queue_def fault_simps MAX_THREADS_def split: if_splits)

text \<open>After the queues are made, each is empty.\<close>

definition made :: "nat set \<Rightarrow> rt_state \<Rightarrow> rt_state \<Rightarrow> bool" where
  "made ks s s' \<longleftrightarrow> (\<exists>f. s' = s\<lparr>task_Queues := f\<rparr> \<and> (\<forall>k\<in>ks. dq_inv (f k) \<and> dq_list (f k) = []))"

lemma made_step:
  assumes "made ks s u" and "own_queue_init h i u = Inr s'"
  shows "made (insert i ks) s s'"
proof -
  obtain q where "s' = set_queue i (init_queue q) u" using own_queue_init_frame [OF assms(2)] by blast
  then show ?thesis using assms(1) by (auto simp: made_def set_queue_def)
qed

lemma made_loop: "efold (own_queue_init h) is u = Inr s' \<Longrightarrow> made ks s u \<Longrightarrow> made (ks \<union> set is) s s'"
proof (induction "is" arbitrary: ks u)
  case Nil
  then show ?case by simp
next
  case (Cons i "is")
  then obtain v where "own_queue_init h i u = Inr v" "efold (own_queue_init h) is v = Inr s'" by (auto simp: fault_simps)
  then show ?case using Cons.IH [of v "insert i ks"] made_step [OF Cons.prems(2)] by simp
qed

lemma tpc_init_inv:
  assumes init: "tpc_init h threads main region b (static_init s) = Inr (barrier, b', s')" and fresh: "fresh_tasks main s"
  shows "rt_inv None s' \<and> called s' = [main] \<and> executed s' = [main] \<and> curr_task s' = Some main"
proof -
  let ?n = "num_threads threads (nprocs h)"
  define u where "u = (static_init s)\<lparr>MaxActiveThreads := ?n, grid := grid_t b', queue_index := 0, seed := pthread_self h,
       tasks := (tasks s)(main := main_descriptor region), called := [main], executed := [main],
       cur_parent := Some main, curr_task := Some main\<rparr>"
  from init obtain v where v: "own_queue_init h 0 u = Inr v"
      "efold (own_queue_init h) [1..<unat (MaxActiveThreads v)] v = Inr s'" and n: "threads \<noteq> 0" "barrier = threads"
      "barrier_wait barrier (MaxActiveThreads s') = Inr ()"
    by (auto simp: tpc_init_def Let_def fault_simps barrier_init_def upd_task_def u_def static_init_def split: if_splits)
  have "made {} u u" by (auto simp: made_def intro: exI [of _ "task_Queues u"])
  then have "made {0} u v" using made_step [OF _ v(1)] by simp
  from made_loop [OF v(2) this] have m: "made ({0} \<union> {1..<unat (MaxActiveThreads v)}) u s'" by simp
  have maxv: "MaxActiveThreads v = ?n" using own_queue_init_frame [OF v(1)] by (auto simp: u_def)
  from m obtain f where f: "s' = u\<lparr>task_Queues := f\<rparr>"
      "\<And>k. k \<in> {0} \<union> {1..<unat ?n} \<Longrightarrow> dq_inv (f k) \<and> dq_list (f k) = []"
    unfolding made_def maxv by blast
  have max: "0 < unat ?n"
    using n f(1) by (auto simp: barrier_wait_def u_def unat_gt_0 split: if_splits)
  have qs: "dq_inv (f k) \<and> dq_list (f k) = []" if "k < unat ?n" for k
    using f(2) [of k] that by (cases k) auto
  have "queued s' = []" using qs by (simp add: queued_def f(1) u_def)
  moreover have "unfinished p s' = {}" for p
    by (auto simp: unfinished_def f(1) u_def main_descriptor_def)
  ultimately have "rt_inv None s'"
    using fresh max qs
    by (auto simp: rt_inv_def queues_inv_def tasks_inv_def f(1) u_def static_init_def main_descriptor_def
      zero_descriptor_def fresh_tasks_def status_order)
  then show ?thesis by (simp add: f(1) u_def)
qed

section \<open>Whole programs\<close>

text \<open>What the counter says once it is zero.\<close>

lemma no_unfinished:
  assumes inv: "rt_inv None s" and zero: "number_of_children (tasks s p) = 0" and short: "length (called s) < 2 ^ 32"
    and c: "c \<in> set (called s)" "parent (tasks s c) = Some p"
  shows "status (tasks s c) = COMPLETE_TASK \<and> c \<in> set (executed s)"
proof -
  have "card (unfinished p s) \<le> card (set (called s))" by (intro card_mono) (auto simp: unfinished_def)
  also have "\<dots> \<le> length (called s)" by (rule card_length)
  finally have "card (unfinished p s) < 2 ^ 32" using short by simp
  moreover have "(of_nat (card (unfinished p s)) :: u32) = 0" using inv zero by (simp add: rt_inv_def)
  ultimately have "card (unfinished p s) = 0" using of_nat_u32_inj [of _ 0] by auto
  then have "unfinished p s = {}" by (simp add: unfinished_def)
  then have "status (tasks s c) = COMPLETE_TASK" using c by (auto simp: unfinished_def)
  then show ?thesis using inv by (auto simp: rt_inv_def tasks_inv_def status_order)
qed

text \<open>A concrete run: \<open>main\<close> calls two tasks on a machine with four cores, one thread.\<close>

definition two_calls :: program where
  "two_calls t = (if t = 0 then [Call 1, Call 2] else [])"

lemmas run_simps = two_calls_def at_boot_def no_grid_def four_cores_def tpc_call_def api_step_def
  create_dependencies_def schedule_task_def upd_task_def zero_descriptor_def v_atomic_incr_long_def enqueue_def
  run_program_def tpc_init_def static_init_def num_threads_def MAX_THREADS_def balloc_init_def newGrid_def
  barrier_init_def barrier_wait_def own_queue_init_def new_Queue_ok init_queue_def slot_def main_descriptor_def
  MAX_QUEUE_ENTRIES_def Let_def tpc_shutdown_def tpc_sync_def work_once_def find_work_def pop_task_def
  dequeue_front_def cas_top_def isEmpty_Queue_def wrapper_def fire_dependencies_def less_eq_task_status_def
  balloc_finalize_def release_queue_def numeral_3_eq_3

lemma run_two_calls:
  "\<exists>s'. run_program four_cores (\<lambda>x. (x, x)) two_calls 3 1 0 5 no_grid at_boot = Inr (0x10000, Free, s')
     \<and> called s' = [0, 1, 2] \<and> executed s' = [0, 2, 1] \<and> (\<forall>t. parent (tasks s' t) = (if t = 0 then None else Some 0))"
  by (simp add: run_simps)

lemma sync_two_calls:
  "\<exists>b u v s'. tpc_init four_cores 1 0 5 no_grid (static_init at_boot) = Inr (1, b, u)
     \<and> efold (api_step (\<lambda>x. (x, x)) (execute_task (\<lambda>x. (x, x)) two_calls 3) 3) (two_calls 0) u = Inr v
     \<and> tpc_sync (\<lambda>x. (x, x)) (execute_task (\<lambda>x. (x, x)) two_calls 3) 3 v = Inr s'
     \<and> called v = [0, 1, 2] \<and> called s' = [0, 1, 2] \<and> curr_task v = Some 0 \<and> parent (tasks s' 1) = Some 0"
  by (simp add: run_simps)

lemma at_boot_fresh: "fresh_tasks 0 at_boot"
  by (simp add: fresh_tasks_def at_boot_def zero_descriptor_def)






end
