(* ===== verification/Runtime_Fuel.thy ===== *)
theory Runtime_Fuel
  imports Runtime_Ok
begin

text \<open>
  The bound on the depth of the nesting in the model of the scheduler only decides whether a run
  ends in \<open>OutOfFuel\<close>: a run that ends otherwise ends the same way under every larger bound.
\<close>

definition fuel_le :: "'a res \<Rightarrow> 'a res \<Rightarrow> bool" where
  "fuel_le m m' \<longleftrightarrow> m = Inl OutOfFuel \<or> m' = m"

named_theorems fuel_intros \<open>how a computation grows with the bounds of its parts\<close>

lemma fuel_le_refl [fuel_intros, simp]: "fuel_le m m"
  by (simp add: fuel_le_def)

lemma fuel_le_bottom [fuel_intros, simp]: "fuel_le (Inl OutOfFuel) m"
  by (simp add: fuel_le_def)

lemma fuel_le_trans: "fuel_le a b \<Longrightarrow> fuel_le b c \<Longrightarrow> fuel_le a c"
  by (auto simp: fuel_le_def)

lemma fuel_le_bind [fuel_intros]:
  "fuel_le m m' \<Longrightarrow> (\<And>x. fuel_le (f x) (f' x)) \<Longrightarrow> fuel_le (ebind m f) (ebind m' f')"
  by (cases m) (auto simp: fuel_le_def)

lemma fuel_le_if [fuel_intros]: "fuel_le a a' \<Longrightarrow> fuel_le b b' \<Longrightarrow> fuel_le (if c then a else b) (if c then a' else b')"
  by simp

lemma fuel_le_option [fuel_intros]: "fuel_le a a' \<Longrightarrow> (\<And>y. fuel_le (f y) (f' y)) \<Longrightarrow>
    fuel_le (case x of None \<Rightarrow> a | Some y \<Rightarrow> f y) (case x of None \<Rightarrow> a' | Some y \<Rightarrow> f' y)"
  by (cases x) simp_all

lemma fuel_le_prod [fuel_intros]: "(\<And>a b. fuel_le (f a b) (f' a b)) \<Longrightarrow>
    fuel_le (case p of (a, b) \<Rightarrow> f a b) (case p of (a, b) \<Rightarrow> f' a b)"
  by (cases p) simp

lemma fuel_le_fold [fuel_intros]: "(\<And>x s. fuel_le (f x s) (f' x s)) \<Longrightarrow> fuel_le (efold f xs s) (efold f' xs s)"
  by (induction xs arbitrary: s) (auto intro: fuel_intros)

section \<open>The functions that call the executor\<close>

text \<open>\<open>deeper\<close> is the executor with a larger bound.\<close>

locale deeper =
  fixes exec deeper :: "nat \<Rightarrow> rt_state \<Rightarrow> rt_state res"
  assumes exec_le [fuel_intros]: "fuel_le (exec t s) (deeper t s)"
begin

lemma schedule_task_le [fuel_intros]: "fuel_le (schedule_task exec t s) (schedule_task deeper t s)"
  unfolding schedule_task_def Let_def by (intro fuel_intros)

lemma create_dependencies_le [fuel_intros]:
  "fuel_le (create_dependencies (schedule_task exec) t s) (create_dependencies (schedule_task deeper) t s)"
  unfolding create_dependencies_def by (intro fuel_intros)

lemma tpc_call_le [fuel_intros]: "fuel_le (tpc_call (schedule_task exec) t s) (tpc_call (schedule_task deeper) t s)"
  unfolding tpc_call_def Let_def by (intro fuel_intros)

lemma fire_one_le [fuel_intros]: "fuel_le (fire_one (schedule_task exec) w s) (fire_one (schedule_task deeper) w s)"
  unfolding fire_one_def Let_def by (intro fuel_intros)

lemma fire_loop_le [fuel_intros]:
  "fuel_le (fire_loop (schedule_task exec) chain s) (fire_loop (schedule_task deeper) chain s)"
proof (induction chain arbitrary: s)
  case Nil
  then show ?case by simp
next
  case (Cons w chain)
  show ?case by simp (intro fuel_intros Cons.IH)
qed

lemma fire_dependencies_le [fuel_intros]:
  "fuel_le (fire_dependencies (schedule_task exec) t s) (fire_dependencies (schedule_task deeper) t s)"
  unfolding fire_dependencies_def Let_def by (intro fuel_intros)

lemma release_task_le:
  "fuel_le (release_task (schedule_task exec) n t s) (release_task (schedule_task deeper) (Suc n) t s)"
proof (induction n arbitrary: t s)
  case 0
  then show ?case by simp
next
  case (Suc n)
  show ?case
    by (simp only: release_task.simps(2) [of "schedule_task exec"] release_task.simps(2) [of "schedule_task deeper" "Suc n"] Let_def)
      (intro fuel_intros Suc.IH)
qed

lemma work_once_le [fuel_intros]: "fuel_le (work_once rand_r exec s) (work_once rand_r deeper s)"
  unfolding work_once_def by (intro fuel_intros)

lemma sync_loop_le: "fuel_le (sync_loop rand_r exec n t s) (sync_loop rand_r deeper (Suc n) t s)"
proof (induction n arbitrary: s)
  case 0
  then show ?case by simp
next
  case (Suc n)
  show ?case
    by (simp only: sync_loop.simps(2) [of rand_r exec] sync_loop.simps(2) [of rand_r deeper "Suc n"])
      (intro fuel_intros Suc.IH)
qed

lemma tpc_sync_le: "fuel_le (tpc_sync rand_r exec n s) (tpc_sync rand_r deeper (Suc n) s)"
  unfolding tpc_sync_def by (intro fuel_intros sync_loop_le)

lemma api_step_le: "fuel_le (api_step rand_r exec n a s) (api_step rand_r deeper (Suc n) a s)"
  by (cases a) (simp_all add: api_step_def tpc_call_le tpc_sync_le)

lemma wrapper_le: "fuel_le (wrapper rand_r prog exec n t s) (wrapper rand_r prog deeper (Suc n) t s)"
  unfolding wrapper_def by (intro fuel_intros api_step_le)

end

section \<open>The executor and whole programs\<close>

lemma execute_task_le: "fuel_le (execute_task rand_r prog n t s) (execute_task rand_r prog (Suc n) t s)"
proof (induction n arbitrary: t s)
  case 0
  then show ?case by simp
next
  case (Suc n)
  have deeper: "deeper (execute_task rand_r prog n) (execute_task rand_r prog (Suc n))"
    by (rule deeper.intro) (rule Suc.IH)
  note parts = deeper.wrapper_le [OF deeper, of rand_r prog n] deeper.release_task_le [OF deeper, of n]
  define m where "m = Suc n"
  have "fuel_le (execute_task rand_r prog (Suc n) t s) (execute_task rand_r prog (Suc m) t s)"
    unfolding execute_task.simps(2) Let_def by (intro fuel_intros parts [folded m_def])
  then show ?case by (simp only: m_def)
qed

interpretation deep: deeper "execute_task rand_r prog n" "execute_task rand_r prog (Suc n)" for rand_r prog n
  by unfold_locales (rule execute_task_le)

lemma run_program_le:
  "fuel_le (run_program h rand_r prog n threads main region b s) (run_program h rand_r prog (Suc n) threads main region b s)"
  unfolding run_program_def tpc_shutdown_def prod.case Let_def
  by (intro fuel_intros deep.api_step_le deep.tpc_sync_le)

text \<open>
  The bound decides nothing but whether the evaluation completes: a run of a whole program that
  does not end in \<open>OutOfFuel\<close> ends in the same way, with the same state, under every larger bound.
\<close>

lemma program_independent_of_bound:
  assumes "run_program h rand_r prog n threads main region b s \<noteq> Inl OutOfFuel"
  shows "run_program h rand_r prog (n + k) threads main region b s = run_program h rand_r prog n threads main region b s"
proof -
  have "fuel_le (run_program h rand_r prog n threads main region b s) (run_program h rand_r prog (n + k) threads main region b s)"
    by (induction k) (auto intro: fuel_le_trans run_program_le)
  then show ?thesis using assms by (simp add: fuel_le_def)
qed


end
