(* ===== verification/Runtime_Calm.thy ===== *)
theory Runtime_Calm
  imports Runtime_Fuel
begin

text \<open>
  Independent tasks: no argument takes part in the dependence analysis.  The theory says what holds
  of such a program between two calls of the runtime, how the elementary steps keep it, and that a
  task that waits for a child always leaves another one in the queue.
\<close>

section \<open>Computations that complete under large enough bounds\<close>

text \<open>\<open>f\<close> takes two bounds, for the nesting of executions and for the turns of a loop.\<close>

definition ends :: "(nat \<Rightarrow> nat \<Rightarrow> 'a res) \<Rightarrow> 'a \<Rightarrow> bool" where
  "ends f x \<longleftrightarrow> (\<exists>k. \<forall>n\<ge>k. \<forall>m\<ge>k. f n m = Inr x)"

named_theorems ends_intros \<open>how computations complete\<close>

lemma ends_Inr [ends_intros]: "ends (\<lambda>n m. Inr x) x"
  by (simp add: ends_def)

lemma ends_bind:
  assumes "ends f x" and "ends (\<lambda>n m. g n m x) y"
  shows "ends (\<lambda>n m. ebind (f n m) (g n m)) y"
proof -
  obtain a b where "\<forall>n\<ge>a. \<forall>m\<ge>a. f n m = Inr x" "\<forall>n\<ge>b. \<forall>m\<ge>b. g n m x = Inr y"
    using assms by (auto simp: ends_def)
  then show ?thesis unfolding ends_def by (intro exI [of _ "max a b"]) simp
qed

lemma ends_loop_Suc: "ends (\<lambda>n m. f n (Suc m)) x \<Longrightarrow> ends f x"
  unfolding ends_def
proof (elim exE)
  fix k assume "\<forall>n\<ge>k. \<forall>m\<ge>k. f n (Suc m) = Inr x"
  then show "\<exists>k. \<forall>n\<ge>k. \<forall>m\<ge>k. f n m = Inr x"
    by (intro exI [of _ "Suc k"]) (auto simp: Suc_le_eq elim: less_natE)
qed

text \<open>The executor spends one unit on its own call and passes the rest on twice.\<close>

lemma ends_nest: "ends f x \<Longrightarrow> (\<And>n. g (Suc n) = f n n) \<Longrightarrow> ends (\<lambda>n m. g n) x"
  unfolding ends_def
proof (elim exE)
  fix k assume "\<forall>n\<ge>k. \<forall>m\<ge>k. f n m = Inr x" and g: "\<And>n. g (Suc n) = f n n"
  then have "g (Suc n) = Inr x" if "n \<ge> k" for n using that by auto
  then show "\<exists>k. \<forall>n\<ge>k. \<forall>m\<ge>k. g n = Inr x"
    by (intro exI [of _ "Suc k"]) (auto simp: Suc_le_eq elim!: less_natE)
qed

lemma ends_diagonal: "ends f x \<Longrightarrow> ends (\<lambda>n m. f n n) x"
  by (force simp: ends_def)

lemma ends_cong: "(\<And>n m. f n m = g n m) \<Longrightarrow> ends g x \<Longrightarrow> ends f x"
  by (simp add: ends_def)

section \<open>Independent tasks\<close>

fun calls_of :: "api_call list \<Rightarrow> nat list" where
  "calls_of [] = []"
| "calls_of (Call c # as) = c # calls_of as"
| "calls_of (Sync # as) = calls_of as"

lemma calls_of_append: "calls_of (as @ bs) = calls_of as @ calls_of bs"
  by (induction as rule: calls_of.induct) simp_all

definition calls :: "program \<Rightarrow> nat \<Rightarrow> nat list" where
  "calls prog t = calls_of (prog t)"

definition simple_task :: "tpc_task_descriptor \<Rightarrow> bool" where
  "simple_task d \<longleftrightarrow> (\<forall>a \<in> set (args d). SCOOP_IS_SAFEARG (arg_type a)) \<and> waitfor d = fired d"

lemma no_analysis:
  assumes "simple_task (tasks s t)"
  shows "efold (\<lambda>i (w, s). ebind (handle_argument i t s) (\<lambda>(v, s). Inr (w + v, s)))
    [0..<length (args (tasks s t))] (0, s) = Inr (0, s)"
proof -
  have "efold (\<lambda>i (w, s). ebind (handle_argument i t s) (\<lambda>(v, s). Inr (w + v, s))) is (0, s) = Inr (0, s)"
    if "set is \<subseteq> {..<length (args (tasks s t))}" for "is"
    using that assms
    by (induction "is") (auto simp: handle_argument_def simple_task_def)
  then show ?thesis by force
qed

lemma simple_set_status [simp]:
  "simple_task (tasks (set_status t x s) q) = simple_task (tasks s q)"
  "to_notify (tasks (set_status t x s) q) = to_notify (tasks s q)" "args (tasks (set_status t x s) q) = args (tasks s q)"
  "waitfor (tasks (set_status t x s) q) = waitfor (tasks s q)" "fired (tasks (set_status t x s) q) = fired (tasks s q)"
  by (simp_all add: set_status_def tasks_upd_task simple_task_def)

text \<open>The state after \<open>tpc_call\<close>, up to the queue.\<close>

definition child_counted :: "nat \<Rightarrow> rt_state \<Rightarrow> rt_state" where
  "child_counted c s = (case parent (tasks s c) of None \<Rightarrow> s
     | Some p \<Rightarrow> upd_task p (\<lambda>d. d\<lparr>number_of_children := v_atomic_incr_long (number_of_children d)\<rparr>) s)"

definition child_ready :: "nat \<Rightarrow> rt_state \<Rightarrow> rt_state" where
  "child_ready c s = (set_status c SCHEDULED_TASK (child_counted c s))\<lparr>called := called s @ [c]\<rparr>"

lemma child_counted_simps [simp]:
  "called (child_counted c s) = called s" "executed (child_counted c s) = executed s"
  "task_Queues (child_counted c s) = task_Queues s" "queue_index (child_counted c s) = queue_index s"
  "MaxActiveThreads (child_counted c s) = MaxActiveThreads s" "curr_task (child_counted c s) = curr_task s"
  "status (tasks (child_counted c s) q) = status (tasks s q)" "parent (tasks (child_counted c s) q) = parent (tasks s q)"
  "to_notify (tasks (child_counted c s) q) = to_notify (tasks s q)"
  "simple_task (tasks (child_counted c s) q) = simple_task (tasks s q)"
  by (simp_all add: child_counted_def tasks_upd_task simple_task_def split: option.split)

lemma tpc_call_simple:
  assumes "simple_task (tasks s c)"
  shows "tpc_call (schedule_task exec) c s =
    (let (r, q) = enqueue c (task_Queues s (queue_index s));
         u = set_queue (queue_index s) q (child_ready c s)
     in if r = 0 then exec c u else Inr u)"
proof -
  let ?v = "(upd_task c (\<lambda>d. d\<lparr>status := CREATING_TASK\<rparr>) (child_counted c s))\<lparr>called := called s @ [c]\<rparr>"
  have v: "simple_task (tasks ?v c)" using assms by (simp add: tasks_upd_task simple_task_def child_counted_def split: option.split)
  have "tpc_call (schedule_task exec) c s = create_dependencies (schedule_task exec) c ?v"
    by (simp add: tpc_call_def child_counted_def [symmetric] Let_def)
  also have "\<dots> = schedule_task exec c (upd_task c (\<lambda>d. d\<lparr>status := CREATED_TASK\<rparr>) ?v)"
    using no_analysis [OF v] by (simp add: create_dependencies_def)
  also have "\<dots> = (let u = child_ready c s; (r, q) = enqueue c (task_Queues s (queue_index s));
      u = set_queue (queue_index s) q u in if r = 0 then exec c u else Inr u)"
  proof -
    let ?w = "upd_task c (\<lambda>d. d\<lparr>status := CREATED_TASK\<rparr>) ?v"
    have "waitfor (tasks ?w c) = fired (tasks ?w c)" "status (tasks ?w c) = CREATED_TASK"
      using v by (simp_all add: simple_task_def tasks_upd_task)
    moreover have "upd_task c (\<lambda>d. d\<lparr>status := SCHEDULED_TASK\<rparr>) ?w = child_ready c s"
      by (simp add: child_ready_def set_status_def upd_task_def)
    ultimately show ?thesis
      by (simp add: schedule_task_def Let_def set_queue_def child_ready_def [symmetric] split: prod.split)
        (simp add: child_ready_def)
  qed
  finally show ?thesis by (simp add: Let_def)
qed


section \<open>The state between two calls of the runtime\<close>

definition kids :: "nat \<Rightarrow> rt_state \<Rightarrow> nat set" where
  "kids p s = {c \<in> set (called s). parent (tasks s c) = Some p}"

definition family :: "rt_state \<Rightarrow> (nat \<times> nat) set" where
  "family s = {(p, c). parent (tasks s c) = Some p}"

text \<open>
  \<open>R\<close>: the tasks running on this worker, the innermost first; \<open>H\<close>: the task in hand; \<open>X\<close>: the task
  being released.  Every called task is in one of four phases.
\<close>

definition phase :: "nat list \<Rightarrow> nat set \<Rightarrow> nat set \<Rightarrow> rt_state \<Rightarrow> nat \<Rightarrow> bool" where
  "phase R H X s t \<longleftrightarrow>
     (status (tasks s t) = SCHEDULED_TASK \<and> t \<in> set (executed s) \<and> t \<in> set R)
   \<or> (status (tasks s t) = SCHEDULED_TASK \<and> t \<notin> set (executed s) \<and> t \<notin> set R \<and> (t \<in> set (queued s) \<or> t \<in> H))
   \<or> (status (tasks s t) = EXECUTED_TASK \<and> t \<notin> set R \<and> (t \<in> X \<or> unfinished t s \<noteq> {}))
   \<or> (status (tasks s t) = COMPLETE_TASK \<and> t \<notin> set R \<and> unfinished t s = {})"

text \<open>A task is called after its parent, by its parent; the first one is the main program.\<close>

definition born_later :: "rt_state \<Rightarrow> bool" where
  "born_later s \<longleftrightarrow> (\<forall>i < length (called s).
     (parent (tasks s (called s ! i)) = None \<longrightarrow> i = 0)
     \<and> (\<forall>p. parent (tasks s (called s ! i)) = Some p \<longrightarrow> p \<in> set (take i (called s)) \<and> p \<in> set (executed s)))"

definition simple_tasks :: "program \<Rightarrow> nat set \<Rightarrow> rt_state \<Rightarrow> bool" where
  "simple_tasks prog U s \<longleftrightarrow>
     (\<forall>t \<in> U. simple_task (tasks s t) \<and> (status (tasks s t) \<noteq> COMPLETE_TASK \<longrightarrow> to_notify (tasks s t) = NOpen [])
        \<and> distinct (calls prog t) \<and> set (calls prog t) \<subseteq> U
        \<and> (\<forall>c \<in> set (calls prog t). parent (tasks s c) = Some t))"

definition only_own :: "rt_state \<Rightarrow> bool" where
  "only_own s \<longleftrightarrow> (\<forall>k < unat (MaxActiveThreads s). k \<noteq> queue_index s \<longrightarrow> dq_list (task_Queues s k) = [])"

definition calm :: "program \<Rightarrow> nat set \<Rightarrow> nat list \<Rightarrow> nat set \<Rightarrow> nat set \<Rightarrow> rt_state \<Rightarrow> bool" where
  "calm prog U R H X s \<longleftrightarrow> rt_inv None s \<and> distinct (called s) \<and> set (called s) \<subseteq> U
     \<and> simple_tasks prog U s \<and> only_own s \<and> born_later s
     \<and> (\<forall>t \<in> set (called s). phase R H X s t) \<and> set R \<subseteq> set (called s) \<and> distinct R
     \<and> sorted_wrt (\<lambda>x y. (x, y) \<notin> (family s)\<^sup>+) R
     \<and> (\<forall>t \<in> set (executed s) - set R. kids t s = set (calls prog t))"

lemma calmD:
  assumes "calm prog U R H X s"
  shows "rt_inv None s" "distinct (called s)" "set (called s) \<subseteq> U" "simple_tasks prog U s" "only_own s" "born_later s"
    "\<And>t. t \<in> set (called s) \<Longrightarrow> phase R H X s t" "set R \<subseteq> set (called s)"
    "sorted_wrt (\<lambda>x y. (x, y) \<notin> (family s)\<^sup>+) R"
    "\<And>t. t \<in> set (executed s) \<Longrightarrow> t \<notin> set R \<Longrightarrow> kids t s = set (calls prog t)" "distinct R"
  using assms by (auto simp: calm_def)

text \<open>Descendants are called after their ancestors.\<close>

lemma descendant_later:
  assumes "born_later s" and "(p, c) \<in> (family s)\<^sup>+" and "j < length (called s)" and "called s ! j = c"
  shows "\<exists>i < j. called s ! i = p"
  using assms(2,3,4)
proof (induction arbitrary: j rule: trancl_induct)
  case (base c)
  then have "p \<in> set (take j (called s))" using assms(1) by (auto simp: born_later_def family_def)
  then show ?case using base by (auto simp: in_set_conv_nth)
next
  case (step b c)
  then have "b \<in> set (take j (called s))" using assms(1) by (auto simp: born_later_def family_def)
  then obtain i where "i < j" "called s ! i = b" using step.prems by (auto simp: in_set_conv_nth)
  then show ?case using step.IH [of i] step.prems by (meson order.strict_trans)
qed

lemma descendant_executed:
  assumes "born_later s" and "(p, c) \<in> (family s)\<^sup>+" and "c \<in> set (called s)" and "set (executed s) \<subseteq> set (called s)"
  shows "p \<in> set (executed s)"
  using assms(2,3)
proof (induction rule: trancl_induct)
  case (base c)
  then show ?case using assms(1) by (auto simp: born_later_def family_def in_set_conv_nth)
next
  case (step b c)
  then have "b \<in> set (executed s)" using assms(1) by (auto simp: born_later_def family_def in_set_conv_nth)
  then show ?case using step.IH assms(4) by auto
qed

text \<open>As long as the innermost task waits for a child, a task is queued.\<close>

lemma work_left:
  assumes calm: "calm prog U (t # R) {} {} s" and wait: "unfinished t s \<noteq> {}"
  shows "queued s \<noteq> []"
proof -
  note c = calmD [OF calm]
  let ?D = "{j. j < length (called s) \<and> (t, called s ! j) \<in> (family s)\<^sup>+ \<and> status (tasks s (called s ! j)) \<noteq> COMPLETE_TASK}"
  have child: "\<exists>j. j < length (called s) \<and> called s ! j = q \<and> status (tasks s q) \<noteq> COMPLETE_TASK \<and> (p, q) \<in> family s"
    if "q \<in> unfinished p s" for p q
    using that by (auto simp: unfinished_def in_set_conv_nth family_def)
  from wait obtain q where "q \<in> unfinished t s" by blast
  then have ne: "?D \<noteq> {}" using child by blast
  have fin: "finite ?D" by simp
  define j where "j = Max ?D"
  have j: "j < length (called s)" "(t, called s ! j) \<in> (family s)\<^sup>+" "status (tasks s (called s ! j)) \<noteq> COMPLETE_TASK"
    using Max_in [OF fin ne] by (auto simp: j_def)
  let ?c = "called s ! j"
  have same: "i = k" if "called s ! i = called s ! k" "i < length (called s)" "k < length (called s)" for i k
    using that c(2) by (simp add: nth_eq_iff_index_eq)
  have top: "?c \<noteq> t"
  proof
    assume "?c = t"
    then obtain i where "i < j" "called s ! i = ?c" using descendant_later [OF c(6) j(2,1) refl] by blast
    then show False using same [of i j] j(1) by simp
  qed
  have out: "?c \<notin> set R" using c(9) j(2) by auto
  have deeper: False if u: "unfinished ?c s \<noteq> {}"
  proof -
    obtain q k where k: "k < length (called s)" "called s ! k = q" "status (tasks s q) \<noteq> COMPLETE_TASK" "(?c, q) \<in> family s"
      using u child by blast
    have "k \<in> ?D" using k j(2) by (auto intro: trancl_into_trancl)
    then have "k \<le> j" unfolding j_def using fin by simp
    moreover obtain i where "i < k" "called s ! i = ?c"
      using descendant_later [OF c(6) _ k(1,2)] k(4) by blast
    ultimately show False using same [of i j] j(1) by simp
  qed
  have "phase (t # R) {} {} s ?c" using c(7) j(1) by simp
  then have "?c \<in> set (queued s)" using top out deeper j(3) by (auto simp: phase_def)
  then show ?thesis by auto
qed

text \<open>All of it is in the worker's own queue, so it is found there.\<close>

lemma own_not_empty:
  assumes "rt_inv None s" and "only_own s" and "queued s \<noteq> []"
  shows "dq_list (task_Queues s (queue_index s)) \<noteq> []"
proof
  assume "dq_list (task_Queues s (queue_index s)) = []"
  then have "dq_list (task_Queues s k) = []" if "k < unat (MaxActiveThreads s)" for k
    using that assms(2) by (cases "k = queue_index s") (auto simp: only_own_def)
  then show False using assms(3) by (simp add: queued_def)
qed

lemma find_own_work:
  assumes inv: "rt_inv None s" and own: "only_own s" and work: "queued s \<noteq> []"
  shows "\<exists>t q. find_work rand_r s = Inr (Some t, set_queue (queue_index s) q s) \<and> dq_inv q
    \<and> mset (dq_list (task_Queues s (queue_index s))) = add_mset t (mset (dq_list q))"
proof -
  let ?q = "task_Queues s (queue_index s)"
  have k: "dq_inv ?q" using own_queue [OF inv] by simp
  have ne: "dq_list ?q \<noteq> []" using own_not_empty [OF inv own work] .
  obtain q where q: "dequeue_front ?q = (fst (list_pop (dq_list ?q)), q)" "dq_inv q" "dq_list q = snd (list_pop (dq_list ?q))"
    using dq.pop_sim [OF k] by blast
  obtain t where t: "fst (list_pop (dq_list ?q)) = Some t" using ne by (auto simp: list_pop_def)
  then have "list_pop (dq_list ?q) = (Some t, dq_list q)" using q(3) by (metis prod.collapse)
  then have "mset (dq_list ?q) = add_mset t (mset (dq_list q))" by (rule list_pop_mset)
  moreover have "find_work rand_r s = Inr (Some t, set_queue (queue_index s) q s)"
    using q(1) t by (simp add: find_work_def pop_task_def set_queue_def)
  ultimately show ?thesis using q(2) by blast
qed


section \<open>How the elementary changes keep it\<close>

lemma rt_inv_executed: "rt_inv off s \<Longrightarrow> set (executed s) \<subseteq> set (called s)"
  by (simp add: rt_inv_def tasks_inv_def)

lemma rt_inv_new: "rt_inv off s \<Longrightarrow> c \<notin> set (called s) \<Longrightarrow>
    status (tasks s c) = CREATING_TASK \<and> c \<notin> set (queued s) \<and> c \<notin> set (executed s)"
  by (force simp: rt_inv_def tasks_inv_def)

lemma running:
  assumes "calm prog U R H X s" and "t \<in> set R"
  shows "status (tasks s t) = SCHEDULED_TASK \<and> t \<in> set (executed s) \<and> t \<in> set (called s) \<and> t \<in> U \<and> t \<notin> set (queued s)"
proof -
  have t: "t \<in> set (called s)" "t \<in> U" using assms by (auto simp: calm_def)
  then have "phase R H X s t" using assms by (simp add: calm_def)
  then have "status (tasks s t) = SCHEDULED_TASK \<and> t \<in> set (executed s)" using assms(2) by (auto simp: phase_def)
  then show ?thesis using t calmD(1) [OF assms(1)] by (auto simp: rt_inv_def tasks_inv_def)
qed

text \<open>A task is taken from the own queue.\<close>

lemma calm_take:
  assumes calm: "calm prog U R {} {} s" and q: "dq_inv q"
    and m: "mset (dq_list (task_Queues s (queue_index s))) = add_mset t (mset (dq_list q))"
  shows "calm prog U R {t} {} (set_queue (queue_index s) q s) \<and> in_hand t (set_queue (queue_index s) q s)
    \<and> t \<in> set (called s)"
proof -
  note c = calmD [OF calm]
  let ?u = "set_queue (queue_index s) q s"
  have k: "queue_index s < unat (MaxActiveThreads s)" using own_queue [OF c(1)] by simp
  have inv: "rt_inv None ?u" "in_hand t ?u" using queue_loss_inv [OF c(1) k q m] by auto
  have qs: "set (queued s) = insert t (set (queued ?u))" using queue_loss [OF k m] by (metis set_mset_add_mset_insert set_mset_mset)
  have "t \<in> set (queued s)" using qs by simp
  then have "t \<in> set (called s)" using c(1) by (force simp: rt_inv_def tasks_inv_def)
  moreover have "phase R {t} {} ?u x" if "x \<in> set (called s)" for x
    using c(7) [OF that] qs by (auto simp: phase_def unfinished_def)
  ultimately show ?thesis using calm inv
    by (auto simp: calm_def simple_tasks_def only_own_def born_later_def family_def kids_def)
qed

text \<open>A task is called.\<close>

lemma calm_call:
  assumes calm: "calm prog U (t # R) {} {} s" and c: "c \<in> set (calls prog t)" "c \<notin> set (called s)"
    and enq: "enqueue c (task_Queues s (queue_index s)) = (r, q)"
  defines "v \<equiv> set_queue (queue_index s) q (child_ready c s)"
  shows "calm prog U (t # R) (if r = 0 then {c} else {}) {} v \<and> (r = 0 \<longrightarrow> in_hand c v)
    \<and> executed v = executed s \<and> called v = called s @ [c] \<and> curr_task v = curr_task s
    \<and> (\<forall>p. kids p v = (if p = t then insert c (kids p s) else kids p s))"
proof -
  note d = calmD [OF calm]
  let ?k = "queue_index s" and ?q = "task_Queues s (queue_index s)" and ?u = "child_ready c s"
  note t = running [OF calm, of t, simplified]
  have cU: "c \<in> U" "parent (tasks s c) = Some t"
    using c(1) t d(4) by (auto simp: simple_tasks_def)
  then have cs: "simple_task (tasks s c)" using d(4) by (simp add: simple_tasks_def)
  note new = rt_inv_new [OF d(1) c(2)]
  have u: "task_Queues ?u = task_Queues s" "queue_index ?u = ?k" "MaxActiveThreads ?u = MaxActiveThreads s"
      "called ?u = called s @ [c]" "executed ?u = executed s" "curr_task ?u = curr_task s" "queued ?u = queued s"
      "\<And>x. status (tasks ?u x) = (if x = c then SCHEDULED_TASK else status (tasks s x))"
      "\<And>x. parent (tasks ?u x) = parent (tasks s x)" "\<And>x. to_notify (tasks ?u x) = to_notify (tasks s x)"
      "\<And>x. simple_task (tasks ?u x) = simple_task (tasks s x)"
    by (simp_all add: child_ready_def queued_def)
  have v: "executed v = executed s" "called v = called s @ [c]" "curr_task v = curr_task s" "tasks v = tasks ?u"
      "queue_index v = ?k" "MaxActiveThreads v = MaxActiveThreads s" "task_Queues v = (task_Queues s)(?k := q)"
    by (simp_all add: v_def u)
  have k: "?k < unat (MaxActiveThreads ?u)" "dq_inv ?q" using own_queue [OF d(1)] by (simp_all add: u)
  have q: "r = fst (list_push MAX_QUEUE_ENTRIES c (dq_list ?q))" "dq_list q = snd (list_push MAX_QUEUE_ENTRIES c (dq_list ?q))"
    using dq.push_sim [OF k(2), of c] enq by auto
  have qs: "mset (queued v) = (if r = 0 then mset (queued s) else add_mset c (mset (queued s)))"
  proof (cases "r = 0")
    case True
    then show ?thesis using q set_queue_same [OF k(1), of q] by (auto simp: v_def u list_push_def split: if_splits)
  next
    case False
    then show ?thesis using q queue_gain [OF k(1), of q c] by (auto simp: v_def u list_push_def split: if_splits)
  qed
  then have qset: "set (queued v) = (if r = 0 then set (queued s) else insert c (set (queued s)))"
    by (metis set_mset_add_mset_insert set_mset_mset)
  have kids: "kids p v = (if p = t then insert c (kids p s) else kids p s)" for p
    using cU by (auto simp: kids_def v u)
  have unf: "unfinished p s \<subseteq> unfinished p v" "p \<noteq> t \<Longrightarrow> unfinished p v = unfinished p s" for p
    using c(2) cU(2) by (auto simp: unfinished_def v u)
  have inv: "rt_inv None v"
  proof -
    have ex: "executor (\<lambda>t s. Inr s)" by (rule executor.intro) simp
    have "tpc_call (schedule_task (\<lambda>t s. Inr s)) c s = Inr v"
      using enq by (simp add: tpc_call_simple [OF cs] v_def)
    from goodD(1) [OF executor.tpc_call_good [OF ex this]] show ?thesis using d c(2) by (simp add: v)
  qed
  have "phase (t # R) (if r = 0 then {c} else {}) {} v x" if "x \<in> set (called v)" for x
  proof (cases "x = c")
    case True
    moreover have "c \<notin> set (t # R)" using running [OF calm] c(2) by blast
    ultimately show ?thesis using new qset by (simp add: phase_def v u)
  next
    case False
    then have "phase (t # R) {} {} s x" using that d(7) by (auto simp: v)
    then show ?thesis using False unf [of x] qset t unfolding phase_def v u by (auto split: if_splits)
  qed
  moreover have "born_later v"
    using d(6) cU t by (auto simp: born_later_def v u nth_append less_Suc_eq)
  moreover have "family v = family s" by (simp add: family_def v u)
  moreover have "simple_tasks prog U v" using d(4) new by (auto simp: simple_tasks_def v u)
  moreover have "only_own v" using d(5) by (simp add: only_own_def v)
  moreover have "r = 0 \<longrightarrow> in_hand c v" using new qset by (simp add: in_hand_def v u)
  ultimately show ?thesis using inv d c(2) cU(1) kids by (auto simp: calm_def v)
qed


text \<open>A task starts: the first statements of \<open>execute_task\<close> and the entry in the log.\<close>

definition started :: "nat \<Rightarrow> rt_state \<Rightarrow> rt_state" where
  "started t s = (upd_task t (\<lambda>d. d\<lparr>metadata := Some new_trie\<rparr>) (s\<lparr>cur_parent := Some t, curr_task := Some t\<rparr>))
     \<lparr>executed := executed s @ [t]\<rparr>"

lemma started_simps [simp]:
  "called (started t s) = called s" "executed (started t s) = executed s @ [t]" "curr_task (started t s) = Some t"
  "task_Queues (started t s) = task_Queues s" "queue_index (started t s) = queue_index s"
  "MaxActiveThreads (started t s) = MaxActiveThreads s" "queued (started t s) = queued s"
  "status (tasks (started t s) q) = status (tasks s q)" "parent (tasks (started t s) q) = parent (tasks s q)"
  "to_notify (tasks (started t s) q) = to_notify (tasks s q)"
  "simple_task (tasks (started t s) q) = simple_task (tasks s q)"
  by (simp_all add: started_def queued_def tasks_upd_task simple_task_def)

lemma calm_start:
  assumes calm: "calm prog U R {t} {} s" and hand: "in_hand t s" and t: "t \<in> set (called s)"
  shows "calm prog U (t # R) {} {} (started t s) \<and> kids t (started t s) = {} \<and> (\<forall>p. kids p (started t s) = kids p s)"
proof -
  note d = calmD [OF calm]
  have new: "t \<notin> set (executed s)" "t \<notin> set R" using hand running [OF calm] by (auto simp: in_hand_def)
  have kids: "kids p (started t s) = kids p s" "unfinished p (started t s) = unfinished p s" for p
    by (simp_all add: kids_def unfinished_def)
  have fam: "family (started t s) = family s" by (simp add: family_def)
  have none: "kids t s = {}"
    using d(6) new(1) by (auto simp: kids_def born_later_def in_set_conv_nth)
  have inv: "rt_inv None (started t s)"
  proof -
    let ?m = "upd_task t (\<lambda>d. d\<lparr>metadata := Some new_trie\<rparr>) (s\<lparr>cur_parent := Some t, curr_task := Some t\<rparr>)"
    have "good True (s\<lparr>cur_parent := Some t, curr_task := Some t\<rparr>) ?m" by (intro quiet_good quiet_upd_task) simp
    then have "rt_inv None ?m" using d(1,2) by (auto simp: good_def vars_inv)
    moreover have "in_hand t ?m" using hand by (simp add: in_hand_def tasks_upd_task queued_def)
    ultimately show ?thesis unfolding started_def using log_inv [of ?m t] by simp
  qed
  have "phase (t # R) {} {} (started t s) x" if "x \<in> set (called s)" for x
    using d(7) [OF that] new hand by (auto simp: phase_def kids in_hand_def)
  moreover have "(t, x) \<notin> (family s)\<^sup>+" if "x \<in> set R" for x
    using descendant_executed [OF d(6) _ _ rt_inv_executed [OF d(1)]] new(1) that d(8) by blast
  moreover have "born_later (started t s)" using d(6) by (auto simp: born_later_def)
  moreover have "simple_tasks prog U (started t s)" using d(4) by (simp add: simple_tasks_def)
  moreover have "only_own (started t s)" using d(5) by (simp add: only_own_def)
  ultimately show ?thesis using inv d none t new by (auto simp: calm_def kids fam)
qed

text \<open>Its body returns.\<close>

lemma calm_return:
  assumes calm: "calm prog U (t # R) {} {} s" and all: "kids t s = set (calls prog t)"
  shows "calm prog U R {} {t} (set_status t EXECUTED_TASK s)"
proof -
  note d = calmD [OF calm] and t = running [OF calm, of t, simplified]
  let ?u = "set_status t EXECUTED_TASK s"
  have kids: "kids p ?u = kids p s" for p by (simp add: kids_def)
  have unf: "unfinished p ?u = unfinished p s" for p using t by (auto simp: unfinished_def)
  have "good True s ?u" using t
    by (intro set_status_good) (auto simp: status_order)
  then have inv: "rt_inv None ?u" using d(1,2) by (simp add: good_def)
  have out: "t \<notin> set R" using d(11) by simp
  have "phase R {} {t} ?u x" if "x \<in> set (called s)" for x
    using d(7) [OF that] out t by (auto simp: phase_def unf)
  moreover have "born_later ?u" "family ?u = family s" using d(6) by (auto simp: born_later_def family_def)
  moreover have "simple_tasks prog U ?u" using d(4) t by (auto simp: simple_tasks_def)
  moreover have "only_own ?u" using d(5) by (simp add: only_own_def)
  moreover have "kids x s = set (calls prog x)" if "x \<in> set (executed s)" "x \<notin> set R" for x
    using d(10) [OF that(1)] that(2) all by (cases "x = t") auto
  ultimately show ?thesis using inv d by (simp add: calm_def kids)
qed

section \<open>Release\<close>

definition released :: "nat \<Rightarrow> rt_state \<Rightarrow> rt_state" where
  "released t s = (set_status t COMPLETE_TASK (upd_task t (\<lambda>d. d\<lparr>to_notify := NLocked\<rparr>)
     (set_status t RELEASING_TASK s)))\<lparr>deleted := deleted s @ [task_region (tasks s t)]\<rparr>"

definition child_done :: "nat \<Rightarrow> rt_state \<Rightarrow> rt_state" where
  "child_done p s = upd_task p (\<lambda>d. d\<lparr>number_of_children := number_of_children d - 1\<rparr>) s"

lemma release_simple:
  assumes "status (tasks s t) = EXECUTED_TASK" and "to_notify (tasks s t) = NOpen []"
  shows "release_task sched (Suc n) t s =
    (case parent (tasks s t) of None \<Rightarrow> Inr (released t s)
     | Some p \<Rightarrow> let u = child_done p (released t s) in
         ebind (c_assert (0 \<le> sint (number_of_children (tasks u p)))) (\<lambda>_.
         if number_of_children (tasks u p) = 0 \<and> status (tasks u p) = EXECUTED_TASK
         then release_task sched n p u else Inr u))"
proof -
  let ?r = "set_status t RELEASING_TASK s"
  have "fire_dependencies sched t ?r = Inr (released t s)"
    using assms
    by (simp add: fire_dependencies_def Let_def released_def set_status_def tasks_upd_task)
  moreover have "parent (tasks (released t s) t) = parent (tasks s t)"
    by (simp add: released_def tasks_upd_task)
  ultimately show ?thesis using assms
    by (cases "parent (tasks s t)") (simp_all add: set_status_def [symmetric] child_done_def Let_def)
qed


lemma released_simps [simp]:
  "called (released t s) = called s" "executed (released t s) = executed s" "curr_task (released t s) = curr_task s"
  "task_Queues (released t s) = task_Queues s" "queue_index (released t s) = queue_index s"
  "MaxActiveThreads (released t s) = MaxActiveThreads s" "queued (released t s) = queued s"
  "status (tasks (released t s) q) = (if q = t then COMPLETE_TASK else status (tasks s q))"
  "parent (tasks (released t s) q) = parent (tasks s q)"
  "to_notify (tasks (released t s) q) = (if q = t then NLocked else to_notify (tasks s q))"
  "number_of_children (tasks (released t s) q) = number_of_children (tasks s q)"
  "simple_task (tasks (released t s) q) = simple_task (tasks s q)"
  by (simp_all add: released_def queued_def tasks_upd_task simple_task_def)

lemma child_done_simps [simp]:
  "called (child_done p s) = called s" "executed (child_done p s) = executed s" "curr_task (child_done p s) = curr_task s"
  "task_Queues (child_done p s) = task_Queues s" "queue_index (child_done p s) = queue_index s"
  "MaxActiveThreads (child_done p s) = MaxActiveThreads s" "queued (child_done p s) = queued s"
  "status (tasks (child_done p s) q) = status (tasks s q)" "parent (tasks (child_done p s) q) = parent (tasks s q)"
  "to_notify (tasks (child_done p s) q) = to_notify (tasks s q)"
  "simple_task (tasks (child_done p s) q) = simple_task (tasks s q)"
  by (simp_all add: child_done_def tasks_upd_task simple_task_def)

lemma released_inv:
  assumes inv: "rt_inv None s" and t: "status (tasks s t) = EXECUTED_TASK"
  shows "rt_inv (parent (tasks s t)) (released t s)"
proof -
  let ?r = "set_status t RELEASING_TASK s"
  let ?n = "upd_task t (\<lambda>d. d\<lparr>to_notify := NLocked\<rparr>) ?r"
  have mem: "t \<in> set (executed s) \<and> t \<in> set (called s) \<and> t \<notin> set (queued s)"
    using inv t by (auto simp: rt_inv_def tasks_inv_def status_order)
  have unf: "unfinished p ?r = unfinished p s" for p using t by (auto simp: unfinished_def)
  have "tasks_inv ?r" using inv mem by (intro set_status_tasks_inv) (auto simp: rt_inv_def status_order)
  then have "rt_inv None ?r" using inv by (simp add: rt_inv_def unf)
  moreover have "quiet ?r ?n" by (intro quiet_upd_task) simp
  ultimately have "rt_inv None ?n" using quiet_inv(1) by blast
  moreover have "status (tasks ?n t) = RELEASING_TASK" "parent (tasks ?n t) = parent (tasks s t)"
    by (simp_all add: tasks_upd_task)
  ultimately show ?thesis using complete_task [of ?n t] by (simp add: released_def rt_inv_deleted)
qed

text \<open>One task is released; its parent is next when this was the last child of an executed parent.\<close>

definition after_release :: "nat \<Rightarrow> rt_state \<Rightarrow> rt_state" where
  "after_release t s =
     (case parent (tasks s t) of None \<Rightarrow> released t s | Some p \<Rightarrow> child_done p (released t s))"

lemma after_release_simps [simp]:
  "called (after_release t s) = called s" "executed (after_release t s) = executed s"
  "curr_task (after_release t s) = curr_task s" "task_Queues (after_release t s) = task_Queues s"
  "queue_index (after_release t s) = queue_index s" "MaxActiveThreads (after_release t s) = MaxActiveThreads s"
  "queued (after_release t s) = queued s"
  "status (tasks (after_release t s) q) = (if q = t then COMPLETE_TASK else status (tasks s q))"
  "parent (tasks (after_release t s) q) = parent (tasks s q)"
  "to_notify (tasks (after_release t s) q) = (if q = t then NLocked else to_notify (tasks s q))"
  "simple_task (tasks (after_release t s) q) = simple_task (tasks s q)"
  by (simp_all add: after_release_def split: option.split)

lemma calm_release:
  assumes calm: "calm prog U R {} {t} s" and t: "status (tasks s t) = EXECUTED_TASK" "t \<in> set (called s)"
    and done': "unfinished t s = {}"
  shows "calm prog U R {} {p. parent (tasks s t) = Some p \<and> unfinished p (after_release t s) = {}} (after_release t s)"
proof -
  let ?u = "after_release t s" and ?X = "{p. parent (tasks s t) = Some p \<and> unfinished p (after_release t s) = {}}"
  note d = calmD [OF calm]
  have unf: "unfinished q ?u = unfinished q s - {t}" for q
    by (auto simp: unfinished_def)
  have other: "unfinished q ?u = unfinished q s" if "parent (tasks s t) \<noteq> Some q" for q
    using that unfolding unf by (auto simp: unfinished_def)
  have inv: "rt_inv None ?u"
    using released_inv [OF d(1) t(1)] decrement [of _ "released t s"]
    by (auto simp: after_release_def child_done_def split: option.split)
  have out: "t \<notin> set R" using running [OF calm] t(1) by fastforce
  have "phase R {} ?X ?u x" if "x \<in> set (called s)" for x
    using d(7) [OF that] out other [of x] unf [of x] done' by (cases "x = t") (auto simp: phase_def)
  moreover have "kids q ?u = kids q s" for q by (simp add: kids_def)
  moreover have "born_later ?u" "family ?u = family s" using d(6) by (auto simp: born_later_def family_def)
  moreover have "simple_tasks prog U ?u" using d(4) by (auto simp: simple_tasks_def)
  moreover have "only_own ?u" using d(5) by (simp add: only_own_def)
  ultimately show ?thesis using inv d by (simp add: calm_def)
qed

lemma calm_no_release:
  assumes "calm prog U R H X s" and "\<And>t. t \<in> X \<Longrightarrow> status (tasks s t) \<noteq> EXECUTED_TASK"
  shows "calm prog U R H {} s"
proof -
  have "phase R H {} s t" if "t \<in> set (called s)" for t
    using calmD(7) [OF assms(1) that] assms(2) [of t] by (auto simp: phase_def)
  then show ?thesis using assms(1) by (simp add: calm_def)
qed

text \<open>The counters as signed integers.\<close>

lemma sint_of_nat_u32: "n < 2 ^ 31 \<Longrightarrow> sint (of_nat n :: u32) = int n"
proof -
  assume n: "n < 2 ^ 31"
  then have "uint (of_nat n :: u32) = int n" by (simp add: unsigned_of_nat take_bit_nat_eq_self uint_nat unat_of_nat)
  then show ?thesis using n by (simp add: sint_uint signed_take_bit_int_eq_self)
qed

lemma children_small:
  assumes calm: "calm prog U R H X s" and U: "finite U" "card U < 2 ^ 31"
  shows "sint (number_of_children (tasks s p)) = int (card (unfinished p s))"
    "number_of_children (tasks s p) = 0 \<longleftrightarrow> unfinished p s = {}"
proof -
  have "unfinished p s \<subseteq> U" using calmD(3) [OF calm] by (auto simp: unfinished_def)
  then have c: "card (unfinished p s) < 2 ^ 31" using U card_mono by (meson order.strict_trans1)
  have n: "number_of_children (tasks s p) = of_nat (card (unfinished p s))"
    using calmD(1) [OF calm] by (simp add: rt_inv_def)
  then show "sint (number_of_children (tasks s p)) = int (card (unfinished p s))" using sint_of_nat_u32 [OF c] by simp
  have "finite (unfinished p s)" by (simp add: unfinished_def)
  moreover have "(of_nat (card (unfinished p s)) :: u32) = 0 \<longleftrightarrow> card (unfinished p s) = 0"
    using of_nat_u32_inj [of "card (unfinished p s)" 0] c by auto
  ultimately show "number_of_children (tasks s p) = 0 \<longleftrightarrow> unfinished p s = {}" using n by simp
qed

lemma release_total:
  assumes U: "finite U" "card U < 2 ^ 31"
  shows "calm prog U R {} {t} s \<Longrightarrow> status (tasks s t) = EXECUTED_TASK \<Longrightarrow> i < length (called s) \<Longrightarrow> called s ! i = t \<Longrightarrow>
    unfinished t s = {} \<Longrightarrow> \<exists>s' k. (\<forall>m\<ge>k. \<forall>sched. release_task sched m t s = Inr s') \<and> calm prog U R {} {} s'
      \<and> called s' = called s \<and> executed s' = executed s \<and> (\<forall>q. parent (tasks s' q) = parent (tasks s q))"
proof (induction i arbitrary: t s rule: less_induct)
  case (less i)
  let ?u = "after_release t s"
  note d = calmD [OF less.prems(1)]
  have t: "t \<in> set (called s)" using less.prems(3,4) by (metis nth_mem)
  then have "to_notify (tasks s t) = NOpen []" using d(3,4) less.prems(2) by (auto simp: simple_tasks_def)
  note step = release_simple [OF less.prems(2) this]
  note u = calm_release [OF less.prems(1,2) t less.prems(5)]
  show ?case
  proof (cases "parent (tasks s t)")
    case None
    then have "\<forall>m\<ge>1. \<forall>sched. release_task sched m t s = Inr ?u"
      using step by (auto simp: after_release_def Suc_le_eq elim!: less_natE)
    moreover have "calm prog U R {} {} ?u" using u None by simp
    ultimately show ?thesis by (intro exI [of _ ?u] exI [of _ 1]) simp
  next
    case (Some p)
    note c = children_small [OF u U, of p]
    have one: "release_task sched (Suc m) t s =
        (if unfinished p ?u = {} \<and> status (tasks s p) = EXECUTED_TASK \<and> p \<noteq> t then release_task sched m p ?u else Inr ?u)"
      for m sched
      using step [of sched m] Some c by (auto simp: after_release_def Let_def)
    show ?thesis
    proof (cases "unfinished p ?u = {} \<and> status (tasks s p) = EXECUTED_TASK \<and> p \<noteq> t")
      case True
      have "p \<in> set (take i (called s))" using d(6) less.prems(3,4) Some by (auto simp: born_later_def)
      then obtain j where j: "j < i" "called s ! j = p" using less.prems(3) by (auto simp: in_set_conv_nth)
      have "calm prog U R {} {p} ?u" using u True Some by (simp add: Collect_conv_if2)
      then obtain s' k where "\<forall>m\<ge>k. \<forall>sched. release_task sched m p ?u = Inr s'" "calm prog U R {} {} s'"
          "called s' = called s" "executed s' = executed s" "\<forall>q. parent (tasks s' q) = parent (tasks s q)"
        using less.IH [OF j(1), of p ?u] True j less.prems(3) by auto
      then show ?thesis using one True
        by (intro exI [of _ s'] exI [of _ "Suc k"]) (auto simp: Suc_le_eq elim!: less_natE)
    next
      case False
      have "release_task sched (Suc m) t s = Inr ?u" for m sched unfolding one if_not_P [OF False] by simp
      then have "\<forall>m\<ge>1. \<forall>sched. release_task sched m t s = Inr ?u"
        by (metis Suc_le_D One_nat_def)
      moreover have "calm prog U R {} {} ?u"
        using calm_no_release [OF u] False Some by (auto split: if_splits)
      ultimately show ?thesis by (intro exI [of _ ?u] exI [of _ 1]) simp
    qed
  qed
qed

end
