(* ===== verification/Runtime_Total.thy ===== *)
theory Runtime_Total
  imports Runtime_Calm
begin

text \<open>
  Whole programs of independent tasks return: a finite tree of tasks is executed completely, each
  task once, however the tasks synchronise and whichever of them are executed in place because the
  queue is full.
\<close>

section \<open>Every execution completes\<close>

definition grown :: "nat set \<Rightarrow> rt_state \<Rightarrow> rt_state \<Rightarrow> bool" where
  "grown A s s' \<longleftrightarrow> set (executed s) \<subseteq> set (executed s') \<and> curr_task s' = curr_task s
     \<and> (\<forall>p \<in> set (executed s) - A. kids p s' = kids p s)"

lemma grown_refl [simp]: "grown A s s"
  by (simp add: grown_def)

lemma grown_trans: "grown A s t \<Longrightarrow> grown A t u \<Longrightarrow> grown A s u"
  by (auto simp: grown_def)

lemma grown_mono: "grown A s t \<Longrightarrow> A \<subseteq> B \<Longrightarrow> grown B s t"
  by (auto simp: grown_def)

text \<open>What is left to execute.\<close>

definition todo :: "nat set \<Rightarrow> rt_state \<Rightarrow> nat" where
  "todo U s = card (U - set (executed s))"

lemma todo_grown: "finite U \<Longrightarrow> set (executed s) \<subseteq> set (executed s') \<Longrightarrow> todo U s' \<le> todo U s"
  unfolding todo_def by (intro card_mono) auto

lemma todo_less: "finite U \<Longrightarrow> set (executed s) \<subseteq> set (executed s') \<Longrightarrow> t \<in> U \<Longrightarrow> t \<in> set (executed s') \<Longrightarrow>
    t \<notin> set (executed s) \<Longrightarrow> todo U s' < todo U s"
  unfolding todo_def by (intro psubset_card_mono) auto

text \<open>Executions with fewer than \<open>N\<close> tasks left complete.\<close>

definition total_below :: "(u32 \<Rightarrow> u32 \<times> u32) \<Rightarrow> program \<Rightarrow> nat set \<Rightarrow> nat \<Rightarrow> bool" where
  "total_below rand_r prog U N \<longleftrightarrow>
     (\<forall>R t s. calm prog U R {t} {} s \<longrightarrow> in_hand t s \<longrightarrow> t \<in> set (called s) \<longrightarrow> todo U s < N \<longrightarrow>
       (\<exists>s'. ends (\<lambda>n m. execute_task rand_r prog n t s) s' \<and> calm prog U R {} {} s' \<and> grown {} s s'
         \<and> t \<in> set (executed s')))"

lemma total_belowD:
  assumes "total_below rand_r prog U N" and "calm prog U R {t} {} s" and "in_hand t s" and "t \<in> set (called s)"
    and "todo U s < N"
  obtains s' where "ends (\<lambda>n m. execute_task rand_r prog n t s) s'" "calm prog U R {} {} s'" "grown {} s s'"
    "t \<in> set (executed s')"
  using assms unfolding total_below_def by blast

lemma call_total:
  assumes below: "total_below rand_r prog U N" and calm: "calm prog U (t # R) {} {} s" and few: "todo U s < N"
    and c: "c \<in> set (calls prog t)" "c \<notin> kids t s"
  shows "\<exists>s'. ends (\<lambda>n m. tpc_call (schedule_task (execute_task rand_r prog n)) c s) s'
    \<and> calm prog U (t # R) {} {} s' \<and> grown {t} s s' \<and> kids t s' = insert c (kids t s)"
proof -
  note d = calmD [OF calm] and t = running [OF calm, of t, simplified]
  have cU: "c \<in> U" "parent (tasks s c) = Some t" using c(1) t d(4) by (auto simp: simple_tasks_def)
  then have new: "c \<notin> set (called s)" "simple_task (tasks s c)" using c(2) d(4) by (auto simp: kids_def simple_tasks_def)
  obtain r q where enq: "enqueue c (task_Queues s (queue_index s)) = (r, q)" by (metis surj_pair)
  let ?v = "set_queue (queue_index s) q (child_ready c s)"
  note v = calm_call [OF calm c(1) new(1) enq]
  have run: "tpc_call (schedule_task exec) c s = (if r = 0 then exec c ?v else Inr ?v)" for exec
    using tpc_call_simple [OF new(2)] enq by simp
  have sv: "grown {t} s ?v" using v by (auto simp: grown_def)
  show ?thesis
  proof (cases "r = 0")
    case True
    then have "calm prog U (t # R) {c} {} ?v" "in_hand c ?v" "c \<in> set (called ?v)" "todo U ?v < N"
      using v few by (simp_all add: todo_def)
    from total_belowD [OF below this] obtain s' where s': "ends (\<lambda>n m. execute_task rand_r prog n c ?v) s'"
        "calm prog U (t # R) {} {} s'" "grown {} ?v s'" .
    moreover have "kids t s' = kids t ?v" using s'(3) v t by (auto simp: grown_def)
    ultimately show ?thesis
      using True v grown_trans [OF sv grown_mono [OF s'(3)]] by (intro exI [of _ s']) (simp add: run)
  next
    case False
    then show ?thesis using v sv by (intro exI [of _ ?v]) (simp add: run ends_Inr)
  qed
qed

lemma sync_loop_total:
  assumes U: "finite U" "card U < 2 ^ 31" and below: "total_below rand_r prog U N"
  shows "calm prog U (t # R) {} {} s \<Longrightarrow> todo U s < N \<Longrightarrow>
    \<exists>s'. ends (\<lambda>n m. sync_loop rand_r (execute_task rand_r prog n) m t s) s'
      \<and> calm prog U (t # R) {} {} s' \<and> grown {} s s' \<and> unfinished t s' = {}"
proof (induction "todo U s" arbitrary: s rule: less_induct)
  case less
  note calm = less.prems(1)
  note d = calmD [OF calm] and zero = children_small(2) [OF calm U, of t]
  show ?case
  proof (cases "unfinished t s = {}")
    case True
    then have "ends (\<lambda>n m. sync_loop rand_r (execute_task rand_r prog n) (Suc m) t s) s"
      using zero by (simp add: ends_Inr)
    then have "ends (\<lambda>n m. sync_loop rand_r (execute_task rand_r prog n) m t s) s" by (rule ends_loop_Suc)
    then show ?thesis using calm True by auto
  next
    case False
    then have "queued s \<noteq> []" by (rule work_left [OF calm])
    then obtain u q where work: "find_work rand_r s = Inr (Some u, set_queue (queue_index s) q s)" "dq_inv q"
        "mset (dq_list (task_Queues s (queue_index s))) = add_mset u (mset (dq_list q))"
      using find_own_work [OF d(1,5)] by metis
    let ?v = "set_queue (queue_index s) q s"
    note v = calm_take [OF calm work(2,3)]
    have sv: "grown {} s ?v" by (simp add: grown_def kids_def)
    have "todo U ?v < N" using less.prems(2) by (simp add: todo_def)
    then obtain w where w: "ends (\<lambda>n m. execute_task rand_r prog n u ?v) w" "calm prog U (t # R) {} {} w" "grown {} ?v w"
        "u \<in> set (executed w)"
      using total_belowD [OF below, of "t # R" u ?v] v by auto
    have smaller: "todo U w < todo U s"
      using v w d(3) by (intro todo_less [OF U(1), of _ _ u]) (auto simp: grown_def in_hand_def)
    then obtain s' where s': "ends (\<lambda>n m. sync_loop rand_r (execute_task rand_r prog n) m t w) s'"
        "calm prog U (t # R) {} {} s'" "grown {} w s'" "unfinished t s' = {}"
      using less.hyps [OF smaller w(2)] less.prems(2) by auto
    have turn: "sync_loop rand_r (execute_task rand_r prog n) (Suc m) t s =
        ebind (execute_task rand_r prog n u ?v) (sync_loop rand_r (execute_task rand_r prog n) m t)" for n m
      using False zero work(1) by (simp add: work_once_def)
    have "ends (\<lambda>n m. sync_loop rand_r (execute_task rand_r prog n) (Suc m) t s) s'"
      unfolding turn by (rule ends_bind, rule w(1), rule s'(1))
    then have "ends (\<lambda>n m. sync_loop rand_r (execute_task rand_r prog n) m t s) s'" by (rule ends_loop_Suc)
    then show ?thesis using s' grown_trans [OF sv grown_trans [OF w(3) s'(3)]] by blast
  qed
qed


lemma calm_vars:
  "calm prog U R H X (s\<lparr>curr_task := x, cur_parent := y\<rparr>) = calm prog U R H X s"
  by (simp add: calm_def vars_inv simple_tasks_def only_own_def born_later_def phase_def family_def kids_def
    queued_def unfinished_def)

lemma sync_total:
  assumes U: "finite U" "card U < 2 ^ 31" and below: "total_below rand_r prog U N"
    and calm: "calm prog U (t # R) {} {} s" and few: "todo U s < N" and cur: "curr_task s = Some t"
  shows "\<exists>s'. ends (\<lambda>n m. tpc_sync rand_r (execute_task rand_r prog n) m s) s'
    \<and> calm prog U (t # R) {} {} s' \<and> grown {} s s' \<and> unfinished t s' = {}"
proof -
  obtain u where u: "ends (\<lambda>n m. sync_loop rand_r (execute_task rand_r prog n) m t s) u"
      "calm prog U (t # R) {} {} u" "grown {} s u" "unfinished t u = {}"
    using sync_loop_total [OF U below calm few] by blast
  let ?s = "u\<lparr>curr_task := Some t, cur_parent := Some t\<rparr>"
  have "ends (\<lambda>n m. tpc_sync rand_r (execute_task rand_r prog n) m s) ?s"
    unfolding tpc_sync_def cur option.case by (rule ends_bind, rule u(1), rule ends_Inr)
  moreover have "grown {} s ?s" using u(3) cur by (simp add: grown_def kids_def)
  moreover have "unfinished t ?s = {}" using u(4) by (simp add: unfinished_def)
  ultimately show ?thesis using u(2) by (auto simp: calm_vars)
qed

text \<open>The calls a task makes, from any point of its program.\<close>

lemma steps_total:
  assumes U: "finite U" "card U < 2 ^ 31" and below: "total_below rand_r prog U N"
  shows "calm prog U (t # R) {} {} s \<Longrightarrow> todo U s < N \<Longrightarrow> curr_task s = Some t \<Longrightarrow>
    prog t = before @ rest \<Longrightarrow> kids t s = set (calls_of before) \<Longrightarrow>
    \<exists>s'. ends (\<lambda>n m. efold (api_step rand_r (execute_task rand_r prog n) m) rest s) s'
      \<and> calm prog U (t # R) {} {} s' \<and> grown {t} s s' \<and> kids t s' = set (calls prog t)"
proof (induction rest arbitrary: before s)
  case Nil
  then show ?case by (auto simp: calls_def intro: ends_Inr)
next
  case (Cons a rest)
  note calm = Cons.prems(1) and t = running [OF Cons.prems(1), of t, simplified]
  have dist: "distinct (calls prog t)" using calmD(4) [OF calm] t by (simp add: simple_tasks_def)
  have "\<exists>u. ends (\<lambda>n m. api_step rand_r (execute_task rand_r prog n) m a s) u
      \<and> calm prog U (t # R) {} {} u \<and> grown {t} s u \<and> kids t u = set (calls_of (before @ [a]))"
  proof (cases a)
    case (Call c)
    then have "c \<in> set (calls prog t)" "c \<notin> kids t s"
      using Cons.prems(4,5) dist by (auto simp: calls_def calls_of_append)
    from call_total [OF below calm Cons.prems(2) this] show ?thesis
      using Call Cons.prems(5) by (auto simp: api_step_def calls_of_append)
  next
    case Sync
    obtain u where u: "ends (\<lambda>n m. tpc_sync rand_r (execute_task rand_r prog n) m s) u"
        "calm prog U (t # R) {} {} u" "grown {} s u"
      using sync_total [OF U below calm Cons.prems(2,3)] by blast
    have "kids t u = kids t s" "grown {t} s u" using u(3) t by (auto simp: grown_def)
    then show ?thesis using u Sync Cons.prems(5)
      by (intro exI [of _ u]) (simp add: api_step_def calls_of_append)
  qed
  then obtain u where u: "ends (\<lambda>n m. api_step rand_r (execute_task rand_r prog n) m a s) u"
      "calm prog U (t # R) {} {} u" "grown {t} s u" "kids t u = set (calls_of (before @ [a]))" by blast
  have "todo U u < N" using todo_grown [OF U(1)] u(3) Cons.prems(2) by (meson grown_def order.strict_trans1)
  moreover have "curr_task u = Some t" using u(3) Cons.prems(3) by (simp add: grown_def)
  ultimately obtain s' where s': "ends (\<lambda>n m. efold (api_step rand_r (execute_task rand_r prog n) m) rest u) s'"
      "calm prog U (t # R) {} {} s'" "grown {t} u s'" "kids t s' = set (calls prog t)"
    using Cons.IH [OF u(2), of "before @ [a]"] Cons.prems(4) u(4) by auto
  have "ends (\<lambda>n m. efold (api_step rand_r (execute_task rand_r prog n) m) (a # rest) s) s'"
    unfolding efold.simps by (rule ends_bind, rule u(1), rule s'(1))
  then show ?case using s' grown_trans [OF u(3) s'(3)] by blast
qed


text \<open>One execution, given that those with fewer tasks left complete.\<close>

lemma execute_step_total:
  assumes U: "finite U" "card U < 2 ^ 31" and below: "total_below rand_r prog U N"
    and calm: "calm prog U R {t} {} s" and hand: "in_hand t s" and t: "t \<in> set (called s)" and few: "todo U s < Suc N"
  shows "\<exists>s'. ends (\<lambda>n m. execute_task rand_r prog n t s) s' \<and> calm prog U R {} {} s' \<and> grown {} s s'
    \<and> t \<in> set (executed s')"
proof -
  let ?s = "started t s"
  note st = calm_start [OF calm hand t]
  have tU: "t \<in> U" "t \<notin> set (executed s)" using calmD(3) [OF calm] t hand by (auto simp: in_hand_def)
  have "todo U ?s < todo U s" using tU by (intro todo_less [OF U(1)]) auto
  then have few': "todo U ?s < N" using few by simp
  obtain u where u: "ends (\<lambda>n m. efold (api_step rand_r (execute_task rand_r prog n) m) (prog t) ?s) u"
      "calm prog U (t # R) {} {} u" "grown {t} ?s u" "kids t u = set (calls prog t)"
    using steps_total [OF U below conjunct1 [OF st] few', of "[]" "prog t"] st by auto
  let ?u = "set_status t EXECUTED_TASK u"
  note ret = calm_return [OF u(2,4)]
  have kids: "kids p u = kids p s" if "p \<in> set (executed s)" for p
    using u(3) that tU(2) by (auto simp: grown_def kids_def)
  have ex: "set (executed s) \<subseteq> set (executed u)" "t \<in> set (executed u)" using u(3) by (auto simp: grown_def)
  have run: "ends (\<lambda>n m. wrapper rand_r prog (execute_task rand_r prog n) m t
      (upd_task t (\<lambda>d. d\<lparr>metadata := Some new_trie\<rparr>) (s\<lparr>cur_parent := Some t, curr_task := Some t\<rparr>))) u"
    using u(1) by (simp add: wrapper_def started_def)
  have stu: "status (tasks u t) = SCHEDULED_TASK" using running [OF u(2), of t] by simp
  note small = children_small(1) [OF ret U, of t]
  obtain v where v: "ends (\<lambda>n m. if 0 < sint (number_of_children (tasks ?u t)) then Inr ?u
        else release_task (schedule_task (execute_task rand_r prog n)) m t ?u) v"
      "calm prog U R {} {} v" "executed v = executed u" "called v = called u" "\<And>q. parent (tasks v q) = parent (tasks u q)"
  proof (cases "unfinished t ?u = {}")
    case False
    then have "0 < card (unfinished t ?u)" by (simp add: card_gt_0_iff unfinished_def)
    moreover have "calm prog U R {} {} ?u"
      using ret False unfolding calm_def phase_def by auto
    ultimately show ?thesis using small that [of ?u] by (simp add: ends_Inr)
  next
    case True
    obtain i where i: "i < length (called ?u)" "called ?u ! i = t" using running [OF u(2), of t] by (auto simp: in_set_conv_nth)
    obtain v k where "\<forall>m\<ge>k. \<forall>sched. release_task sched m t ?u = Inr v" "calm prog U R {} {} v"
        "called v = called ?u" "executed v = executed ?u" "\<forall>q. parent (tasks v q) = parent (tasks ?u q)"
      using release_total [OF U ret _ i True] by auto
    then show ?thesis using small True that [of v] by (auto simp: ends_def)
  qed
  let ?fin = "v\<lparr>curr_task := curr_task s, cur_parent := curr_task s\<rparr>"
  define F where "F n m = ebind (wrapper rand_r prog (execute_task rand_r prog n) m t
        (upd_task t (\<lambda>d. d\<lparr>metadata := Some new_trie\<rparr>) (s\<lparr>cur_parent := Some t, curr_task := Some t\<rparr>))) (\<lambda>u.
      ebind (c_assert (status (tasks u t) = SCHEDULED_TASK)) (\<lambda>_.
      ebind (if 0 < sint (number_of_children (tasks (set_status t EXECUTED_TASK u) t)) then Inr (set_status t EXECUTED_TASK u)
        else release_task (schedule_task (execute_task rand_r prog n)) m t (set_status t EXECUTED_TASK u)) (\<lambda>v.
      Inr (v\<lparr>curr_task := curr_task s, cur_parent := curr_task s\<rparr>))))" for n m
  have "ends F ?fin"
    unfolding F_def [abs_def]
    by (rule ends_bind, rule run, simp only: stu c_assert_True ebind_Inr simp_thms, rule ends_bind, rule v(1), rule ends_Inr)
  moreover have "execute_task rand_r prog (Suc n) t s = F n n" for n
    by (simp add: F_def Let_def set_status_def if_distrib [of "\<lambda>m. ebind m _"] cong: if_cong)
  ultimately have "ends (\<lambda>n m. execute_task rand_r prog n t s) ?fin" by (rule ends_nest)
  moreover have "grown {} s ?fin" using kids v(3-5) ex by (simp add: grown_def kids_def)
  ultimately show ?thesis using v(2,3) ex by (intro exI [of _ ?fin]) (simp add: calm_vars)
qed

lemma every_execution_total:
  assumes "finite U" and "card U < 2 ^ 31"
  shows "total_below rand_r prog U N"
proof (induction N)
  case 0
  then show ?case by (simp add: total_below_def)
next
  case (Suc N)
  then show ?case using execute_step_total [OF assms Suc.IH] unfolding total_below_def [of _ _ _ "Suc N"] by blast
qed


section \<open>Whole programs\<close>

text \<open>The tasks of a program.\<close>

inductive_set task_tree :: "program \<Rightarrow> nat \<Rightarrow> nat set" for prog :: program and main :: nat where
  root: "main \<in> task_tree prog main"
| child: "t \<in> task_tree prog main \<Longrightarrow> c \<in> set (calls prog t) \<Longrightarrow> c \<in> task_tree prog main"

text \<open>
  The program of independent tasks: every descriptor is passed to \<open>tpc_call\<close> once, by the task its
  \<open>parent\<close> field names, and comes zeroed from \<open>tpc_task_descriptor_alloc\<close> but for that field and its
  arguments, which the analysis skips.
\<close>

definition independent :: "program \<Rightarrow> nat \<Rightarrow> rt_state \<Rightarrow> bool" where
  "independent prog main s \<longleftrightarrow> finite (task_tree prog main) \<and> card (task_tree prog main) < 2 ^ 31
     \<and> (\<forall>t \<in> task_tree prog main. distinct (calls prog t) \<and> main \<notin> set (calls prog t)
         \<and> (\<forall>c \<in> set (calls prog t). parent (tasks s c) = Some t))
     \<and> (\<forall>t \<in> task_tree prog main - {main}. simple_task (tasks s t) \<and> to_notify (tasks s t) = NOpen [])
     \<and> fresh_tasks main s"

text \<open>When the main program waits for no child any more, the whole tree is done.\<close>

lemma tree_done:
  assumes calm: "calm prog (task_tree prog main) [main] {} {} s" and first: "\<exists>xs. called s = main # xs"
    and all: "kids main s = set (calls prog main)" and wait: "unfinished main s = {}"
  shows "set (executed s) = task_tree prog main
    \<and> (\<forall>t \<in> task_tree prog main - {main}. status (tasks s t) = COMPLETE_TASK)"
proof -
  note d = calmD [OF calm]
  have main: "main \<in> set (executed s)" "called s \<noteq> []" "called s ! 0 = main"
    using running [OF calm, of main] first by auto
  have complete: "i < length (called s) \<Longrightarrow> i \<noteq> 0 \<Longrightarrow> status (tasks s (called s ! i)) = COMPLETE_TASK" for i
  proof (induction i rule: less_induct)
    case (less i)
    let ?c = "called s ! i"
    obtain p where p: "parent (tasks s ?c) = Some p" "p \<in> set (take i (called s))"
      using d(6) less.prems by (fastforce simp: born_later_def)
    then obtain j where j: "j < i" "called s ! j = p" using less.prems by (auto simp: in_set_conv_nth)
    have "unfinished p s = {}"
    proof (cases "j = 0")
      case True
      then show ?thesis using j main(3) wait by simp
    next
      case False
      then have st: "status (tasks s p) = COMPLETE_TASK" using less.IH [OF j(1)] less.prems j by simp
      have "phase [main] {} {} s p" using d(7) j less.prems by auto
      then show ?thesis using st by (auto simp: phase_def)
    qed
    then show ?case using p(1) less.prems by (auto simp: unfinished_def)
  qed
  have exe: "set (executed s) = set (called s)"
  proof (rule antisym [OF rt_inv_executed [OF d(1)]], rule subsetI)
    fix c assume "c \<in> set (called s)"
    then obtain i where "i < length (called s)" "called s ! i = c" by (auto simp: in_set_conv_nth)
    then show "c \<in> set (executed s)"
      using complete [of i] main(1,3) d(1) by (cases "i = 0") (auto simp: rt_inv_def tasks_inv_def status_order)
  qed
  have kids: "kids t s = set (calls prog t)" if "t \<in> set (called s)" for t
    using that d(10) [of t] all exe by (cases "t = main") auto
  have "t \<in> set (called s)" if "t \<in> task_tree prog main" for t
    using that
  proof induction
    case root
    then show ?case using main(2,3) by (metis length_greater_0_conv nth_mem)
  next
    case (child t c)
    then show ?case using kids [of t] by (auto simp: kids_def)
  qed
  then have tree: "set (called s) = task_tree prog main" using d(3) by auto
  have "status (tasks s t) = COMPLETE_TASK" if "t \<in> task_tree prog main - {main}" for t
    using that complete main(3) unfolding tree [symmetric] by (auto simp: in_set_conv_nth)
  then show ?thesis using exe tree by blast
qed

text \<open>The program starts in such a state.\<close>

lemma init_calm:
  assumes ind: "independent prog main s" and grid: "grid_mem h \<noteq> 0" and mem: "\<forall>i. queue_mem h i \<noteq> None"
    and threads: "1 \<le> threads" "threads \<le> 64"
  shows "\<exists>b' u. tpc_init h threads main region b (static_init s) = Inr (threads, b', u) \<and> grid_t b' \<noteq> 0
    \<and> MaxActiveThreads u = threads \<and> calm prog (task_tree prog main) [main] {} {} u
    \<and> called u = [main] \<and> curr_task u = Some main"
proof -
  have st: "tasks (static_init s) = tasks s" by (simp add: static_init_def)
  have q: "queue_mem h i = Some (the (queue_mem h i))" for i using mem by auto
  have n: "num_threads threads (nprocs h) = threads" "threads \<noteq> 0" "\<not> unat threads > 64"
    using threads by (auto simp: num_threads_def MAX_THREADS_def word_le_nat_alt word_less_nat_alt)
  define f where "f b' = (static_init s)\<lparr>MaxActiveThreads := threads, grid := grid_t b', queue_index := 0, seed := pthread_self h,
       tasks := (tasks s)(main := main_descriptor region), called := [main], executed := [main],
       cur_parent := Some main, curr_task := Some main,
       task_Queues := (\<lambda>k. if k < unat threads \<or> k = 0 then init_queue (the (queue_mem h k)) else task_Queues (static_init s) k)\<rparr>" for b' :: balloc_t
  obtain b' where init: "tpc_init h threads main region b (static_init s) = Inr (threads, b', f b')"
    using tpc_init_result [OF q grid, of threads main region b "static_init s"] n
    unfolding f_def Let_def n st by auto
  have n1: "grid_t b' \<noteq> 0" using init grid
    by (auto simp: tpc_init_def fault_simps Let_def balloc_init_def newGrid_def split: if_splits)
  let ?u = "f b'"
  have fresh: "fresh_tasks main s" using ind by (simp add: independent_def)
  have inv: "rt_inv None ?u" using tpc_init_inv [OF init fresh] by simp
  have main: "simple_task (tasks ?u main)" "to_notify (tasks ?u main) = NOpen []"
    by (simp_all add: f_def main_descriptor_def zero_descriptor_def simple_task_def)
  have "simple_tasks prog (task_tree prog main) ?u"
    unfolding simple_tasks_def
  proof (intro ballI conjI impI)
    fix t assume t: "t \<in> task_tree prog main"
    then show "simple_task (tasks ?u t)" "to_notify (tasks ?u t) = NOpen []"
      using main ind by (cases "t = main"; simp add: f_def independent_def)+
    show "distinct (calls prog t)" using ind t by (simp add: independent_def)
    show "set (calls prog t) \<subseteq> task_tree prog main" using t by (auto intro: task_tree.child)
    fix c assume "c \<in> set (calls prog t)"
    then show "parent (tasks ?u c) = Some t" using ind t by (auto simp: f_def independent_def)
  qed
  moreover have "only_own ?u" by (simp add: only_own_def f_def)
  moreover have "born_later ?u" by (simp add: born_later_def f_def main_descriptor_def)
  moreover have "phase [main] {} {} ?u main" by (simp add: phase_def f_def main_descriptor_def)
  ultimately have "calm prog (task_tree prog main) [main] {} {} ?u"
    using inv task_tree.root [of main prog] by (simp add: calm_def f_def)
  then show ?thesis using init n1 by (intro exI [of _ b'] exI [of _ ?u]) (simp add: f_def)
qed

lemma shutdown_total:
  assumes "ends (\<lambda>n m. tpc_sync rand_r (execute_task rand_r prog n) m s) v"
    and "MaxActiveThreads v = threads" and "grid_t b \<noteq> 0"
  shows "ends (\<lambda>n m. tpc_shutdown h rand_r (execute_task rand_r prog n) m main (threads, b, s))
    (grid_t b, release_queue (numa_available h),
      v\<lparr>active_threads := 0, deleted := deleted v @ [task_region (tasks v main)]\<rparr>)"
  unfolding tpc_shutdown_def prod.case
  by (rule ends_bind, rule assms(1))
    (use assms(2,3) in \<open>simp add: Let_def barrier_wait_def balloc_finalize_def ends_Inr\<close>)

text \<open>
  C3: A program of independent tasks returns: on one worker, with memory for the grid and the
  queues and 1 to 64 threads, there is a nesting bound for which the run from \<open>tpc_init\<close> to the end
  of \<open>tpc_shutdown\<close> completes, without an error and without waiting for ever, every task of the tree
  of calls executed exactly once and every one but the main program released.
\<close>

theorem independent_program_returns:
  assumes "independent prog main s" and "grid_mem h \<noteq> 0" and "\<forall>i. queue_mem h i \<noteq> None"
    and "1 \<le> threads" and "threads \<le> 64"
  shows "\<exists>n g d s'. run_program h rand_r prog n threads main region b s = Inr (g, d, s')
    \<and> distinct (executed s') \<and> set (executed s') = task_tree prog main
    \<and> (\<forall>t. t \<noteq> main \<and> t \<in> task_tree prog main \<longrightarrow> status (tasks s' t) = COMPLETE_TASK)"
proof -
  let ?U = "task_tree prog main"
  obtain b' u where init: "tpc_init h threads main region b (static_init s) = Inr (threads, b', u)" "grid_t b' \<noteq> 0"
      "MaxActiveThreads u = threads" "calm prog ?U [main] {} {} u" "called u = [main]" "curr_task u = Some main"
    using init_calm [OF assms] by blast
  have U: "finite ?U" "card ?U < 2 ^ 31" using assms(1) by (simp_all add: independent_def)
  note below = every_execution_total [OF U, of rand_r prog "Suc (card ?U)"]
  have few: "todo ?U x < Suc (card ?U)" for x
    using U(1) by (simp add: todo_def less_Suc_eq_le card_mono)
  have "born_later u" by (rule calmD(6) [OF init(4)])
  then have "parent (tasks u main) \<noteq> Some main" using init(5) by (auto simp: born_later_def)
  then have nokids: "kids main u = {}" using init(5) by (auto simp: kids_def)
  obtain v where v: "ends (\<lambda>n m. efold (api_step rand_r (execute_task rand_r prog n) m) (prog main) u) v"
      "calm prog ?U [main] {} {} v" "grown {main} u v" "kids main v = set (calls prog main)"
    using steps_total [OF U below init(4) few init(6), of "[]"] nokids by auto
  have "curr_task v = Some main" using v(3) init(6) by (simp add: grown_def)
  from sync_total [OF U below v(2) few this]
  obtain w where w: "ends (\<lambda>n m. tpc_sync rand_r (execute_task rand_r prog n) m v) w"
      "calm prog ?U [main] {} {} w" "grown {} v w" "unfinished main w = {}" by blast
  have logs: "logs u v" "logs v w"
  proof -
    obtain k where k: "efold (api_step rand_r (execute_task rand_r prog k) k) (prog main) u = Inr v"
        "tpc_sync rand_r (execute_task rand_r prog k) k v = Inr w"
      using v(1) w(1) unfolding ends_def by (meson linorder_le_cases order.refl)
    show "logs u v" by (rule good_logs [OF ex.api_steps_good [OF k(1)]])
    show "logs v w" by (rule good_logs [OF conjunct1 [OF ex.tpc_sync_good [OF k(2)]]])
  qed
  have same: "MaxActiveThreads w = threads" "\<exists>xs. called w = main # xs"
    using logs init(3,5) by (auto simp: logs_def)
  have "main \<in> set (executed v)" using running [OF v(2), of main] by simp
  then have "kids main w = set (calls prog main)" using w(3) v(4) by (simp add: grown_def)
  note finished = tree_done [OF w(2) same(2) this w(4)]
  let ?w = "w\<lparr>active_threads := 0, deleted := deleted w @ [task_region (tasks w main)]\<rparr>"
  let ?x = "(grid_t b', release_queue (numa_available h), ?w)"
  define F where "F n m = ebind (efold (api_step rand_r (execute_task rand_r prog n) m) (prog main) u)
      (\<lambda>v. tpc_shutdown h rand_r (execute_task rand_r prog n) m main (threads, b', v))" for n m
  have "ends F ?x"
    unfolding F_def [abs_def] by (rule ends_bind, rule v(1), rule shutdown_total [OF w(1) same(1) init(2)])
  then obtain n where "F n n = Inr ?x" by (auto simp: ends_def)
  then have "run_program h rand_r prog n threads main region b s = Inr ?x"
    using init(1) by (simp add: run_program_def F_def)
  moreover have "distinct (executed w)" using calmD(1) [OF w(2)] by (simp add: rt_inv_def tasks_inv_def)
  ultimately show ?thesis using finished
    by (intro exI [of _ n] exI [of _ "grid_t b'"] exI [of _ "release_queue (numa_available h)"] exI [of _ ?w]) simp
qed

text \<open>A tree of four tasks: \<open>main\<close> spawns task 1, waits for it and spawns task 2; task 1 spawns task 3.\<close>

definition four_tasks :: program where
  "four_tasks t = (if t = 0 then [Call 1, Sync, Call 2] else if t = 1 then [Call 3] else [])"

definition four_descriptors :: rt_state where
  "four_descriptors = at_boot\<lparr>tasks := (\<lambda>t. (zero_descriptor 0)\<lparr>parent := Some (if t = 3 then 1 else 0)\<rparr>)\<rparr>"

lemma four_tasks_calls: "calls four_tasks t = (if t = 0 then [1, 2] else if t = 1 then [3] else [])"
  by (simp add: calls_def four_tasks_def)

lemma four_tasks_tree: "task_tree four_tasks 0 = {0, 1, 2, 3}"
proof (rule antisym)
  show "task_tree four_tasks 0 \<subseteq> {0, 1, 2, 3}"
  proof
    fix t assume "t \<in> task_tree four_tasks 0"
    then show "t \<in> {0, 1, 2, 3}" by induction (auto simp: four_tasks_calls split: if_splits)
  qed
  have "0 \<in> task_tree four_tasks 0" by (rule task_tree.root)
  moreover from this have "1 \<in> task_tree four_tasks 0" "2 \<in> task_tree four_tasks 0"
    by (auto intro: task_tree.child simp: four_tasks_calls)
  moreover from this have "3 \<in> task_tree four_tasks 0"
    by (auto intro: task_tree.child [of 1] simp: four_tasks_calls)
  ultimately show "{0, 1, 2, 3} \<subseteq> task_tree four_tasks 0" by simp
qed

lemma four_tasks_independent: "independent four_tasks 0 four_descriptors"
  by (simp add: independent_def four_tasks_tree four_tasks_calls four_descriptors_def at_boot_def fresh_tasks_def
    zero_descriptor_def simple_task_def)

theorem independent_program_returns_witness:
  "\<exists>n g d s'. run_program four_cores (\<lambda>x. (x, x)) four_tasks n 1 0 5 no_grid four_descriptors = Inr (g, d, s')
    \<and> distinct (executed s') \<and> set (executed s') = {0, 1, 2, 3} \<and> status (tasks s' 3) = COMPLETE_TASK"
proof -
  have "grid_mem four_cores \<noteq> 0" "\<forall>i. queue_mem four_cores i \<noteq> None" "(1::u32) \<le> 1" "(1::u32) \<le> 64"
    by (simp_all add: four_cores_def)
  from independent_program_returns [OF four_tasks_independent this, of "\<lambda>x. (x, x)" 5 no_grid]
  obtain n g d s' where "run_program four_cores (\<lambda>x. (x, x)) four_tasks n 1 0 5 no_grid four_descriptors = Inr (g, d, s')"
      "distinct (executed s')" "set (executed s') = {0, 1, 2, 3}"
      and "\<forall>t. t \<noteq> 0 \<and> t \<in> {0, 1, 2, 3} \<longrightarrow> status (tasks s' t) = COMPLETE_TASK"
    unfolding four_tasks_tree by (elim exE conjE)
  moreover from this(4) have "status (tasks s' 3) = COMPLETE_TASK" by simp
  ultimately show ?thesis by (intro exI conjI)
qed

end
