(* ===== verification/Pages.thy ===== *)
theory Pages
  imports Atomics
begin

text \<open>
  \<open>src/pages.c\<close>: the page allocator under the regions.  Free pages of 16 KiB hang in sixteen
  lists, each behind a spinlock; a list that runs dry is refilled from \<open>malloc\<close>.  A page header
  lives in the first bytes of its page, so the headers form a store indexed by page address; memory
  from \<open>malloc\<close> is not initialised, and neither are the headers in it.  The C library's
  \<open>malloc\<close> and \<open>rand_r\<close> are parameters: \<open>malloc\<close> may look at the blocks handed out so
  far.  The build has \<open>NMEMDEBUG\<close>, so the region map is not consulted here.
\<close>

section \<open>Constants and data\<close>

definition RPAGELOG :: nat where "RPAGELOG = 14"
definition RPAGESIZE :: u64 where "RPAGESIZE = push_bit RPAGELOG 1"
definition K :: u64 where "K = 4"
definition MAXLISTS :: u32 where "MAXLISTS = 16"

definition PALIGN :: "u64 \<Rightarrow> u64 \<Rightarrow> u64" where
  "PALIGN x n = (x + (n - 1)) AND NOT (n - 1)"

text \<open>The header of a page; the bit-field \<open>pagecount\<close> has 63 bits in the source.\<close>

record page =
  list_id :: u32
  p_next :: u64
  pagecount :: u64
  p_free :: bool
  available :: u64

record list_pages =
  pages :: u64
  page_count :: u32
  lp_lock :: u32

text \<open>\<open>my_list\<close> is the thread's own variable \<open>list_id\<close>; \<open>blocks\<close> logs what \<open>malloc\<close> returned.\<close>

record pages_state =
  page_at :: "u64 \<Rightarrow> page"
  single_pages :: "list_pages list"
  my_list :: u32
  myseed :: u32
  total_page_count :: u64
  blocks :: "(u64 \<times> u64) list"

type_synonym malloc_fun = "(u64 \<times> u64) list \<Rightarrow> u64 \<Rightarrow> u64"
type_synonym rand_fun = "u32 \<Rightarrow> u32 \<times> u32"

definition PAGE_GROUP_SIZE :: "'z pages_state_scheme \<Rightarrow> u64" where
  "PAGE_GROUP_SIZE s = 1 + drop_bit 7 (total_page_count s)"

definition MINIMUM_MEM_REQUEST :: "'z pages_state_scheme \<Rightarrow> u64" where
  "MINIMUM_MEM_REQUEST s = PAGE_GROUP_SIZE s * K * RPAGESIZE"

definition upd_page :: "u64 \<Rightarrow> (page \<Rightarrow> page) \<Rightarrow> 'z pages_state_scheme \<Rightarrow> 'z pages_state_scheme" where
  "upd_page p f s = s\<lparr>page_at := (page_at s)(p := f (page_at s p))\<rparr>"

definition upd_list :: "nat \<Rightarrow> (list_pages \<Rightarrow> list_pages) \<Rightarrow> 'z pages_state_scheme \<Rightarrow> 'z pages_state_scheme" where
  "upd_list i f s = s\<lparr>single_pages := (single_pages s)[i := f (single_pages s ! i)]\<rparr>"

definition init_pages :: "'z pages_state_scheme \<Rightarrow> 'z pages_state_scheme" where
  "init_pages s =
     s\<lparr>single_pages := replicate (unat MAXLISTS) \<lparr>pages = 0, page_count = 0, lp_lock = 0\<rparr>\<rparr>"

section \<open>Memory from the system\<close>

definition region_get_mem :: "malloc_fun \<Rightarrow> u64 \<Rightarrow> 'z pages_state_scheme \<Rightarrow>
    u64 \<times> 'z pages_state_scheme" where
  "region_get_mem malloc sz s =
     (let request_bytes = (if sz + K * RPAGESIZE < MINIMUM_MEM_REQUEST s then MINIMUM_MEM_REQUEST s else sz);
          mem = malloc (blocks s) (request_bytes + RPAGESIZE)
      in if mem = 0 then (0, s)
         else
           let s = s\<lparr>blocks := (mem, request_bytes + RPAGESIZE) # blocks s\<rparr>;
               newp = PALIGN mem RPAGESIZE;
               request_bytes = (if mem = newp then request_bytes + RPAGESIZE else request_bytes);
               s = s\<lparr>total_page_count := total_page_count s + drop_bit RPAGELOG request_bytes\<rparr>
           in (newp, upd_page newp (\<lambda>p. p\<lparr>pagecount := drop_bit RPAGELOG request_bytes, p_free := True\<rparr>) s))"

text \<open>\<open>n\<close> is an \<open>int\<close>: it is sign-extended where it meets 64-bit operands.\<close>

definition alloc_split :: "u64 \<Rightarrow> u32 \<Rightarrow> u64 \<Rightarrow> 'z pages_state_scheme \<Rightarrow> u64 \<times> 'z pages_state_scheme" where
  "alloc_split split n nxt s =
     (let (split, s) =
        (if pagecount (page_at s split) > scast n then
           let s = upd_page split (\<lambda>p. p\<lparr>pagecount := pagecount p - scast n\<rparr>) s
           in (split + push_bit RPAGELOG (pagecount (page_at s split)), s)
         else (split, s))
      in (split, upd_page split (\<lambda>p. p\<lparr>p_next := nxt, pagecount := scast n, p_free := False,
                                       list_id := my_list s mod MAXLISTS\<rparr>) s))"

definition alloc_new :: "malloc_fun \<Rightarrow> u32 \<Rightarrow> u64 \<Rightarrow> 'z pages_state_scheme \<Rightarrow>
    (u64 \<times> 'z pages_state_scheme) res" where
  "alloc_new malloc n nxt s =
     (let (newp, s) = region_get_mem malloc (push_bit RPAGELOG (scast n)) s
      in if newp = 0 then Inl Aborted
         else Inr (alloc_split newp n nxt (upd_page newp (\<lambda>p. p\<lparr>list_id := my_list s mod MAXLISTS\<rparr>) s)))"

section \<open>The lists\<close>

text \<open>Draw a list at random until its lock is obtained.\<close>

primrec pick_list :: "rand_fun \<Rightarrow> nat \<Rightarrow> 'z pages_state_scheme \<Rightarrow> 'z pages_state_scheme res" where
  "pick_list rand_r 0 s = Inl OutOfFuel"
| "pick_list rand_r (Suc n) s =
     (let (r, seed) = rand_r (myseed s);
          s = s\<lparr>myseed := seed, my_list := r mod MAXLISTS\<rparr>;
          i = unat (my_list s mod MAXLISTS);
          (old, l) = try_lock (lp_lock (single_pages s ! i));
          s = upd_list i (\<lambda>lp. lp\<lparr>lp_lock := l\<rparr>) s
      in if old = 1 then pick_list rand_r n s else Inr s)"

text \<open>One turn of the loop of \<open>add_single_pages\<close>, and the loop for a group of \<open>k + 1\<close> pages.\<close>

definition link_page :: "nat \<Rightarrow> u64 \<Rightarrow> 'z pages_state_scheme \<Rightarrow> 'z pages_state_scheme" where
  "link_page i base s =
     upd_list i (\<lambda>lp. lp\<lparr>pages := base\<rparr>)
       (upd_page base (\<lambda>p. p\<lparr>p_free := False, p_next := pages (single_pages s ! i)\<rparr>) s)"

primrec link_pages :: "nat \<Rightarrow> u64 \<Rightarrow> nat \<Rightarrow> 'z pages_state_scheme \<Rightarrow> 'z pages_state_scheme" where
  "link_pages i base 0 s = link_page i base s"
| "link_pages i base (Suc k) s = link_pages i (base + RPAGESIZE) k (link_page i base s)"

definition add_single_pages :: "u64 \<Rightarrow> 'z pages_state_scheme \<Rightarrow> 'z pages_state_scheme" where
  "add_single_pages base s =
     (if base = 0 then s
      else
        let n = pagecount (page_at s base); index = unat (list_id (page_at s base));
            s = upd_list index (\<lambda>lp. lp\<lparr>page_count := page_count lp + ucast n\<rparr>) s
        in link_pages index base (unat (n - 1)) s)"

definition unlock_list :: "nat \<Rightarrow> 'z pages_state_scheme \<Rightarrow> 'z pages_state_scheme" where
  "unlock_list i s = upd_list i (\<lambda>lp. lp\<lparr>lp_lock := release_spinlock (lp_lock lp)\<rparr>) s"

text \<open>The tail of both allocation functions: take the first page and subtract \<open>n\<close> from the count.\<close>

definition take_first :: "nat \<Rightarrow> u32 \<Rightarrow> u64 \<Rightarrow> 'z pages_state_scheme \<Rightarrow> (u64 \<times> 'z pages_state_scheme) res" where
  "take_first i n nxt s =
     (let p = pages (single_pages s ! i)
      in if p = 0 then Inl NullDeref
         else
           let s = upd_list i (\<lambda>lp. lp\<lparr>pages := p_next (page_at s p)\<rparr>) s;
               s = upd_page p (\<lambda>pg. pg\<lparr>p_next := nxt\<rparr>) s;
               s = upd_list i (\<lambda>lp. lp\<lparr>page_count := page_count lp - n\<rparr>) s
           in Inr (p, unlock_list i s))"

definition alloc_pages :: "rand_fun \<Rightarrow> malloc_fun \<Rightarrow> nat \<Rightarrow> u32 \<Rightarrow> u64 \<Rightarrow> 'z pages_state_scheme \<Rightarrow>
    (u64 \<times> 'z pages_state_scheme) res" where
  "alloc_pages rand_r malloc fuel n nxt s =
     ebind (pick_list rand_r fuel s) (\<lambda>s.
     let i = unat (my_list s mod MAXLISTS) in
     ebind (if n > page_count (single_pages s ! i)
            then alloc_new malloc (ucast (scast n + PAGE_GROUP_SIZE s)) 0 s else Inr (0, s)) (\<lambda>(p, s).
     take_first i n nxt (add_single_pages p s)))"

definition alloc_single_page :: "rand_fun \<Rightarrow> malloc_fun \<Rightarrow> nat \<Rightarrow> u64 \<Rightarrow> 'z pages_state_scheme \<Rightarrow>
    (u64 \<times> 'z pages_state_scheme) res" where
  "alloc_single_page rand_r malloc fuel nxt s =
     ebind (pick_list rand_r fuel s) (\<lambda>s.
     let i = unat (my_list s mod MAXLISTS) in
     ebind (if page_count (single_pages s ! i) = 0
            then alloc_new malloc (ucast (PAGE_GROUP_SIZE s)) 0 s else Inr (0, s)) (\<lambda>(p, s).
     take_first i 1 nxt (add_single_pages p s)))"

text \<open>The tail of both release functions.\<close>

definition put_first :: "u64 \<Rightarrow> u32 \<Rightarrow> 'z pages_state_scheme \<Rightarrow> 'z pages_state_scheme" where
  "put_first p n s =
     (let i = unat (my_list s);
          s = upd_page p (\<lambda>pg. pg\<lparr>p_next := pages (single_pages s ! i)\<rparr>) s
      in unlock_list i (upd_list i (\<lambda>lp. lp\<lparr>pages := p, page_count := page_count lp + n\<rparr>) s))"

definition free_pages :: "rand_fun \<Rightarrow> nat \<Rightarrow> u64 \<Rightarrow> 'z pages_state_scheme \<Rightarrow> 'z pages_state_scheme res" where
  "free_pages rand_r fuel p s =
     ebind (pick_list rand_r fuel s) (\<lambda>s. Inr (put_first p (ucast (pagecount (page_at s p))) s))"

definition free_single_page :: "rand_fun \<Rightarrow> nat \<Rightarrow> u64 \<Rightarrow> 'z pages_state_scheme \<Rightarrow> 'z pages_state_scheme res" where
  "free_single_page rand_r fuel p s =
     ebind (pick_list rand_r fuel s) (\<lambda>s. Inr (put_first p 1 s))"

section \<open>Page arithmetic\<close>

lemma unat_lt2p64: "unat (w :: u64) < 2 ^ 64"
proof -
  have "unat w < 2 ^ LENGTH(64)" by (rule unsigned_less)
  then show ?thesis by simp
qed

lemma RPAGESIZE_eq: "RPAGESIZE = 16384"
  by (simp add: RPAGESIZE_def RPAGELOG_def push_bit_eq_mult)

lemma unat_and_not_mask: "unat ((w :: u64) AND NOT (mask k)) = unat w div 2 ^ k * 2 ^ k"
proof -
  have w: "w = (w AND NOT (mask k)) + take_bit k w"
  proof -
    have "(w AND NOT (mask k)) AND take_bit k w = 0" by (rule bit_word_eqI) (auto simp: bit_simps)
    then have "(w AND NOT (mask k)) + take_bit k w = (w AND NOT (mask k)) OR take_bit k w"
      by (rule disjunctive_add_eq_or)
    also have "\<dots> = w" by (rule bit_word_eqI) (auto simp: bit_simps)
    finally show ?thesis by simp
  qed
  have "unat (take_bit k w) = take_bit k (unat w)" by (rule unsigned_take_bit_eq)
  then have t: "unat (take_bit k w) = unat w mod 2 ^ k" by (simp only: take_bit_eq_mod [of k "unat w"])
  have "w AND NOT (mask k) = w - take_bit k w" using w by (simp add: eq_diff_eq)
  moreover have "take_bit k w \<le> w" by (simp add: word_le_nat_alt t)
  ultimately have "unat (w AND NOT (mask k)) = unat w - unat w mod 2 ^ k" by (simp add: unat_sub t)
  then show ?thesis by (simp add: minus_mod_eq_div_mult)
qed

lemma PALIGN_pow2:
  assumes "unat m + 2 ^ k < 2 ^ 64"
  shows "2 ^ k dvd unat (PALIGN m (2 ^ k))" "unat m \<le> unat (PALIGN m (2 ^ k))"
    "unat (PALIGN m (2 ^ k)) < unat m + 2 ^ k"
proof -
  have "(2 :: nat) ^ k < 2 ^ 64" using assms by linarith
  then have k: "k < 64" by (simp only: power_strict_increasing_iff)
  have mk: "(2 ^ k :: u64) - 1 = mask k" by (simp add: mask_eq_exp_minus_1)
  have lt: "(2 :: nat) ^ k < 2 ^ 64" by fact
  have "(mask k :: u64) = of_nat (2 ^ k - 1)" by (simp add: mask_eq_exp_minus_1)
  then have "unat (mask k :: u64) = (2 ^ k - 1) mod 2 ^ 64"
    by (simp only: unat_of_nat take_bit_eq_mod) simp
  then have um: "unat (mask k :: u64) = 2 ^ k - 1"
    using lt by (subst (asm) mod_less) linarith+
  have "(2 :: nat) ^ k \<ge> 1" by simp
  with um have p: "unat (m + mask k) = unat m + (2 ^ k - 1)" using assms by (simp add: unat_plus_if')
  define a where "a = unat m + (2 ^ k - 1)"
  have e: "unat (PALIGN m (2 ^ k)) = a div 2 ^ k * 2 ^ k"
    unfolding PALIGN_def mk unat_and_not_mask p a_def ..
  have d: "a div 2 ^ k * 2 ^ k + a mod 2 ^ k = a" by (rule div_mult_mod_eq)
  have m: "a mod 2 ^ k < 2 ^ k" by simp
  show "2 ^ k dvd unat (PALIGN m (2 ^ k))" unfolding e by simp
  show "unat m \<le> unat (PALIGN m (2 ^ k))" "unat (PALIGN m (2 ^ k)) < unat m + 2 ^ k"
    unfolding e using d m \<open>(2 :: nat) ^ k \<ge> 1\<close> unfolding a_def by linarith+
qed

lemma PALIGN_page:
  assumes "unat m + 16384 < 2 ^ 64"
  shows "16384 dvd unat (PALIGN m RPAGESIZE)" "unat m \<le> unat (PALIGN m RPAGESIZE)"
    "unat (PALIGN m RPAGESIZE) < unat m + 16384"
proof -
  have "RPAGESIZE = 2 ^ 14" by (simp add: RPAGESIZE_eq)
  then show "16384 dvd unat (PALIGN m RPAGESIZE)" "unat m \<le> unat (PALIGN m RPAGESIZE)"
    "unat (PALIGN m RPAGESIZE) < unat m + 16384"
    using PALIGN_pow2 [of m 14] assms by simp_all
qed

lemma sint_small: "unat (n :: u32) < 2 ^ 31 \<Longrightarrow> sint n = uint n"
proof -
  assume a: "unat n < 2 ^ 31"
  have "uint n = int (unat n)" by simp
  moreover have "int (unat n) < int (2 ^ 31)" using a by (simp only: of_nat_less_iff)
  ultimately have "uint n < 2 ^ 31" by simp
  moreover have "- (2 ^ 31) \<le> uint n" by (rule order_trans [OF _ uint_ge_0]) simp
  ultimately have "signed_take_bit 31 (uint n) = uint n"
    using signed_take_bit_int_eq_self [of 31 "uint n"] by blast
  then show "sint n = uint n" by (simp add: sint_uint)
qed

lemma scast_small: "unat (n :: u32) < 2 ^ 31 \<Longrightarrow> unat (scast n :: u64) = unat n"
proof -
  assume a: "unat n < 2 ^ 31"
  have "(scast n :: u64) = ucast n" by (simp only: scast_eq ucast_eq sint_small [OF a])
  then show "unat (scast n :: u64) = unat n"
    by (simp add: unsigned_ucast_eq take_bit_nat_eq_self less_trans [OF a])
qed

end
