(* ===== verification/Page_Spec.thy ===== *)
theory Page_Spec
  imports Prelude
begin

text \<open>
  The interface of the page allocator: what \<open>src/alloc.c\<close> and \<open>src/regions.c\<close> rely on.
  \<open>inv U s\<close> says that the pages \<open>U\<close> are in use; an allocation hands out a page that is not,
  with the successor the caller asked for, a release gives it back, and neither touches the headers
  of the other pages in use.
\<close>

section \<open>Linked lists\<close>

text \<open>A null-terminated list in the store of next pointers.\<close>

primrec chain :: "(u64 \<Rightarrow> u64) \<Rightarrow> u64 \<Rightarrow> u64 list \<Rightarrow> bool" where
  "chain h x [] \<longleftrightarrow> x = 0"
| "chain h x (a # as) \<longleftrightarrow> x \<noteq> 0 \<and> a = x \<and> chain h (h x) as"

lemma chain_upd [simp]: "a \<notin> set xs \<Longrightarrow> chain (h(a := b)) x xs = chain h x xs"
  by (induction xs arbitrary: x) auto

lemma chain_unique: "chain h x xs \<Longrightarrow> chain h x ys \<Longrightarrow> xs = ys"
proof (induction xs arbitrary: x ys)
  case Nil
  then show ?case by (cases ys) auto
next
  case (Cons a xs)
  then show ?case by (cases ys) auto
qed

lemma chain_cong:
  assumes "\<forall>q \<in> set xs. h' q = h q"
  shows "chain h' x xs = chain h x xs"
  using assms by (induction xs arbitrary: x) auto

section \<open>Clients\<close>

text \<open>A client gets pages and puts back pages it holds.\<close>

inductive pool_run :: "(u64 \<Rightarrow> 's \<Rightarrow> (u64 \<times> 's) res) \<Rightarrow> (u64 \<Rightarrow> 's \<Rightarrow> 's res) \<Rightarrow> ('s \<Rightarrow> bool) \<Rightarrow> 's \<Rightarrow>
    u64 list \<Rightarrow> 's \<Rightarrow> bool" for alloc free room start where
  pool_start: "pool_run alloc free room start [] start"
| pool_get: "pool_run alloc free room start held s \<Longrightarrow> room s \<Longrightarrow> alloc n s = Inr (p, s') \<Longrightarrow>
    pool_run alloc free room start (p # held) s'"
| pool_put: "pool_run alloc free room start held s \<Longrightarrow> p \<in> set held \<Longrightarrow> free p s = Inr s' \<Longrightarrow>
    pool_run alloc free room start (remove1 p held) s'"

text \<open>Giving back a linked list of pages: the successor is read before the page is released.\<close>

primrec free_list :: "(u64 \<Rightarrow> 's \<Rightarrow> 's res) \<Rightarrow> ('s \<Rightarrow> u64 \<Rightarrow> u64) \<Rightarrow> nat \<Rightarrow> u64 \<Rightarrow> 's \<Rightarrow> 's res" where
  "free_list free succ 0 p s = (if p = 0 then Inr s else Inl OutOfFuel)"
| "free_list free succ (Suc n) p s =
     (if p = 0 then Inr s else ebind (free p s) (free_list free succ n (succ s p)))"

locale page_pool =
  fixes inv :: "u64 set \<Rightarrow> 's \<Rightarrow> bool"
    and room :: "'s \<Rightarrow> bool"
    and succ :: "'s \<Rightarrow> u64 \<Rightarrow> u64"
    and alloc :: "u64 \<Rightarrow> 's \<Rightarrow> (u64 \<times> 's) res"
    and free :: "u64 \<Rightarrow> 's \<Rightarrow> 's res"
  assumes alloc_law: "inv U s \<Longrightarrow> room s \<Longrightarrow> alloc n s = Inl Aborted
      \<or> (\<exists>p s'. alloc n s = Inr (p, s') \<and> p \<notin> U \<and> inv (insert p U) s' \<and> succ s' p = n
            \<and> (\<forall>q \<in> U. succ s' q = succ s q))"
    and free_law: "inv U s \<Longrightarrow> p \<in> U \<Longrightarrow>
      \<exists>s'. free p s = Inr s' \<and> inv (U - {p}) s' \<and> (\<forall>q. q \<noteq> p \<longrightarrow> succ s' q = succ s q)"
begin

lemma run_inv:
  assumes "inv {} start" and "pool_run alloc free room start held s"
  shows "distinct held \<and> inv (set held) s"
  using assms(2)
proof (induction rule: pool_run.induct)
  case pool_start
  then show ?case using assms(1) by simp
next
  case (pool_get held s n p s')
  then show ?case using alloc_law [of "set held" s n] by auto
next
  case (pool_put held s p s')
  then have "inv (set held - {p}) s'" using free_law [of "set held" s p] by auto
  moreover have "set (remove1 p held) = set held - {p}" using pool_put.IH by (simp add: set_remove1_eq)
  ultimately show ?case using pool_put.IH by simp
qed

text \<open>The loop releases every page of the list, and its length bounds the turns.\<close>

lemma free_list_ok:
  assumes "inv U s" and "chain (succ s) p xs" and "distinct xs" and "set xs \<subseteq> U" and "length xs \<le> n"
  shows "\<exists>s'. free_list free succ n p s = Inr s' \<and> inv (U - set xs) s' \<and> (\<forall>q. q \<notin> set xs \<longrightarrow> succ s' q = succ s q)"
  using assms
proof (induction n arbitrary: U s p xs)
  case 0
  then show ?case by simp
next
  case (Suc n)
  show ?case
  proof (cases xs)
    case Nil
    then show ?thesis using Suc.prems by simp
  next
    case (Cons a as)
    then have p: "p \<noteq> 0" "a = p" "chain (succ s) (succ s p) as" "p \<in> U" "p \<notin> set as" using Suc.prems by auto
    obtain s1 where s1: "free p s = Inr s1" "inv (U - {p}) s1" "\<forall>q. q \<noteq> p \<longrightarrow> succ s1 q = succ s q"
      using free_law Suc.prems(1) p(4) by blast
    have "\<forall>q \<in> set as. succ s1 q = succ s q" using p(5) s1(3) by auto
    then have "chain (succ s1) (succ s p) as" using p(3) by (metis chain_cong)
    then obtain s' where "free_list free succ n (succ s p) s1 = Inr s'" "inv (U - {p} - set as) s'"
        "\<forall>q. q \<notin> set as \<longrightarrow> succ s' q = succ s1 q"
      using Suc.IH [OF s1(2), of "succ s p" as] Suc.prems Cons p by auto
    moreover have "U - {p} - set as = U - set xs" using Cons p(2) by auto
    ultimately show ?thesis using p(1,2) s1(1,3) Cons by auto
  qed
qed

end

end
