(* ===== verification/Pages_Inv.thy ===== *)
theory Pages_Inv
  imports Pages Page_Spec
begin

text \<open>
  The invariant of the page allocator: sixteen disjoint lists of aligned pages inside the blocks
  that \<open>malloc\<close> returned, with exact counts and free locks.  The single-page operations keep it
  and never hand out a page that is in use.
\<close>

section \<open>The contract of malloc\<close>

text \<open>A block is null or lies inside the address space and apart from the blocks handed out before.\<close>

definition apart :: "u64 \<times> u64 \<Rightarrow> u64 \<times> u64 \<Rightarrow> bool" where
  "apart b c \<longleftrightarrow> unat (fst b) + unat (snd b) \<le> unat (fst c) \<or> unat (fst c) + unat (snd c) \<le> unat (fst b)"

definition malloc_ok :: "malloc_fun \<Rightarrow> bool" where
  "malloc_ok malloc \<longleftrightarrow> (\<forall>log n. malloc log n \<noteq> 0 \<longrightarrow>
     unat (malloc log n) + unat n < 2 ^ 64 \<and> (\<forall>b \<in> set log. apart (malloc log n, n) b))"

text \<open>The pages from \<open>p\<close> on lie in the block.\<close>

definition run_in :: "u64 \<Rightarrow> nat \<Rightarrow> u64 \<times> u64 \<Rightarrow> bool" where
  "run_in p n b \<longleftrightarrow> p \<noteq> 0 \<and> 16384 dvd unat p \<and> unat (fst b) \<le> unat p
     \<and> unat p + n * 16384 \<le> unat (fst b) + unat (snd b) \<and> unat (fst b) + unat (snd b) < 2 ^ 64"

definition no_block :: "'z pages_state_scheme \<Rightarrow> u64 \<times> u64 \<Rightarrow> bool" where
  "no_block s b \<longleftrightarrow> (\<forall>c \<in> set (blocks s). apart b c)"

lemma unat_pages: "a < 2 ^ 50 \<Longrightarrow> unat (of_nat (a * 16384) :: u64) = a * 16384"
  by (simp add: unat_of_nat take_bit_nat_eq_self del: of_nat_mult)

lemma drop_pages: "a < 2 ^ 50 \<Longrightarrow> drop_bit RPAGELOG (of_nat (a * 16384) :: u64) = of_nat a"
proof -
  assume a: "a < 2 ^ 50"
  have "unat (drop_bit RPAGELOG (of_nat (a * 16384) :: u64)) = a"
    unfolding RPAGELOG_def unat_drop_bit_eq unat_pages [OF a] by (simp add: drop_bit_eq_div)
  then show ?thesis by (metis of_nat_unat ucast_id)
qed

lemma group_size:
  assumes "unat (total_page_count s) < 2 ^ 32"
  shows "unat (PAGE_GROUP_SIZE s) \<le> 2 ^ 25" "unat (PAGE_GROUP_SIZE s) \<noteq> 0"
proof -
  have "unat (drop_bit 7 (total_page_count s)) < 2 ^ 25"
    using assms by (simp add: unat_drop_bit_eq) (simp add: drop_bit_eq_div div_less_iff_less_mult)
  then have "unat (PAGE_GROUP_SIZE s) = Suc (unat (drop_bit 7 (total_page_count s)))"
    by (simp add: PAGE_GROUP_SIZE_def unat_word_ariths(1))
  then show "unat (PAGE_GROUP_SIZE s) \<le> 2 ^ 25" "unat (PAGE_GROUP_SIZE s) \<noteq> 0"
    using \<open>unat (drop_bit 7 (total_page_count s)) < 2 ^ 25\<close> by simp_all
qed

lemma request_pages:
  assumes "unat n < 2 ^ 27" and "unat (total_page_count s) < 2 ^ 32"
  shows "\<exists>R. (if push_bit RPAGELOG (scast n) + K * RPAGESIZE < MINIMUM_MEM_REQUEST s
        then MINIMUM_MEM_REQUEST s else push_bit RPAGELOG (scast (n :: u32))) = of_nat (R * 16384)
      \<and> unat n \<le> R \<and> R < 2 ^ 28 \<and> (unat n + 4 < 4 * unat (PAGE_GROUP_SIZE s) \<longrightarrow> 4 * unat (PAGE_GROUP_SIZE s) \<le> R)"
proof -
  let ?g = "unat (PAGE_GROUP_SIZE s)"
  note g = group_size(1) [OF assms(2)]
  have m: "MINIMUM_MEM_REQUEST s = of_nat (4 * ?g * 16384)"
    by (simp add: MINIMUM_MEM_REQUEST_def K_def RPAGESIZE_eq)
  have n: "push_bit RPAGELOG (scast n :: u64) = of_nat (unat n * 16384)"
  proof -
    have "unat (scast n :: u64) = unat n" using assms(1) by (intro scast_small) simp
    moreover have "(scast n :: u64) = of_nat (unat (scast n :: u64))" by simp
    ultimately have "(scast n :: u64) = of_nat (unat n)" by simp
    then show ?thesis by (simp add: RPAGELOG_def push_bit_eq_mult)
  qed
  have u: "unat (of_nat (a * 16384) :: u64) = a * 16384" if "a < 2 ^ 29" for a
    using that by (intro unat_pages) simp
  have e: "push_bit RPAGELOG (scast n) + K * RPAGESIZE = of_nat ((unat n + 4) * 16384)"
    unfolding n by (simp add: K_def RPAGESIZE_eq)
  have lt: "push_bit RPAGELOG (scast n) + K * RPAGESIZE < MINIMUM_MEM_REQUEST s \<longleftrightarrow> unat n + 4 < 4 * ?g"
    unfolding e m word_less_nat_alt using assms(1) g by (subst (1 2) u) auto
  show ?thesis
  proof (cases "unat n + 4 < 4 * ?g")
    case True
    then show ?thesis using lt m g by (intro exI [of _ "4 * ?g"]) simp
  next
    case False
    then show ?thesis using lt n assms(1) by (intro exI [of _ "unat n"]) simp
  qed
qed


lemma region_get_mem_spec:
  assumes ok: "malloc_ok malloc" and n: "unat n < 2 ^ 27" "0 < unat n"
    and tot: "unat (total_page_count s) < 2 ^ 32"
    and get: "region_get_mem malloc (push_bit RPAGELOG (scast (n :: u32))) s = (p, s')" and p: "p \<noteq> 0"
  shows "\<exists>R b. unat n \<le> R \<and> R < 2 ^ 29 \<and> run_in p R b \<and> no_block s b
    \<and> malloc (blocks s) (snd b) \<noteq> 0
    \<and> (unat n + 4 < 4 * unat (PAGE_GROUP_SIZE s) \<longrightarrow> 4 * unat (PAGE_GROUP_SIZE s) \<le> R)
    \<and> s' = upd_page p (\<lambda>q. q\<lparr>pagecount := of_nat R, p_free := True\<rparr>)
        (s\<lparr>blocks := b # blocks s, total_page_count := total_page_count s + of_nat R\<rparr>)"
proof -
  obtain R where R: "(if push_bit RPAGELOG (scast n) + K * RPAGESIZE < MINIMUM_MEM_REQUEST s
        then MINIMUM_MEM_REQUEST s else push_bit RPAGELOG (scast n)) = of_nat (R * 16384)"
      "unat n \<le> R" "R < 2 ^ 28" "(unat n + 4 < 4 * unat (PAGE_GROUP_SIZE s) \<longrightarrow> 4 * unat (PAGE_GROUP_SIZE s) \<le> R)"
    using request_pages [OF n(1) tot] by blast
  define len where "len = of_nat (R * 16384) + RPAGESIZE"
  define m where "m = malloc (blocks s) len"
  define al where "al = PALIGN m RPAGESIZE"
  define R' where "R' = (if m = al then R + 1 else R)"
  have len: "unat len = (R + 1) * 16384"
    using R(3) unat_pages [of R] by (simp add: len_def RPAGESIZE_eq unat_word_ariths(1) del: of_nat_mult)
  have m0: "m \<noteq> 0" using get p R(1) by (auto simp: region_get_mem_def Let_def m_def len_def split: if_splits)
  have b: "unat m + unat len < 2 ^ 64" "no_block s (m, len)"
    using ok m0 by (auto simp: malloc_ok_def no_block_def m_def)
  have al: "16384 dvd unat al" "unat m \<le> unat al" "unat al < unat m + 16384"
    using PALIGN_page [of m] b(1) len unfolding al_def by auto
  have req: "(if m = al then len else of_nat (R * 16384)) = of_nat (R' * 16384)"
    by (simp add: RPAGESIZE_eq len_def R'_def)
  have d: "drop_bit RPAGELOG (of_nat (R' * 16384) :: u64) = of_nat R'"
    using R(3) by (intro drop_pages) (simp add: R'_def)
  have "p = al \<and> s' = upd_page al (\<lambda>q. q\<lparr>pagecount := of_nat R', p_free := True\<rparr>)
        (s\<lparr>blocks := (m, len) # blocks s, total_page_count := total_page_count s + of_nat R'\<rparr>)"
    using get m0 unfolding region_get_mem_def R(1) Let_def m_def [symmetric] len_def [symmetric]
      al_def [symmetric] req d by auto
  moreover have "al \<noteq> 0"
  proof
    assume "al = 0"
    then show False using al(2) m0 by (simp add: unat_eq_zero)
  qed
  then have "run_in al R' (m, len)"
    using al b(1) len by (simp add: run_in_def R'_def)
  moreover have "unat n \<le> R'" "R' < 2 ^ 29"
      "unat n + 4 < 4 * unat (PAGE_GROUP_SIZE s) \<longrightarrow> 4 * unat (PAGE_GROUP_SIZE s) \<le> R'"
    using R(2,3,4) by (auto simp: R'_def)
  moreover have "malloc (blocks s) (snd (m, len)) \<noteq> 0" using m0 by (simp add: m_def)
  ultimately show ?thesis using b(2) by blast
qed


definition same_lists :: "'z pages_state_scheme \<Rightarrow> 'z pages_state_scheme \<Rightarrow> bool" where
  "same_lists s s' \<longleftrightarrow> single_pages s' = single_pages s \<and> my_list s' = my_list s"

lemma run_in_part:
  assumes "run_in p R b" and "k + n \<le> R" and "0 < n"
  shows "run_in (p + of_nat (k * 16384)) n b" "unat (p + of_nat (k * 16384)) = unat p + k * 16384"
proof -
  have lt: "unat p + R * 16384 < 2 ^ 64" using assms(1) by (simp add: run_in_def)
  have "k * 16384 < R * 16384" using assms(2,3) by simp
  with lt have "k * 16384 < 2 ^ 64" by linarith
  then have "unat (of_nat (k * 16384) :: u64) = k * 16384" by (intro unat_pages) simp
  moreover have "unat p + k * 16384 < 2 ^ 64" using lt \<open>k * 16384 < R * 16384\<close> by linarith
  ultimately show u: "unat (p + of_nat (k * 16384)) = unat p + k * 16384"
    by (simp add: unat_plus_if' del: of_nat_mult)
  have "(k + n) * 16384 \<le> R * 16384" using assms(2) by (rule mult_le_mono1)
  then have "unat p + k * 16384 + n * 16384 \<le> unat p + R * 16384" by (simp add: algebra_simps)
  moreover have "p + of_nat (k * 16384) \<noteq> 0"
  proof
    assume "p + of_nat (k * 16384) = 0"
    then have "unat p = 0" using u by simp
    then show False using assms(1) by (simp add: run_in_def unat_eq_zero)
  qed
  ultimately show "run_in (p + of_nat (k * 16384)) n b"
    using assms(1) unfolding run_in_def u by auto
qed

lemma alloc_new_spec:
  assumes ok: "malloc_ok malloc" and n: "unat n < 2 ^ 27" "0 < unat n"
    and tot: "unat (total_page_count s) < 2 ^ 32"
  shows "alloc_new malloc n nxt s = Inl Aborted \<or> (\<exists>p s' R b. alloc_new malloc n nxt s = Inr (p, s')
    \<and> (unat n + 4 < 4 * unat (PAGE_GROUP_SIZE s) \<longrightarrow> 4 * unat (PAGE_GROUP_SIZE s) \<le> R)
    \<and> unat n \<le> R \<and> R < 2 ^ 29 \<and> run_in p (unat n) b \<and> no_block s b \<and> blocks s' = b # blocks s
    \<and> malloc (blocks s) (snd b) \<noteq> 0 \<and> R * 16384 \<le> unat (snd b)
    \<and> total_page_count s' = total_page_count s + of_nat R \<and> same_lists s s'
    \<and> unat (pagecount (page_at s' p)) = unat n \<and> list_id (page_at s' p) = my_list s mod MAXLISTS
    \<and> (\<forall>q. p_next (page_at s' q) = (if q = p then nxt else p_next (page_at s q))))"
proof -
  obtain p s1 where g: "region_get_mem malloc (push_bit RPAGELOG (scast n)) s = (p, s1)" by (metis surj_pair)
  show ?thesis
  proof (cases "p = 0")
    case True
    then show ?thesis using g by (simp add: alloc_new_def)
  next
    case False
    obtain R b where R: "unat n \<le> R" "R < 2 ^ 29" "run_in p R b" "no_block s b"
        "malloc (blocks s) (snd b) \<noteq> 0" "(unat n + 4 < 4 * unat (PAGE_GROUP_SIZE s) \<longrightarrow> 4 * unat (PAGE_GROUP_SIZE s) \<le> R)"
      and s1: "s1 = upd_page p (\<lambda>q. q\<lparr>pagecount := of_nat R, p_free := True\<rparr>)
        (s\<lparr>blocks := b # blocks s, total_page_count := total_page_count s + of_nat R\<rparr>)"
      using region_get_mem_spec [OF ok n tot g False] by blast
    have sc: "unat (scast n :: u64) = unat n" using n(1) by (intro scast_small) simp
    have uR: "unat (of_nat R :: u64) = R" using R(2) by (simp add: unat_of_nat take_bit_nat_eq_self)
    have "\<exists>q s'. alloc_new malloc n nxt s = Inr (q, s') \<and> run_in q (unat n) b \<and> blocks s' = b # blocks s
        \<and> total_page_count s' = total_page_count s + of_nat R \<and> same_lists s s'
        \<and> unat (pagecount (page_at s' q)) = unat n \<and> list_id (page_at s' q) = my_list s mod MAXLISTS
        \<and> (\<forall>r. p_next (page_at s' r) = (if r = q then nxt else p_next (page_at s r)))"
    proof (cases "unat n < R")
      case True
      have e: "of_nat R - scast n = (of_nat (R - unat n) :: u64)"
        using R(1) sc by (metis of_nat_diff of_nat_unat ucast_id)
      have f: "push_bit RPAGELOG (of_nat (R - unat n) :: u64) = of_nat ((R - unat n) * 16384)"
        by (simp add: RPAGELOG_def push_bit_eq_mult)
      have lt: "scast n < (of_nat R :: u64)" using True by (simp add: word_less_nat_alt sc uR)
      let ?q = "p + of_nat ((R - unat n) * 16384)"
      have q: "run_in ?q (unat n) b" "unat ?q = unat p + (R - unat n) * 16384"
        using run_in_part [OF R(3), of "R - unat n" "unat n"] R(1) n(2) by auto
      have "?q \<noteq> p" using q(2) True by auto
      have "alloc_new malloc n nxt s = Inr (?q, upd_page ?q (\<lambda>p. p\<lparr>p_next := nxt, pagecount := scast n,
            p_free := False, list_id := my_list s mod MAXLISTS\<rparr>)
          (upd_page p (\<lambda>p. p\<lparr>pagecount := pagecount p - scast n\<rparr>)
            (upd_page p (\<lambda>p. p\<lparr>list_id := my_list s mod MAXLISTS\<rparr>) s1)))"
        using g False lt f unfolding alloc_new_def s1 by (simp add: alloc_split_def upd_page_def e del: of_nat_mult)
      then show ?thesis using q(1) sc s1 by (auto simp: upd_page_def same_lists_def)
    next
      case nlt: False
      then have "R = unat n" using R(1) by simp
      moreover have "\<not> scast n < (of_nat R :: u64)" using nlt by (simp add: word_less_nat_alt sc uR)
      ultimately have "alloc_new malloc n nxt s = Inr (p, upd_page p (\<lambda>p. p\<lparr>p_next := nxt, pagecount := scast n,
            p_free := False, list_id := my_list s mod MAXLISTS\<rparr>)
            (upd_page p (\<lambda>p. p\<lparr>list_id := my_list s mod MAXLISTS\<rparr>) s1))"
        using g False unfolding alloc_new_def s1 by (simp add: alloc_split_def upd_page_def)
      then show ?thesis using R(3) \<open>R = unat n\<close> sc s1 by (auto simp: upd_page_def same_lists_def)
    qed
    moreover have "R * 16384 \<le> unat (snd b)" using R(3) by (simp add: run_in_def)
    ultimately show ?thesis using R(1,2,4,5,6) by blast
  qed
qed

section \<open>Runs of pages\<close>

primrec run :: "u64 \<Rightarrow> nat \<Rightarrow> u64 list" where
  "run base 0 = []"
| "run base (Suc n) = base # run (base + RPAGESIZE) n"

lemma run_in_Suc: "run_in p (Suc (Suc n)) b \<Longrightarrow> run_in (p + RPAGESIZE) (Suc n) b"
  using run_in_part(1) [of p "Suc (Suc n)" b 1 "Suc n"] by (simp add: RPAGESIZE_eq)

lemma run_pages:
  assumes "run_in p n b" and "q \<in> set (run p n)"
  shows "run_in q 1 b \<and> unat p \<le> unat q"
  using assms
proof (induction n arbitrary: p)
  case (Suc n)
  show ?case
  proof (cases "q = p")
    case True
    then show ?thesis using Suc.prems(1) by (auto simp: run_in_def)
  next
    case False
    then have q: "q \<in> set (run (p + RPAGESIZE) n)" using Suc.prems(2) by simp
    then obtain m where m: "n = Suc m" by (cases n) auto
    then have r: "run_in (p + RPAGESIZE) n b" using run_in_Suc Suc.prems(1) by simp
    have "unat p \<le> unat (p + RPAGESIZE)"
      using run_in_part(2) [OF Suc.prems(1), of 1 n] m by (simp add: RPAGESIZE_eq)
    then show ?thesis using Suc.IH [OF r q] by linarith
  qed
qed simp

lemma run_distinct: "run_in p n b \<Longrightarrow> distinct (run p n)"
proof (induction n arbitrary: p)
  case (Suc n)
  show ?case
  proof (cases n)
    case (Suc m)
    then have r: "run_in (p + RPAGESIZE) n b" using run_in_Suc Suc.prems by simp
    have "unat (p + RPAGESIZE) = unat p + 16384"
      using run_in_part(2) [OF Suc.prems, of 1 n] Suc by (simp add: RPAGESIZE_eq)
    then have "p \<notin> set (run (p + RPAGESIZE) n)" using run_pages [OF r, of p] by auto
    then show ?thesis using Suc.IH [OF r] by simp
  qed simp
qed simp

lemma length_run [simp]: "length (run p n) = n"
  by (induction n arbitrary: p) auto

text \<open>A page of a new block is none of the pages of the old ones.\<close>

lemma fresh_page:
  assumes "no_block s b" and "run_in p 1 b" and "c \<in> set (blocks s)" and "run_in q 1 c"
  shows "p \<noteq> q"
  using assms by (auto simp: no_block_def apart_def run_in_def)

section \<open>The invariant\<close>

definition nxt :: "'z pages_state_scheme \<Rightarrow> u64 \<Rightarrow> u64" where
  "nxt s q = p_next (page_at s q)"

definition page_ok :: "'z pages_state_scheme \<Rightarrow> u64 \<Rightarrow> bool" where
  "page_ok s p \<longleftrightarrow> (\<exists>b \<in> set (blocks s). run_in p 1 b)"

definition list_ok :: "'z pages_state_scheme \<Rightarrow> nat \<Rightarrow> u64 list \<Rightarrow> bool" where
  "list_ok s i xs \<longleftrightarrow> chain (nxt s) (pages (single_pages s ! i)) xs
     \<and> page_count (single_pages s ! i) = of_nat (length xs)"

text \<open>\<open>h\<close> is the list whose lock is held, \<open>U\<close> the pages in use.\<close>

definition lists_inv :: "nat option \<Rightarrow> u64 set \<Rightarrow> u64 list list \<Rightarrow> 'z pages_state_scheme \<Rightarrow> bool" where
  "lists_inv h U L s \<longleftrightarrow>
     length (single_pages s) = 16 \<and> length L = 16
     \<and> (\<forall>i < 16. list_ok s i (L ! i) \<and> lp_lock (single_pages s ! i) = (if h = Some i then 1 else 0))
     \<and> distinct (concat L) \<and> set (concat L) \<inter> U = {} \<and> finite U
     \<and> (\<forall>p \<in> set (concat L) \<union> U. page_ok s p)
     \<and> card U + length (concat L) \<le> unat (total_page_count s)"

definition pages_inv :: "u64 set \<Rightarrow> 'z pages_state_scheme \<Rightarrow> bool" where
  "pages_inv U s \<longleftrightarrow> (\<exists>L. lists_inv None U L s)"

text \<open>Facts about one list inside the concatenation of all.\<close>

lemma concat_update:
  assumes "i < length L"
  shows "set (concat L) = set (L ! i) \<union> set (concat (L[i := []]))"
    "distinct (concat L) \<longleftrightarrow> distinct (L ! i) \<and> distinct (concat (L[i := []])) \<and> set (L ! i) \<inter> set (concat (L[i := []])) = {}"
    "length (concat L) = length (L ! i) + length (concat (L[i := []]))"
proof -
  have L: "L = take i L @ L ! i # drop (Suc i) L" using assms by (rule id_take_nth_drop)
  have U: "L[i := []] = take i L @ [] # drop (Suc i) L" using assms by (simp add: upd_conv_take_nth_drop)
  show "set (concat L) = set (L ! i) \<union> set (concat (L[i := []]))"
    unfolding U by (subst L) auto
  show "length (concat L) = length (L ! i) + length (concat (L[i := []]))"
    unfolding U by (subst L) simp
  show "distinct (concat L) \<longleftrightarrow> distinct (L ! i) \<and> distinct (concat (L[i := []])) \<and> set (L ! i) \<inter> set (concat (L[i := []])) = {}"
    unfolding U by (subst L) (auto simp del: set_concat)
qed

section \<open>The parts of the operations\<close>

lemma upd_simps [simp]:
  "page_at (upd_list i f s) = page_at s" "blocks (upd_list i f s) = blocks s"
  "total_page_count (upd_list i f s) = total_page_count s" "my_list (upd_list i f s) = my_list s"
  "single_pages (upd_page p g s) = single_pages s" "blocks (upd_page p g s) = blocks s"
  "total_page_count (upd_page p g s) = total_page_count s" "my_list (upd_page p g s) = my_list s"
  "length (single_pages (upd_list i f s)) = length (single_pages s)"
  "j < length (single_pages s) \<Longrightarrow> single_pages (upd_list i f s) ! j =
     (if j = i then f (single_pages s ! j) else single_pages s ! j)"
  "nxt (upd_list i f s) = nxt s" "nxt (s\<lparr>myseed := sd, my_list := l\<rparr>) = nxt s"
  by (auto simp: upd_list_def upd_page_def nxt_def fun_eq_iff)

lemma nxt_upd_page: "nxt (upd_page p f s) = (nxt s)(p := p_next (f (page_at s p)))"
  by (auto simp: nxt_def upd_page_def)

lemma pick_list_ok:
  assumes "lists_inv None U L s"
  shows "\<exists>s' i. pick_list rand_r (Suc fuel) s = Inr s' \<and> i < 16 \<and> my_list s' = of_nat i
    \<and> lists_inv (Some i) U L s' \<and> page_at s' = page_at s \<and> blocks s' = blocks s
    \<and> total_page_count s' = total_page_count s"
proof -
  obtain r sd where r: "rand_r (myseed s) = (r, sd)" by (metis surj_pair)
  define i where "i = unat (r mod MAXLISTS)"
  have i: "i < 16" by (simp add: i_def MAXLISTS_def unat_mod_distrib)
  have i': "r mod MAXLISTS = of_nat i" unfolding i_def by simp
  have i'': "unat (r mod MAXLISTS mod MAXLISTS) = i" by (simp add: i_def unat_mod_distrib)
  have inv: "length (single_pages s) = 16" "lp_lock (single_pages s ! i) = 0" using assms i by (auto simp: lists_inv_def)
  let ?s = "upd_list i (\<lambda>lp. lp\<lparr>lp_lock := 1\<rparr>) (s\<lparr>myseed := sd, my_list := r mod MAXLISTS\<rparr>)"
  have "pick_list rand_r (Suc fuel) s = Inr ?s"
    using inv by (simp add: r Let_def i'' try_lock_def v_atomic_test_and_set_def)
  moreover have "lists_inv (Some i) U L ?s"
    using assms i inv by (auto simp: lists_inv_def list_ok_def page_ok_def)
  ultimately show ?thesis using i i' by (intro exI [of _ ?s] exI [of _ i]) auto
qed

lemma list_ok_frame:
  assumes "list_ok s i xs" and "\<And>q. q \<in> set xs \<Longrightarrow> nxt s' q = nxt s q"
    and "pages (single_pages s' ! i) = pages (single_pages s ! i)"
    and "page_count (single_pages s' ! i) = page_count (single_pages s ! i)"
  shows "list_ok s' i xs"
  using assms chain_cong [of xs "nxt s'" "nxt s"] by (simp add: list_ok_def)

lemma lists_inv_others:
  assumes "lists_inv h U L s" and "i < 16"
  shows "set (L ! i) \<inter> set (concat (L[i := []])) = {}" "distinct (L ! i)" "distinct (concat (L[i := []]))"
    "set (concat L) = set (L ! i) \<union> set (concat (L[i := []]))"
    "length (concat L) = length (L ! i) + length (concat (L[i := []]))"
    "j < 16 \<Longrightarrow> j \<noteq> i \<Longrightarrow> set (L ! j) \<subseteq> set (concat (L[i := []]))"
proof -
  have l: "length L = 16" using assms(1) by (simp add: lists_inv_def)
  then have "i < length L" using assms(2) by simp
  note c = concat_update [OF this]
  show "set (L ! i) \<inter> set (concat (L[i := []])) = {}" "distinct (L ! i)" "distinct (concat (L[i := []]))"
    using assms(1) c(2) by (auto simp: lists_inv_def simp del: set_concat)
  show "set (concat L) = set (L ! i) \<union> set (concat (L[i := []]))"
    "length (concat L) = length (L ! i) + length (concat (L[i := []]))" by (fact c(1), fact c(3))
  show "set (L ! j) \<subseteq> set (concat (L[i := []]))" if "j < 16" "j \<noteq> i"
  proof -
    have "L[i := []] ! j = L ! j" "j < length (L[i := []])" using that l by auto
    then have "L ! j \<in> set (L[i := []])" by (metis nth_mem)
    then show ?thesis by auto
  qed
qed

text \<open>Replacing the list whose lock is held.\<close>

lemma lists_inv_replace:
  assumes inv: "lists_inv (Some i) U L s" and i: "i < 16"
    and len: "length (single_pages s') = 16"
    and same: "\<And>j. j < 16 \<Longrightarrow> j \<noteq> i \<Longrightarrow> single_pages s' ! j = single_pages s ! j"
    and nx: "\<And>q. q \<in> set (concat (L[i := []])) \<Longrightarrow> nxt s' q = nxt s q"
    and new: "list_ok s' i xs" "distinct xs" "set xs \<inter> set (concat (L[i := []])) = {}"
      "set xs \<inter> U' = {}" "set (concat (L[i := []])) \<inter> U' = {}" "finite U'"
      "lp_lock (single_pages s' ! i) = (if h = Some i then 1 else 0)" "h = None \<or> h = Some i"
    and ok: "set (blocks s) \<subseteq> set (blocks s')" "\<And>p. p \<in> set xs \<union> U' \<Longrightarrow> page_ok s' p"
    and size: "card U' + length xs + length (concat (L[i := []])) \<le> unat (total_page_count s')"
  shows "lists_inv h U' (L[i := xs]) s'"
proof -
  note o = lists_inv_others [OF inv i]
  have l: "length L = 16" using inv by (simp add: lists_inv_def)
  have "i < length (L[i := xs])" using l i by simp
  note c = concat_update [OF this]
  have xs: "L[i := xs] ! i = xs" "(L[i := xs])[i := []] = L[i := []]" using l i by auto
  have "list_ok s' j (L[i := xs] ! j) \<and> lp_lock (single_pages s' ! j) = (if h = Some j then 1 else 0)" if "j < 16" for j
  proof (cases "j = i")
    case True
    then show ?thesis using new(1,7) xs by auto
  next
    case False
    have "list_ok s j (L ! j)" "lp_lock (single_pages s ! j) = 0" using inv that False by (auto simp: lists_inv_def)
    moreover have "list_ok s' j (L ! j)"
      by (rule list_ok_frame [OF \<open>list_ok s j (L ! j)\<close>]) (use nx subsetD [OF o(6) [OF that False]] same [OF that False] in \<open>simp_all del: set_concat\<close>)
    ultimately show ?thesis using False same [OF that False] new(8) by auto
  qed
  moreover have "page_ok s' p" if "p \<in> set (concat (L[i := []]))" for p
    using inv that o(4) ok(1) unfolding lists_inv_def page_ok_def by blast
  ultimately show ?thesis
    using len l new o(3) c ok(2) size unfolding lists_inv_def xs by (auto simp del: set_concat concat.simps)
qed


section \<open>Refilling, taking and putting\<close>

lemma link_page_spec:
  assumes "i < length (single_pages s)" and "base \<notin> set xs" and "base \<noteq> 0"
    and "chain (nxt s) (pages (single_pages s ! i)) xs"
  shows "pages (single_pages (link_page i base s) ! i) = base"
    "chain (nxt (link_page i base s)) base (base # xs)"
    "q \<noteq> base \<Longrightarrow> nxt (link_page i base s) q = nxt s q"
    "j < length (single_pages s) \<Longrightarrow> j \<noteq> i \<Longrightarrow> single_pages (link_page i base s) ! j = single_pages s ! j"
    "page_count (single_pages (link_page i base s) ! i) = page_count (single_pages s ! i)"
    "lp_lock (single_pages (link_page i base s) ! i) = lp_lock (single_pages s ! i)"
    "length (single_pages (link_page i base s)) = length (single_pages s)"
    "blocks (link_page i base s) = blocks s"
    "total_page_count (link_page i base s) = total_page_count s"
  using assms by (simp_all add: link_page_def nxt_upd_page)

lemma link_pages_spec:
  assumes "i < length (single_pages s)" and "distinct (run base (Suc k))" and "0 \<notin> set (run base (Suc k))"
    and "set (run base (Suc k)) \<inter> set xs = {}" and "chain (nxt s) (pages (single_pages s ! i)) xs"
  shows "chain (nxt (link_pages i base k s)) (pages (single_pages (link_pages i base k s) ! i))
      (rev (run base (Suc k)) @ xs)
    \<and> (\<forall>q. q \<notin> set (run base (Suc k)) \<longrightarrow> nxt (link_pages i base k s) q = nxt s q)
    \<and> (\<forall>j < length (single_pages s). j \<noteq> i \<longrightarrow> single_pages (link_pages i base k s) ! j = single_pages s ! j)
    \<and> page_count (single_pages (link_pages i base k s) ! i) = page_count (single_pages s ! i)
    \<and> lp_lock (single_pages (link_pages i base k s) ! i) = lp_lock (single_pages s ! i)
    \<and> length (single_pages (link_pages i base k s)) = length (single_pages s)
    \<and> blocks (link_pages i base k s) = blocks s
    \<and> total_page_count (link_pages i base k s) = total_page_count s"
  using assms
proof (induction k arbitrary: base s xs)
  case 0
  show ?case using link_page_spec [of i s base xs] 0 by simp
next
  case (Suc k)
  note l = link_page_spec [of i s base xs]
  have "set (run (base + RPAGESIZE) (Suc k)) \<inter> set (base # xs) = {}" using Suc.prems by auto
  then show ?case
    using Suc.IH [of "link_page i base s" "base + RPAGESIZE" "base # xs"] Suc.prems l by auto
qed

text \<open>A page that heads its list: it is handed out.\<close>

lemma take_first_ok:
  assumes inv: "lists_inv (Some i) U L s" and i: "i < 16" and L: "L ! i = p # xs"
  shows "\<exists>s'. take_first i 1 n s = Inr (p, s') \<and> lists_inv None (insert p U) (L[i := xs]) s'
    \<and> nxt s' p = n \<and> (\<forall>r. r \<noteq> p \<longrightarrow> nxt s' r = nxt s r)"
proof -
  have len: "length (single_pages s) = 16" and lo: "list_ok s i (p # xs)"
    using inv i L by (auto simp: lists_inv_def)
  note o = lists_inv_others [OF inv i, unfolded L]
  have p: "pages (single_pages s ! i) = p" "p \<noteq> 0" "chain (nxt s) (nxt s p) xs" "p \<notin> set xs" "distinct xs"
    using lo o(2) by (auto simp: list_ok_def)
  let ?s = "unlock_list i (upd_list i (\<lambda>lp. lp\<lparr>page_count := page_count lp - 1\<rparr>)
      (upd_page p (\<lambda>pg. pg\<lparr>p_next := n\<rparr>) (upd_list i (\<lambda>lp. lp\<lparr>pages := p_next (page_at s p)\<rparr>) s)))"
  have t: "take_first i 1 n s = Inr (p, ?s)" using p(1,2) by (simp add: take_first_def Let_def)
  have U: "p \<notin> U" "set xs \<inter> U = {}" "set (concat (L[i := []])) \<inter> U = {}" "finite U"
    using inv o(4) by (auto simp: lists_inv_def simp del: set_concat)
  have "lists_inv None (insert p U) (L[i := xs]) ?s"
  proof (rule lists_inv_replace [OF inv i])
    show "length (single_pages ?s) = 16" using len by (simp add: unlock_list_def)
    show "single_pages ?s ! j = single_pages s ! j" if "j < 16" "j \<noteq> i" for j
      using that len by (simp add: unlock_list_def)
    show "nxt ?s q = nxt s q" if "q \<in> set (concat (L[i := []]))" for q
      using that o(1) by (auto simp: unlock_list_def nxt_upd_page simp del: set_concat)
    show "list_ok ?s i xs"
      using lo p len i by (simp add: list_ok_def unlock_list_def nxt_upd_page nxt_def)
    show "lp_lock (single_pages ?s ! i) = (if None = Some i then 1 else 0)"
      using len i by (simp add: unlock_list_def release_spinlock_def UNLOCKED_def)
    show "card (insert p U) + length xs + length (concat (L[i := []])) \<le> unat (total_page_count ?s)"
      using inv U o(5) by (simp add: lists_inv_def unlock_list_def)
    show "page_ok ?s q" if "q \<in> set xs \<union> insert p U" for q
      using inv that o(4) unfolding lists_inv_def page_ok_def by (auto simp: unlock_list_def simp del: set_concat)
  qed (use o p U in \<open>auto simp: unlock_list_def simp del: set_concat\<close>)
  then show ?thesis using t by (intro exI [of _ ?s]) (simp add: unlock_list_def nxt_upd_page)
qed

lemma put_first_ok:
  assumes inv: "lists_inv (Some i) U L s" and i: "i < 16" "my_list s = of_nat i" and p: "p \<in> U"
  shows "lists_inv None (U - {p}) (L[i := p # L ! i]) (put_first p 1 s)"
proof -
  have len: "length (single_pages s) = 16" and lo: "list_ok s i (L ! i)"
    using inv i by (auto simp: lists_inv_def)
  note o = lists_inv_others [OF inv i(1)]
  have ui: "unat (my_list s) = i" using i by (simp add: unat_of_nat take_bit_nat_eq_self)
  have U: "set (L ! i) \<inter> U = {}" "set (concat (L[i := []])) \<inter> U = {}" "finite U"
    and pok: "\<forall>q \<in> set (L ! i) \<union> U. page_ok s q"
    using inv o(4) by (auto simp: lists_inv_def simp del: set_concat)
  have pn: "p \<notin> set (L ! i)" using U(1) p by auto
  have p0: "p \<noteq> 0" using pok p by (auto simp: page_ok_def run_in_def)
  let ?s = "put_first p 1 s"
  show ?thesis
  proof (rule lists_inv_replace [OF inv i(1)])
    show "length (single_pages ?s) = 16" using len by (simp add: put_first_def unlock_list_def Let_def)
    show "single_pages ?s ! j = single_pages s ! j" if "j < 16" "j \<noteq> i" for j
      using that len ui by (simp add: put_first_def unlock_list_def Let_def)
    show "nxt ?s q = nxt s q" if "q \<in> set (concat (L[i := []]))" for q
      using that U p by (auto simp: put_first_def Let_def unlock_list_def nxt_upd_page simp del: set_concat)
    show "list_ok ?s i (p # L ! i)"
      using lo p0 pn len i ui by (simp add: list_ok_def put_first_def Let_def unlock_list_def nxt_upd_page)
    show "lp_lock (single_pages ?s ! i) = (if None = Some i then 1 else 0)"
      using len i ui by (simp add: put_first_def Let_def unlock_list_def release_spinlock_def UNLOCKED_def)
    show "card (U - {p}) + length (p # L ! i) + length (concat (L[i := []])) \<le> unat (total_page_count ?s)"
      using inv U p o(5) card_Suc_Diff1 [of U p]
      by (simp add: lists_inv_def put_first_def Let_def unlock_list_def)
    show "page_ok ?s q" if "q \<in> set (p # L ! i) \<union> (U - {p})" for q
      using pok that p by (auto simp: page_ok_def put_first_def Let_def unlock_list_def)
    show "distinct (p # L ! i)" using o(2) U(1) p by auto
  qed (use o p U in \<open>auto simp: put_first_def Let_def unlock_list_def simp del: set_concat\<close>)
qed

lemma lists_inv_length:
  assumes "lists_inv h U L s" and "i < 16"
  shows "length (L ! i) \<le> unat (total_page_count s)"
  using assms lists_inv_others(5) [OF assms] by (simp add: lists_inv_def)

text \<open>A list that ran dry is refilled with the pages of a new block, last page first.\<close>

lemma refill_ok:
  assumes inv: "lists_inv (Some i) U L s" and i: "i < 16" "my_list s = of_nat i" and L: "L ! i = []"
    and ok: "malloc_ok malloc" and n: "unat (n :: u32) < 2 ^ 27" "0 < unat n"
    and tot: "unat (total_page_count s) < 2 ^ 32"
    and new: "alloc_new malloc n 0 s = Inr (p, s1)"
  shows "lists_inv (Some i) U (L[i := rev (run p (unat n))]) (add_single_pages p s1)
    \<and> (\<forall>q \<in> U. nxt (add_single_pages p s1) q = nxt s q)"
proof (intro conjI ballI)
  obtain R b where R: "unat n \<le> R" "R < 2 ^ 29" and r: "run_in p (unat n) b" and nb: "no_block s b"
    and s1: "blocks s1 = b # blocks s" "total_page_count s1 = total_page_count s + of_nat R" "same_lists s s1"
      "unat (pagecount (page_at s1 p)) = unat n" "list_id (page_at s1 p) = my_list s mod MAXLISTS"
      "\<And>q. p_next (page_at s1 q) = (if q = p then 0 else p_next (page_at s q))"
    using alloc_new_spec [OF ok n tot, of 0] new by auto
  have len: "length (single_pages s) = 16" and lo: "list_ok s i []"
    using inv i L by (auto simp: lists_inv_def)
  note o = lists_inv_others [OF inv i(1)]
  obtain k where k: "unat n = Suc k" using n(2) by (cases "unat n") auto
  have ix: "unat (list_id (page_at s1 p)) = i"
    using i s1(5) by (simp add: MAXLISTS_def unat_mod_distrib unat_of_nat take_bit_nat_eq_self)
  have p0: "p \<noteq> 0" using r by (simp add: run_in_def)
  define s2 where "s2 = upd_list i (\<lambda>lp. lp\<lparr>page_count := page_count lp + ucast (pagecount (page_at s1 p))\<rparr>) s1"
  have "unat (pagecount (page_at s1 p) - 1) = k"
    using s1(4) k by (subst unat_minus_one) auto
  then have add: "add_single_pages p s1 = link_pages i p k s2"
    using p0 ix by (simp add: add_single_pages_def s2_def Let_def)
  have sp: "single_pages s1 = single_pages s" using s1(3) by (simp add: same_lists_def)
  have run: "set (run p (Suc k)) \<inter> (set (concat L) \<union> U) = {}" "0 \<notin> set (run p (Suc k))"
    "\<And>q. q \<in> set (run p (Suc k)) \<Longrightarrow> run_in q 1 b"
  proof -
    show r1: "run_in q 1 b" if "q \<in> set (run p (Suc k))" for q
      using run_pages [OF r, of q] that k by simp
    then show "0 \<notin> set (run p (Suc k))" unfolding run_in_def by blast
    have "page_ok s q" if "q \<in> set (concat L) \<union> U" for q
      using inv that by (simp add: lists_inv_def)
    then show "set (run p (Suc k)) \<inter> (set (concat L) \<union> U) = {}"
      using r1 fresh_page [OF nb] unfolding page_ok_def disjoint_iff by blast
  qed
  have chain0: "chain (nxt s2) (pages (single_pages s2 ! i)) []"
    using lo len i(1) by (simp add: s2_def list_ok_def sp)
  have "distinct (run p (Suc k))" using run_distinct [OF r] k by simp
  note l = link_pages_spec [of i s2 p k "[]", OF _ this run(2) _ chain0]
  have len2: "length (single_pages s2) = 16" using len by (simp add: s2_def sp)
  have l: "chain (nxt (add_single_pages p s1)) (pages (single_pages (add_single_pages p s1) ! i)) (rev (run p (Suc k)))"
      "\<And>q. q \<notin> set (run p (Suc k)) \<Longrightarrow> nxt (add_single_pages p s1) q = nxt s2 q"
      "\<And>j. j < 16 \<Longrightarrow> j \<noteq> i \<Longrightarrow> single_pages (add_single_pages p s1) ! j = single_pages s2 ! j"
      "page_count (single_pages (add_single_pages p s1) ! i) = page_count (single_pages s2 ! i)"
      "lp_lock (single_pages (add_single_pages p s1) ! i) = lp_lock (single_pages s2 ! i)"
      "length (single_pages (add_single_pages p s1)) = 16"
      "blocks (add_single_pages p s1) = blocks s2" "total_page_count (add_single_pages p s1) = total_page_count s2"
    using l len2 i(1) unfolding add by (auto simp del: run.simps)
  have "ucast (pagecount (page_at s1 p)) = (of_nat (Suc k) :: u32)"
  proof -
    have "pagecount (page_at s1 p) = of_nat (Suc k)" using s1(4) k by (metis of_nat_unat ucast_id)
    then show ?thesis using n(1) k by (simp add: unsigned_of_nat take_bit_nat_eq_self del: of_nat_Suc)
  qed
  then have pc: "page_count (single_pages s2 ! i) = of_nat (Suc k)"
    using lo len i(1) by (simp add: s2_def sp list_ok_def)
  have "unat (of_nat R :: u64) = R" using R(2) by (simp add: unat_of_nat take_bit_nat_eq_self)
  then have tot': "unat (total_page_count s2) = unat (total_page_count s) + R"
    using tot R(2) by (simp add: s2_def s1(2) unat_plus_if')
  have old: "nxt (add_single_pages p s1) q = nxt s q" if "q \<notin> set (run p (Suc k))" for q
    using that l(2) s1(6) by (auto simp: s2_def nxt_def)
  show "nxt (add_single_pages p s1) q = nxt s q" if "q \<in> U" for q
    using that run(1) old by (auto simp del: run.simps)
  show "lists_inv (Some i) U (L[i := rev (run p (unat n))]) (add_single_pages p s1)"
  proof (rule lists_inv_replace [OF inv i(1)])
    show "nxt (add_single_pages p s1) q = nxt s q" if "q \<in> set (concat (L[i := []]))" for q
      using that run(1) o(4) old by (auto simp del: run.simps set_concat)
    show "single_pages (add_single_pages p s1) ! j = single_pages s ! j" if "j < 16" "j \<noteq> i" for j
      using l(3) that len by (simp add: s2_def sp)
    show "list_ok (add_single_pages p s1) i (rev (run p (unat n)))"
      using l(1,4) pc by (simp add: list_ok_def k del: run.simps)
    show "lp_lock (single_pages (add_single_pages p s1) ! i) = (if Some i = Some i then 1 else 0)"
      using l(5) inv i(1) len by (simp add: s2_def sp lists_inv_def)
    show "card U + length (rev (run p (unat n))) + length (concat (L[i := []])) \<le> unat (total_page_count (add_single_pages p s1))"
      using inv R(1) o(5) unfolding l(8) tot' by (simp add: lists_inv_def L)
    show "page_ok (add_single_pages p s1) q" if "q \<in> set (rev (run p (unat n))) \<union> U" for q
      using that run(3) inv by (auto simp: page_ok_def l(7) s2_def s1(1) k lists_inv_def simp del: run.simps set_concat)
    show "distinct (rev (run p (unat n)))" using run_distinct [OF r] by simp
  qed (use l run inv o(4) in \<open>auto simp: s2_def s1(1) k lists_inv_def simp del: run.simps set_concat\<close>)
qed


text \<open>Drawing a list and filling it when it is empty.\<close>

lemma pick_and_fill:
  assumes inv: "lists_inv None U L s" and ok: "malloc_ok malloc" and tot: "unat (total_page_count s) < 2 ^ 32"
  obtains s1 i where "pick_list rand_r (Suc fuel) s = Inr s1" "i < 16" "unat (my_list s1 mod MAXLISTS) = i"
      "page_count (single_pages s1 ! i) = 0" "alloc_new malloc (ucast (PAGE_GROUP_SIZE s1)) 0 s1 = Inl Aborted"
  | s1 i p s2 L2 q xs where "pick_list rand_r (Suc fuel) s = Inr s1" "i < 16" "unat (my_list s1 mod MAXLISTS) = i"
      "(if page_count (single_pages s1 ! i) = 0 then alloc_new malloc (ucast (PAGE_GROUP_SIZE s1)) 0 s1
        else Inr (0, s1)) = Inr (p, s2)"
      "lists_inv (Some i) U L2 (add_single_pages p s2)" "L2 ! i = q # xs"
      "\<forall>r \<in> U. nxt (add_single_pages p s2) r = nxt s r"
proof -
  obtain s1 i where p: "pick_list rand_r (Suc fuel) s = Inr s1" "i < 16" "my_list s1 = of_nat i"
      "lists_inv (Some i) U L s1" "total_page_count s1 = total_page_count s" "nxt s1 = nxt s"
    using pick_list_ok [OF inv, of rand_r fuel] by (auto simp: nxt_def fun_eq_iff)
  have i: "unat (my_list s1 mod MAXLISTS) = i"
    using p(2,3) by (simp add: MAXLISTS_def unat_mod_distrib unat_of_nat take_bit_nat_eq_self)
  have tot1: "unat (total_page_count s1) < 2 ^ 32" using tot p(5) by simp
  have lo: "list_ok s1 i (L ! i)" using p(2,4) by (simp add: lists_inv_def)
  have len: "length (L ! i) < 2 ^ 32" using lists_inv_length [OF p(4,2)] tot1 by linarith
  have pc: "page_count (single_pages s1 ! i) = 0 \<longleftrightarrow> L ! i = []"
    using lo of_nat_u32_inj [OF len, of 0] by (auto simp: list_ok_def)
  show thesis
  proof (cases "L ! i = []")
    case False
    then obtain q xs where "L ! i = q # xs" by (cases "L ! i") auto
    then show thesis using that(2) [OF p(1,2) i, of 0 s1 L q xs] pc p(4,6) by (simp add: add_single_pages_def)
  next
    case True
    let ?n = "ucast (PAGE_GROUP_SIZE s1) :: u32"
    have g: "unat (PAGE_GROUP_SIZE s1) \<le> 2 ^ 25" "unat (PAGE_GROUP_SIZE s1) \<noteq> 0"
      using group_size [OF tot1] by auto
    then have un: "unat ?n = unat (PAGE_GROUP_SIZE s1)" by (simp add: unsigned_ucast_eq take_bit_nat_eq_self)
    then have n: "unat ?n < 2 ^ 27" "0 < unat ?n" using g by auto
    show thesis
    proof (cases "alloc_new malloc ?n 0 s1")
      case (Inl e)
      then have "e = Aborted" using alloc_new_spec [OF ok n tot1, of 0] by auto
      then show thesis using that(1) [OF p(1,2) i] pc True Inl by simp
    next
      case (Inr x)
      obtain q s2 where x: "x = (q, s2)" by (cases x)
      obtain k where k: "unat ?n = Suc k" using n(2) by (cases "unat ?n") auto
      have "lists_inv (Some i) U (L[i := rev (run q (unat ?n))]) (add_single_pages q s2)
          \<and> (\<forall>r \<in> U. nxt (add_single_pages q s2) r = nxt s1 r)"
        using refill_ok [OF p(4,2,3) True ok n tot1] Inr x by simp
      moreover have "\<exists>y ys. L[i := rev (run q (unat ?n))] ! i = y # ys"
      proof -
        have "length L = 16" using p(4) by (simp add: lists_inv_def)
        moreover have "length (rev (run q (unat ?n))) = Suc k" using k by simp
        ultimately show ?thesis using p(2) by (cases "rev (run q (unat ?n))") auto
      qed
      ultimately show thesis using that(2) [OF p(1,2) i, of q s2] pc True Inr x p(6) by auto
    qed
  qed
qed

section \<open>Whole operations\<close>

lemma alloc_single_page_ok:
  assumes "pages_inv U s" and "malloc_ok malloc" and "unat (total_page_count s) < 2 ^ 32"
  shows "alloc_single_page rand_r malloc (Suc fuel) n s = Inl Aborted
    \<or> (\<exists>p s'. alloc_single_page rand_r malloc (Suc fuel) n s = Inr (p, s')
        \<and> p \<notin> U \<and> pages_inv (insert p U) s' \<and> nxt s' p = n \<and> (\<forall>q \<in> U. nxt s' q = nxt s q))"
proof -
  obtain L where inv: "lists_inv None U L s" using assms(1) by (auto simp: pages_inv_def)
  show ?thesis
  proof (rule pick_and_fill [OF inv assms(2,3), of rand_r fuel])
    fix s1 i assume "pick_list rand_r (Suc fuel) s = Inr s1" "i < 16" "unat (my_list s1 mod MAXLISTS) = i"
      "page_count (single_pages s1 ! i) = 0" "alloc_new malloc (ucast (PAGE_GROUP_SIZE s1)) 0 s1 = Inl Aborted"
    then show ?thesis by (simp add: alloc_single_page_def Let_def)
  next
    fix s1 i p s2 L2 q xs
    assume h: "pick_list rand_r (Suc fuel) s = Inr s1" "i < 16" "unat (my_list s1 mod MAXLISTS) = i"
      "(if page_count (single_pages s1 ! i) = 0 then alloc_new malloc (ucast (PAGE_GROUP_SIZE s1)) 0 s1
        else Inr (0, s1)) = Inr (p, s2)"
      "lists_inv (Some i) U L2 (add_single_pages p s2)" "L2 ! i = q # xs"
      "\<forall>r \<in> U. nxt (add_single_pages p s2) r = nxt s r"
    obtain s' where t: "take_first i 1 n (add_single_pages p s2) = Inr (q, s')"
        "lists_inv None (insert q U) (L2[i := xs]) s'" "nxt s' q = n"
        "\<forall>r. r \<noteq> q \<longrightarrow> nxt s' r = nxt (add_single_pages p s2) r"
      using take_first_ok [OF h(5,2,6), of n] by blast
    have "q \<notin> U"
      using h(5,6) lists_inv_others(4) [OF h(5,2)] by (auto simp: lists_inv_def simp del: set_concat)
    moreover have "\<forall>r \<in> U. nxt s' r = nxt s r" using h(7) t(4) \<open>q \<notin> U\<close> by auto
    ultimately show ?thesis using h t by (auto simp: alloc_single_page_def Let_def pages_inv_def simp del: pick_list.simps)
  qed
qed

lemma free_single_page_ok:
  assumes "pages_inv U s" and "p \<in> U"
  shows "\<exists>s'. free_single_page rand_r (Suc fuel) p s = Inr s' \<and> pages_inv (U - {p}) s'
    \<and> total_page_count s' = total_page_count s \<and> (\<forall>q. q \<noteq> p \<longrightarrow> nxt s' q = nxt s q)"
proof -
  obtain L where inv: "lists_inv None U L s" using assms(1) by (auto simp: pages_inv_def)
  obtain s1 i where h: "pick_list rand_r (Suc fuel) s = Inr s1" "i < 16" "my_list s1 = of_nat i"
      "lists_inv (Some i) U L s1" "total_page_count s1 = total_page_count s" "nxt s1 = nxt s"
    using pick_list_ok [OF inv, of rand_r fuel] by (auto simp: nxt_def fun_eq_iff)
  have "lists_inv None (U - {p}) (L[i := p # L ! i]) (put_first p 1 s1)"
    using put_first_ok [OF h(4,2,3) assms(2)] .
  then show ?thesis using h
    by (auto simp: free_single_page_def pages_inv_def put_first_def unlock_list_def Let_def
        nxt_upd_page simp del: pick_list.simps)
qed

section \<open>The interface\<close>

definition room :: "'z pages_state_scheme \<Rightarrow> bool" where
  "room s \<longleftrightarrow> unat (total_page_count s) < 2 ^ 32"

interpretation pool: page_pool "\<lambda>U s. malloc_ok malloc \<and> pages_inv U s" room nxt
  "alloc_single_page rand_r malloc (Suc fuel)" "free_single_page rand_r (Suc fuel)" for rand_r malloc fuel
proof unfold_locales
  fix U n and s :: "'a pages_state_scheme"
  assume "malloc_ok malloc \<and> pages_inv U s" and "room s"
  then show "alloc_single_page rand_r malloc (Suc fuel) n s = Inl Aborted
    \<or> (\<exists>p s'. alloc_single_page rand_r malloc (Suc fuel) n s = Inr (p, s') \<and> p \<notin> U
        \<and> (malloc_ok malloc \<and> pages_inv (insert p U) s') \<and> nxt s' p = n \<and> (\<forall>q \<in> U. nxt s' q = nxt s q))"
    using alloc_single_page_ok [of U s malloc rand_r fuel n] unfolding room_def by auto
next
  fix U p and s :: "'a pages_state_scheme"
  assume "malloc_ok malloc \<and> pages_inv U s" and "p \<in> U"
  then show "\<exists>s'. free_single_page rand_r (Suc fuel) p s = Inr s' \<and> (malloc_ok malloc \<and> pages_inv (U - {p}) s')
      \<and> (\<forall>q. q \<noteq> p \<longrightarrow> nxt s' q = nxt s q)"
    using free_single_page_ok [of U s p rand_r fuel] by auto
qed

lemma init_pages_inv: "pages_inv {} (init_pages s)"
proof -
  have "(replicate 16 []) ! i = ([] :: u64 list)" if "i < 16" for i using that by simp
  then have "lists_inv None {} (replicate 16 []) (init_pages s)"
    by (auto simp: lists_inv_def init_pages_def MAXLISTS_def list_ok_def)
  then show ?thesis by (auto simp: pages_inv_def)
qed

section \<open>Concrete states\<close>

text \<open>A \<open>malloc\<close> that places each block behind the last one, a generator that draws the same list.\<close>

definition bump :: malloc_fun where
  "bump log n =
     (let a = (case log of [] \<Rightarrow> 0x10000 | b # _ \<Rightarrow> fst b + snd b)
      in if unat a + unat n < 2 ^ 64 \<and> (\<forall>b \<in> set log. apart (a, n) b) then a else 0)"

definition draw_zero :: rand_fun where "draw_zero s = (0, s)"

definition blank_page :: page where
  "blank_page = \<lparr>list_id = 0, p_next = 0, pagecount = 0, p_free = False, available = 0\<rparr>"

definition pages_start :: pages_state where
  "pages_start = init_pages \<lparr>page_at = \<lambda>_. blank_page, single_pages = [], my_list = 0, myseed = 0,
     total_page_count = 0, blocks = []\<rparr>"

lemma bump_ok: "malloc_ok bump"
  by (auto simp: malloc_ok_def bump_def Let_def)

lemma link_pages_numeral: "link_pages i p (numeral k) s =
    link_pages i (p + RPAGESIZE) (pred_numeral k) (link_page i p s)"
  by (simp add: numeral_eq_Suc)

lemmas pages_eval = link_pages_numeral alloc_single_page_def alloc_pages_def free_pages_def free_single_page_def
  alloc_new_def alloc_split_def region_get_mem_def
  take_first_def put_first_def add_single_pages_def link_page_def unlock_list_def upd_list_def upd_page_def
  pages_start_def init_pages_def blank_page_def bump_def apart_def draw_zero_def
  PAGE_GROUP_SIZE_def MINIMUM_MEM_REQUEST_def PALIGN_def RPAGESIZE_def RPAGELOG_def K_def MAXLISTS_def
  try_lock_def v_atomic_test_and_set_def release_spinlock_def UNLOCKED_def Let_def

text \<open>The operations with these parameters.\<close>

definition get_page :: "pages_state \<Rightarrow> (u64 \<times> pages_state) res" where
  "get_page s = alloc_single_page draw_zero bump (Suc 0) 0 s"

definition get_pages :: "u32 \<Rightarrow> pages_state \<Rightarrow> (u64 \<times> pages_state) res" where
  "get_pages n s = alloc_pages draw_zero bump (Suc 0) n 0 s"

definition put_page :: "u64 \<Rightarrow> pages_state \<Rightarrow> pages_state res" where
  "put_page p s = free_single_page draw_zero (Suc 0) p s"

definition put_pages :: "u64 \<Rightarrow> pages_state \<Rightarrow> pages_state res" where
  "put_pages p s = free_pages draw_zero (Suc 0) p s"

lemmas client_eval = get_page_def get_pages_def put_page_def put_pages_def pages_eval

section \<open>Properties\<close>

text \<open>
  C24: under malloc's contract and fewer than \<open>2 ^ 32\<close> pages, in every run of single-page
  allocations and releases of pages held, from freshly initialised lists and whatever lists are
  drawn: no page is handed out twice, every page held is aligned and inside a block that malloc
  returned, releasing any of them succeeds, and an allocation fails only by the abort for want of memory.
\<close>

theorem pages_exclusive:
  assumes "malloc_ok malloc"
    and "pool_run (alloc_single_page rand_r malloc (Suc fuel)) (free_single_page rand_r (Suc fuel)) room
           (init_pages s0) held s"
  shows "distinct held \<and> (\<forall>p \<in> set held. \<exists>b \<in> set (blocks s). run_in p 1 b)
    \<and> (\<forall>p \<in> set held. \<exists>s'. free_single_page rand_r (Suc fuel) p s = Inr s')
    \<and> (\<forall>e. room s \<and> alloc_single_page rand_r malloc (Suc fuel) n s = Inl e \<longrightarrow> e = Aborted)"
proof -
  have inv: "distinct held" "pages_inv (set held) s"
    using pool.run_inv [OF _ assms(2)] assms(1) init_pages_inv by auto
  have "\<forall>p \<in> set held. page_ok s p" using inv(2) by (auto simp: pages_inv_def lists_inv_def)
  moreover have "\<exists>s'. free_single_page rand_r (Suc fuel) p s = Inr s'" if "p \<in> set held" for p
    using free_single_page_ok [OF inv(2) that] by blast
  moreover have "e = Aborted" if "room s" "alloc_single_page rand_r malloc (Suc fuel) n s = Inl e" for e
    using alloc_single_page_ok [OF inv(2) assms(1), of rand_r fuel n] that by (auto simp: room_def)
  ultimately show ?thesis using inv(1) by (auto simp: page_ok_def)
qed

theorem pages_exclusive_witness:
  "\<exists>s. get_page pages_start = Inr (0x14000, s) \<and> (\<exists>b \<in> set (blocks s). run_in 0x14000 1 b)"
proof -
  obtain s where s: "get_page pages_start = Inr (0x14000, s)"
    by (simp add: client_eval)
  have "pool_run (alloc_single_page draw_zero bump (Suc 0)) (free_single_page draw_zero (Suc 0)) room
      pages_start [0x14000] s"
    by (rule pool_get [OF pool_start])
      (use s in \<open>simp_all add: get_page_def room_def pages_start_def init_pages_def\<close>)
  from pages_exclusive [OF bump_ok this [unfolded pages_start_def], of 0] s show ?thesis by auto
qed

text \<open>
  Releasing a multi-page unit adds the page's \<open>pagecount\<close> to the count of a list that grows
  by one page.  Two units of one page are allocated and the second is released (it is the first page
  of its group, which counts two); the second of two single-page allocations that follow then
  dereferences the null head of a list whose count is not 0.
\<close>

lemma free_pages_breaks_count:
  "ebind (get_pages 1 pages_start) (\<lambda>(p, s). ebind (get_pages 1 s) (\<lambda>(q, s). ebind (put_pages q s) (\<lambda>s.
     ebind (get_page s) (\<lambda>(a, s). get_page s)))) = Inl NullDeref"
  by (simp add: client_eval)


text \<open>
  Once 128 pages have been obtained, three quarters of the pages of every refill are lost: the
  group of \<open>g\<close> pages that goes to the list is the end of a request of at least \<open>4 * g\<close> pages,
  whose first part \<open>alloc_split\<close> leaves in no list.
\<close>

lemma refill_wastes_pages:
  assumes "malloc_ok malloc" and "128 \<le> unat (total_page_count s)" and "room s"
    and "alloc_new malloc (ucast (PAGE_GROUP_SIZE s)) 0 s = Inr (p, s')"
  shows "unat (total_page_count s') \<ge> unat (total_page_count s) + 4 * unat (PAGE_GROUP_SIZE s)
    \<and> unat (pagecount (page_at s' p)) = unat (PAGE_GROUP_SIZE s) \<and> single_pages s' = single_pages s"
proof -
  let ?g = "unat (PAGE_GROUP_SIZE s)"
  have tot: "unat (total_page_count s) < 2 ^ 32" using assms(3) by (simp add: room_def)
  have "unat (drop_bit 7 (total_page_count s)) \<ge> 1"
    using assms(2) by (simp add: unat_drop_bit_eq) (simp add: drop_bit_eq_div)
  moreover have "?g = (1 + unat (drop_bit 7 (total_page_count s))) mod 2 ^ 64"
    by (simp add: PAGE_GROUP_SIZE_def unat_word_ariths(1))
  moreover have "unat (drop_bit 7 (total_page_count s)) < 2 ^ 25"
    using tot by (simp add: unat_drop_bit_eq) (simp add: drop_bit_eq_div div_less_iff_less_mult)
  ultimately have g: "2 \<le> ?g" "?g \<le> 2 ^ 25" using group_size(1) [OF tot] by auto
  then have un: "unat (ucast (PAGE_GROUP_SIZE s) :: u32) = ?g"
    by (simp add: unsigned_ucast_eq take_bit_nat_eq_self)
  then obtain R where R: "4 * ?g \<le> R" "R < 2 ^ 29" "total_page_count s' = total_page_count s + of_nat R"
      "unat (pagecount (page_at s' p)) = ?g" "same_lists s s'"
    using alloc_new_spec [OF assms(1) _ _ tot, of "ucast (PAGE_GROUP_SIZE s)" 0] assms(4) g by auto
  then have "unat (of_nat R :: u64) = R" by (simp add: unat_of_nat take_bit_nat_eq_self)
  then show ?thesis using R tot by (simp add: unat_plus_if' same_lists_def)
qed

end
