(* ===== verification/Pages_Room.thy ===== *)
theory Pages_Room
  imports Pages_Inv
begin

text \<open>
  What the page allocator leaves alone: the field \<open>available\<close> of every page; and how it accounts for
  memory: the pages counted fit into the blocks that \<open>malloc\<close> returned, so that on a machine with less
  than 64 TiB there is always room to count more.
\<close>

section \<open>Frames\<close>

definition same_ledger :: "'z pages_state_scheme \<Rightarrow> 'z pages_state_scheme \<Rightarrow> bool" where
  "same_ledger s s' \<longleftrightarrow> total_page_count s' = total_page_count s \<and> blocks s' = blocks s
     \<and> (\<forall>q. available (page_at s' q) = available (page_at s q))"

lemma same_ledger_trans: "same_ledger s t \<Longrightarrow> same_ledger t u \<Longrightarrow> same_ledger s u"
  by (simp add: same_ledger_def)

lemma same_ledger_list [simp]: "same_ledger s (upd_list i f u) = same_ledger s u"
  by (simp add: same_ledger_def)

lemma same_ledger_page: "(\<And>q. available (f q) = available q) \<Longrightarrow> same_ledger s (upd_page p f u) = same_ledger s u"
  by (auto simp: same_ledger_def upd_page_def)

lemma pick_list_ledger: "pick_list rand_r fuel s = Inr s' \<Longrightarrow> same_ledger s s'"
proof (induction fuel arbitrary: s)
  case 0
  then show ?case by simp
next
  case (Suc fuel)
  obtain r sd where r: "rand_r (myseed s) = (r, sd)" by (metis surj_pair)
  let ?i = "unat (r mod MAXLISTS mod MAXLISTS)"
  obtain old l where l: "try_lock (lp_lock (single_pages s ! ?i)) = (old, l)" by (metis surj_pair)
  let ?s = "upd_list ?i (\<lambda>lp. lp\<lparr>lp_lock := l\<rparr>) (s\<lparr>myseed := sd, my_list := r mod MAXLISTS\<rparr>)"
  have "same_ledger s ?s" by (simp add: same_ledger_def)
  moreover have "same_ledger ?s s'" if "pick_list rand_r fuel ?s = Inr s'" using Suc.IH that .
  moreover have "pick_list rand_r fuel ?s = Inr s' \<or> ?s = s'"
    using Suc.prems by (auto simp: r l Let_def upd_list_def split: if_splits)
  ultimately show ?case using same_ledger_trans by blast
qed

lemma link_pages_ledger: "same_ledger s (link_pages i base k s)"
proof (induction k arbitrary: base s)
  case 0
  then show ?case by (simp add: link_page_def same_ledger_page) (simp add: same_ledger_def)
next
  case (Suc k)
  have "same_ledger s (link_page i base s)" by (simp add: link_page_def same_ledger_page) (simp add: same_ledger_def)
  then show ?case using Suc.IH [of "link_page i base s"] by (auto intro: same_ledger_trans)
qed

lemma add_single_pages_ledger: "same_ledger s (add_single_pages base s)"
proof (cases "base = 0")
  case True
  then show ?thesis by (simp add: add_single_pages_def same_ledger_def)
next
  case False
  let ?i = "unat (list_id (page_at s base))" and ?n = "pagecount (page_at s base)"
  let ?s = "upd_list ?i (\<lambda>lp. lp\<lparr>page_count := page_count lp + ucast ?n\<rparr>) s"
  have "same_ledger s ?s" by simp (simp add: same_ledger_def)
  then have "same_ledger s (link_pages ?i base (unat (?n - 1)) ?s)" by (rule same_ledger_trans [OF _ link_pages_ledger])
  then show ?thesis using False by (simp add: add_single_pages_def Let_def)
qed

lemma take_first_ledger: "take_first i n nx s = Inr (p, s') \<Longrightarrow> same_ledger s s'"
  by (auto simp: take_first_def Let_def unlock_list_def same_ledger_page split: if_splits)
    (simp_all add: same_ledger_def)

section \<open>Memory accounted for\<close>

definition bytes_of :: "(u64 \<times> u64) list \<Rightarrow> nat" where
  "bytes_of bs = sum_list (map (unat \<circ> snd) bs)"

definition mem_bounded :: "malloc_fun \<Rightarrow> bool" where
  "mem_bounded malloc \<longleftrightarrow> (\<forall>log n. malloc log n \<noteq> 0 \<longrightarrow> bytes_of log + unat n < 2 ^ 46)"

definition accounted :: "'z pages_state_scheme \<Rightarrow> bool" where
  "accounted s \<longleftrightarrow> unat (total_page_count s) * 16384 \<le> bytes_of (blocks s) \<and> bytes_of (blocks s) < 2 ^ 46"

lemma accounted_room: "accounted s \<Longrightarrow> room s"
  by (simp add: accounted_def room_def)

lemma accounted_ledger: "same_ledger s s' \<Longrightarrow> accounted s' = accounted s"
  by (simp add: accounted_def same_ledger_def)

lemma get_mem_available: "region_get_mem malloc n s = (p, s') \<Longrightarrow> available (page_at s' q) = available (page_at s q)"
  by (auto simp: region_get_mem_def Let_def upd_page_def split: if_splits)

lemma alloc_new_available: "alloc_new malloc n nx s = Inr (p, s') \<Longrightarrow> available (page_at s' q) = available (page_at s q)"
  using get_mem_available [of malloc "push_bit RPAGELOG (scast n)" s]
  by (auto simp: alloc_new_def alloc_split_def Let_def upd_page_def split: prod.splits if_splits)

lemma alloc_new_accounted:
  assumes ok: "malloc_ok malloc" "mem_bounded malloc" and acc: "accounted s"
    and new: "alloc_new malloc (ucast (PAGE_GROUP_SIZE s)) nx s = Inr (p, s')"
  shows "accounted s'"
proof -
  have tot: "unat (total_page_count s) < 2 ^ 32" using accounted_room [OF acc] by (simp add: room_def)
  have g: "unat (PAGE_GROUP_SIZE s) \<le> 2 ^ 25" "unat (PAGE_GROUP_SIZE s) \<noteq> 0" using group_size [OF tot] by auto
  let ?n = "ucast (PAGE_GROUP_SIZE s) :: u32"
  have "unat ?n = unat (PAGE_GROUP_SIZE s)" using g by (simp add: unsigned_ucast_eq take_bit_nat_eq_self)
  then have n: "unat ?n < 2 ^ 27" "0 < unat ?n" using g by auto
  obtain R b where R: "R < 2 ^ 29" "blocks s' = b # blocks s" "malloc (blocks s) (snd b) \<noteq> 0"
      "R * 16384 \<le> unat (snd b)" "total_page_count s' = total_page_count s + of_nat R"
    using alloc_new_spec [OF ok(1) n tot, of nx] new by auto
  have "unat (total_page_count s') = unat (total_page_count s) + R"
    using R(1,5) tot by (simp add: unat_plus_if' unat_of_nat take_bit_nat_eq_self)
  moreover have "bytes_of (blocks s) + unat (snd b) < 2 ^ 46" using ok(2) R(3) by (simp add: mem_bounded_def)
  ultimately show ?thesis using acc R(2,4) by (simp add: accounted_def bytes_of_def)
qed

text \<open>The whole of an allocation.\<close>

lemma alloc_single_page_frame:
  assumes al: "alloc_single_page rand_r malloc fuel nx s = Inr (p, s')"
  shows "available (page_at s' q) = available (page_at s q)"
    "malloc_ok malloc \<Longrightarrow> mem_bounded malloc \<Longrightarrow> accounted s \<Longrightarrow> accounted s'"
proof -
  obtain s1 i x s2 where h: "pick_list rand_r fuel s = Inr s1" "i = unat (my_list s1 mod MAXLISTS)"
      "(if page_count (single_pages s1 ! i) = 0 then alloc_new malloc (ucast (PAGE_GROUP_SIZE s1)) 0 s1
        else Inr (0, s1)) = Inr (x, s2)"
      "take_first i 1 nx (add_single_pages x s2) = Inr (p, s')"
    using al by (auto simp: alloc_single_page_def fault_simps Let_def)
  note l1 = pick_list_ledger [OF h(1)]
    and l2 = same_ledger_trans [OF add_single_pages_ledger take_first_ledger [OF h(4)]]
  have "available (page_at s2 q) = available (page_at s1 q)"
    using h(3) alloc_new_available [of malloc _ 0 s1 x s2 q] by (auto split: if_splits)
  then show "available (page_at s' q) = available (page_at s q)" using l1 l2 by (simp add: same_ledger_def)
  assume ok: "malloc_ok malloc" "mem_bounded malloc" "accounted s"
  have "accounted s1" using ok(3) accounted_ledger [OF l1] by simp
  then have "accounted s2" using h(3) alloc_new_accounted [OF ok(1,2)] by (auto split: if_splits)
  then show "accounted s'" using accounted_ledger [OF l2] by simp
qed

end
