(* ===== verification/Region_Map.thy ===== *)
theory Region_Map
  imports Pages
begin

text \<open>
  The region map of \<open>src/pages.c\<close>: a two-level table from page numbers to regions, with rows of
  \<open>2 ^ 26\<close> entries that are allocated on first use.  A fresh row is not initialised: its entries are
  \<open>None\<close> until they are written.  Whether \<open>malloc\<close> can provide a row is a parameter.
\<close>

section \<open>Data\<close>

definition RMAXMEMLOG :: nat where "RMAXMEMLOG = 8 * 8"
definition RMAPLOG :: nat where "RMAPLOG = 26"
definition RMAXMAP :: u64 where "RMAXMAP = push_bit (RMAXMEMLOG - RMAPLOG - RPAGELOG) 1"
definition RMAXPAGE :: u64 where "RMAXPAGE = push_bit RMAPLOG 1"

definition MAPNB :: "u64 \<Rightarrow> u64" where
  "MAPNB x = drop_bit (RPAGELOG + RMAPLOG) x AND (push_bit (RMAXMEMLOG - RMAPLOG - RPAGELOG) 1 - 1)"

definition PAGENB :: "u64 \<Rightarrow> u64" where
  "PAGENB x = drop_bit RPAGELOG x AND (push_bit RMAPLOG 1 - 1)"

type_synonym region_map = "u64 \<Rightarrow> (u64 \<Rightarrow> u64 option) option"

section \<open>Operations\<close>

text \<open>The loop that carries page numbers over to the next row.\<close>

function norm_slot :: "u64 \<Rightarrow> u64 \<Rightarrow> u64 \<times> u64" where
  "norm_slot mp page = (if page \<ge> RMAXPAGE then norm_slot (mp + 1) (page - RMAXPAGE) else (mp, page))"
  by pat_completeness auto

termination
proof (relation "measure (\<lambda>(_, page). unat page)")
  show "((mp + 1, page - RMAXPAGE), (mp, page)) \<in> measure (\<lambda>(_, page). unat page)"
    if "RMAXPAGE \<le> page" for mp page
  proof -
    have "unat RMAXPAGE = 2 ^ 26" by (simp add: RMAXPAGE_def RMAPLOG_def push_bit_eq_mult)
    then show ?thesis using that by (simp add: unat_sub word_le_nat_alt)
  qed
qed simp

declare norm_slot.simps [simp del]

definition get_or_alloc_regionmap :: "(u64 \<Rightarrow> bool) \<Rightarrow> u64 \<Rightarrow> u64 \<Rightarrow> region_map \<Rightarrow>
    ((u64 \<times> u64) \<times> region_map) res" where
  "get_or_alloc_regionmap malloc_row mp page m =
     (let (mp, page) = norm_slot mp page
      in if mp \<ge> RMAXMAP then Inl OutOfBounds
         else if m mp = None then
           (if malloc_row mp then Inr ((mp, page), m(mp \<mapsto> (\<lambda>_. None))) else Inl NullDeref)
         else Inr ((mp, page), m))"

definition set_page_region :: "(u64 \<Rightarrow> bool) \<Rightarrow> u64 \<Rightarrow> u64 \<Rightarrow> u64 \<Rightarrow> region_map \<Rightarrow> region_map res" where
  "set_page_region malloc_row mapnb pagenb r m =
     ebind (get_or_alloc_regionmap malloc_row mapnb pagenb m) (\<lambda>((mp, page), m).
     Inr (m(mp := map_option (\<lambda>row. row(page := Some r)) (m mp))))"

text \<open>The loop of \<open>set_region\<close>; \<open>npages\<close> is an \<open>int\<close>.\<close>

primrec set_pages :: "(u64 \<Rightarrow> bool) \<Rightarrow> u64 \<Rightarrow> u64 \<Rightarrow> nat \<Rightarrow> u64 \<Rightarrow> region_map \<Rightarrow> region_map res" where
  "set_pages malloc_row mnb pnb 0 r m = Inr m"
| "set_pages malloc_row mnb pnb (Suc n) r m =
     ebind (set_page_region malloc_row mnb pnb r m) (set_pages malloc_row mnb (pnb + 1) n r)"

definition set_region :: "(u64 \<Rightarrow> bool) \<Rightarrow> u64 \<Rightarrow> u32 \<Rightarrow> u64 \<Rightarrow> region_map \<Rightarrow> region_map res" where
  "set_region malloc_row p npages r m = set_pages malloc_row (MAPNB p) (PAGENB p) (nat (sint npages)) r m"

definition regionof :: "(u64 \<Rightarrow> bool) \<Rightarrow> u64 \<Rightarrow> region_map \<Rightarrow> (u64 option \<times> region_map) res" where
  "regionof malloc_row ptr m =
     ebind (get_or_alloc_regionmap malloc_row (MAPNB ptr) (PAGENB ptr) m) (\<lambda>((mp, page), m).
     Inr (Option.bind (m mp) (\<lambda>row. row page), m))"

text \<open>
  \<open>set_region_range\<close> is called only without \<open>NMEMDEBUG\<close>.  Its loop moves nothing but the carry; a
  bound on the rounds stands for running on.
\<close>

primrec range_loop :: "nat \<Rightarrow> u64 \<Rightarrow> u64 \<Rightarrow> u64 \<Rightarrow> u64 \<Rightarrow> (u64 \<times> u64) res" where
  "range_loop 0 firstm firstp lastm lastp = Inl OutOfFuel"
| "range_loop (Suc k) firstm firstp lastm lastp =
     (if firstm < lastm \<or> firstp \<le> lastp then
        if firstp \<ge> RMAXPAGE then range_loop k (firstm + 1) (firstp - RMAXPAGE) lastm lastp
        else range_loop k firstm firstp lastm lastp
      else Inr (firstm, firstp))"

definition set_region_range :: "(u64 \<Rightarrow> bool) \<Rightarrow> nat \<Rightarrow> u64 \<Rightarrow> u64 \<Rightarrow> u64 \<Rightarrow> region_map \<Rightarrow> region_map res" where
  "set_region_range malloc_row fuel from_ptr to_ptr r m =
     ebind (range_loop fuel (MAPNB from_ptr) (PAGENB from_ptr) (MAPNB (to_ptr - 1)) (PAGENB (to_ptr - 1)))
       (\<lambda>(firstm, firstp). set_page_region malloc_row firstm firstp r m)"

section \<open>Page numbers\<close>

definition pageno :: "u64 \<Rightarrow> nat" where
  "pageno q = unat q div 2 ^ 14"

definition slot_of :: "nat \<Rightarrow> u64 \<times> u64" where
  "slot_of v = (of_nat (v div 2 ^ 26), of_nat (v mod 2 ^ 26))"

lemma pageno_lt: "pageno q < 2 ^ 50"
  using unat_lt2p64 [of q] by (simp add: pageno_def div_less_iff_less_mult)

lemma unat_drop: "unat (drop_bit n (w :: u64)) = unat w div 2 ^ n"
  by (simp add: unat_drop_bit_eq) (simp add: drop_bit_eq_div)

lemma unat_and_mask: "unat (w AND (push_bit n 1 - 1) :: u64) = unat w mod 2 ^ n"
proof -
  have "push_bit n 1 - 1 = (mask n :: u64)" by (simp add: mask_eq_exp_minus_1 push_bit_eq_mult)
  then have "w AND (push_bit n 1 - 1) = take_bit n w" by (simp add: take_bit_eq_mask)
  moreover have "unat (take_bit n w) = take_bit n (unat w)" by (rule unsigned_take_bit_eq)
  ultimately show ?thesis by (simp only: take_bit_eq_mod)
qed

lemma page_parts: "unat (MAPNB q) = pageno q div 2 ^ 26" "unat (PAGENB q) = pageno q mod 2 ^ 26"
proof -
  have "unat q div 2 ^ 40 < 2 ^ 24" using unat_lt2p64 [of q] by (simp add: div_less_iff_less_mult)
  moreover have "unat (MAPNB q) = unat q div 2 ^ (14 + 26) mod 2 ^ (8 * 8 - 26 - 14)"
    unfolding MAPNB_def unat_and_mask unat_drop RPAGELOG_def RMAPLOG_def RMAXMEMLOG_def ..
  ultimately show "unat (MAPNB q) = pageno q div 2 ^ 26" by (simp add: pageno_def div_mult2_eq [symmetric])
  show "unat (PAGENB q) = pageno q mod 2 ^ 26"
    unfolding PAGENB_def unat_and_mask unat_drop RPAGELOG_def RMAPLOG_def pageno_def ..
qed

lemma page_value: "unat (MAPNB q) * 2 ^ 26 + unat (PAGENB q) = pageno q"
  unfolding page_parts by (rule div_mult_mod_eq)

text \<open>For no range that has an address in it the loop ends.\<close>

lemma range_loop_runs_on:
  assumes "firstp < RMAXPAGE" and "firstm < lastm \<or> firstp \<le> lastp"
  shows "range_loop k firstm firstp lastm lastp = Inl OutOfFuel"
  using assms by (induction k) auto

lemma set_region_range_hangs:
  assumes "from_ptr < to_ptr"
  shows "set_region_range malloc_row fuel from_ptr to_ptr r m = Inl OutOfFuel"
proof -
  have "to_ptr \<noteq> 0" using assms by auto
  then have "unat (to_ptr - 1) = unat to_ptr - 1" using unat_gt_0 [of to_ptr] by (subst unat_sub) (simp_all add: word_le_nat_alt)
  then have "unat from_ptr \<le> unat (to_ptr - 1)" using assms by (simp add: word_less_nat_alt)
  then have le: "pageno from_ptr \<le> pageno (to_ptr - 1)" by (simp add: pageno_def div_le_mono)
  have "PAGENB from_ptr < RMAXPAGE"
    by (simp add: word_less_nat_alt page_parts RMAXPAGE_def RMAPLOG_def push_bit_eq_mult)
  moreover have "MAPNB from_ptr < MAPNB (to_ptr - 1) \<or> PAGENB from_ptr \<le> PAGENB (to_ptr - 1)"
  proof (cases "MAPNB from_ptr < MAPNB (to_ptr - 1)")
    case False
    then have "unat (MAPNB (to_ptr - 1)) \<le> unat (MAPNB from_ptr)" by (simp add: word_less_nat_alt)
    then have "unat (PAGENB from_ptr) \<le> unat (PAGENB (to_ptr - 1))"
      using le page_value [of from_ptr] page_value [of "to_ptr - 1"]
        mult_le_mono1 [of "unat (MAPNB (to_ptr - 1))" "unat (MAPNB from_ptr)" "2 ^ 26"] by linarith
    then show ?thesis by (simp add: word_le_nat_alt)
  qed simp
  ultimately show ?thesis by (simp add: set_region_range_def range_loop_runs_on)
qed

lemma slot_of_inj:
  assumes "v < 2 ^ 50" and "w < 2 ^ 50"
  shows "slot_of v = slot_of w \<longleftrightarrow> v = w"
proof
  have u: "unat (of_nat (a div 2 ^ 26) :: u64) = a div 2 ^ 26" "unat (of_nat (a mod 2 ^ 26) :: u64) = a mod 2 ^ 26"
    if "a < 2 ^ 50" for a
  proof -
    have "a div 2 ^ 26 < 2 ^ 24" using that by (simp add: div_less_iff_less_mult)
    then show "unat (of_nat (a div 2 ^ 26) :: u64) = a div 2 ^ 26"
      by (simp add: unat_of_nat take_bit_nat_eq_self)
    have "a mod 2 ^ 26 < 2 ^ 26" by simp
    then show "unat (of_nat (a mod 2 ^ 26) :: u64) = a mod 2 ^ 26"
      by (simp add: unat_of_nat take_bit_nat_eq_self)
  qed
  assume "slot_of v = slot_of w"
  then have "v div 2 ^ 26 = w div 2 ^ 26" "v mod 2 ^ 26 = w mod 2 ^ 26"
    unfolding slot_of_def prod.inject by (metis assms u)+
  then show "v = w" by (metis div_mult_mod_eq)
qed simp

lemma norm_slot_spec:
  assumes "unat mp * 2 ^ 26 + unat page < 2 ^ 50"
  shows "norm_slot mp page = slot_of (unat mp * 2 ^ 26 + unat page)"
  using assms
proof (induction mp page rule: norm_slot.induct)
  case (1 mp page)
  have R: "unat RMAXPAGE = 2 ^ 26" by (simp add: RMAXPAGE_def RMAPLOG_def push_bit_eq_mult)
  show ?case
  proof (cases "RMAXPAGE \<le> page")
    case True
    then have p: "unat (page - RMAXPAGE) = unat page - 2 ^ 26" "2 ^ 26 \<le> unat page"
      using R by (simp_all add: unat_sub word_le_nat_alt)
    have "unat mp < 2 ^ 24" using 1(2) by simp
    then have "unat (mp + 1) = unat mp + 1" by (simp add: unat_word_ariths(1))
    then have "unat (mp + 1) * 2 ^ 26 + unat (page - RMAXPAGE) = unat mp * 2 ^ 26 + unat page"
      using p by simp
    then show ?thesis using 1 True by (simp add: norm_slot.simps [of mp page])
  next
    case False
    then have "unat page < 2 ^ 26" using R by (simp add: word_le_nat_alt)
    then have "(unat mp * 2 ^ 26 + unat page) div 2 ^ 26 = unat mp"
        "(unat mp * 2 ^ 26 + unat page) mod 2 ^ 26 = unat page" by simp_all
    then show ?thesis using False by (simp add: norm_slot.simps [of mp page] slot_of_def)
  qed
qed


section \<open>The table the map stands for\<close>

definition lookup :: "region_map \<Rightarrow> nat \<Rightarrow> u64 option" where
  "lookup m v = Option.bind (m (fst (slot_of v))) (\<lambda>row. row (snd (slot_of v)))"

lemma slot_in_map: "v < 2 ^ 50 \<Longrightarrow> \<not> RMAXMAP \<le> fst (slot_of v)"
proof -
  assume "v < 2 ^ 50"
  then have "v div 2 ^ 26 < 2 ^ 24" by (simp add: div_less_iff_less_mult)
  then have "unat (fst (slot_of v)) < 2 ^ 24" by (simp add: slot_of_def unat_of_nat take_bit_nat_eq_self)
  moreover have "unat RMAXMAP = 2 ^ 24"
    by (simp add: RMAXMAP_def RMAXMEMLOG_def RMAPLOG_def RPAGELOG_def push_bit_eq_mult)
  ultimately show ?thesis by (simp add: word_le_nat_alt)
qed

lemma get_or_alloc_spec:
  assumes "\<forall>mp. malloc_row mp" and "unat mp * 2 ^ 26 + unat page < 2 ^ 50"
  shows "\<exists>m' row. get_or_alloc_regionmap malloc_row mp page m
      = Inr (slot_of (unat mp * 2 ^ 26 + unat page), m')
    \<and> m' (fst (slot_of (unat mp * 2 ^ 26 + unat page))) = Some row \<and> (\<forall>v. lookup m' v = lookup m v)"
proof -
  obtain a b where ab: "slot_of (unat mp * 2 ^ 26 + unat page) = (a, b)" by (metis surj_pair)
  have n: "norm_slot mp page = (a, b)" using norm_slot_spec [OF assms(2)] ab by simp
  have a: "\<not> RMAXMAP \<le> a" using slot_in_map [OF assms(2)] ab by simp
  show ?thesis
  proof (cases "m a")
    case None
    then show ?thesis unfolding get_or_alloc_regionmap_def n ab using a assms(1) by (auto simp: lookup_def)
  next
    case (Some row)
    then show ?thesis unfolding get_or_alloc_regionmap_def n ab using a by auto
  qed
qed

lemma set_pages_spec:
  assumes row: "\<forall>mp. malloc_row mp" and "unat mp * 2 ^ 26 + unat page + n \<le> 2 ^ 50"
  shows "\<exists>m'. set_pages malloc_row mp page n r m = Inr m'
    \<and> (\<forall>v < 2 ^ 50. lookup m' v = (if unat mp * 2 ^ 26 + unat page \<le> v \<and> v < unat mp * 2 ^ 26 + unat page + n
          then Some r else lookup m v))"
  using assms(2)
proof (induction n arbitrary: page m)
  case 0
  then show ?case by auto
next
  case (Suc n)
  let ?v = "unat mp * 2 ^ 26 + unat page"
  have v: "?v < 2 ^ 50" using Suc.prems by simp
  obtain a b m1 rw where g: "get_or_alloc_regionmap malloc_row mp page m = Inr ((a, b), m1)"
      "slot_of ?v = (a, b)" "m1 a = Some rw" "\<And>v. lookup m1 v = lookup m v"
    using get_or_alloc_spec [OF row v, where m = m] by (metis fst_conv surj_pair)
  let ?m = "m1(a := Some (rw(b := Some r)))"
  have s: "set_page_region malloc_row mp page r m = Inr ?m"
    using g(1,3) by (simp add: set_page_region_def)
  have look: "lookup ?m w = (if w = ?v then Some r else lookup m w)" if "w < 2 ^ 50" for w
  proof (cases "w = ?v")
    case True
    then show ?thesis using g(2) by (simp add: lookup_def)
  next
    case False
    then have "slot_of w \<noteq> (a, b)" using slot_of_inj [OF that v] g(2) by simp
    moreover have "lookup ?m w = lookup m1 w" if "slot_of w \<noteq> (a, b)"
      using that g(3) by (cases "slot_of w") (auto simp: lookup_def)
    ultimately show ?thesis using g(4) False by simp
  qed
  have "unat page < 2 ^ 50" using v by simp
  then have p1: "unat (page + 1) = unat page + 1" by (simp add: unat_word_ariths(1))
  have "unat mp * 2 ^ 26 + unat (page + 1) + n \<le> 2 ^ 50" using Suc.prems p1 by simp
  then obtain m' where m': "set_pages malloc_row mp (page + 1) n r ?m = Inr m'"
      "\<forall>v < 2 ^ 50. lookup m' v = (if unat mp * 2 ^ 26 + unat (page + 1) \<le> v \<and> v < unat mp * 2 ^ 26 + unat (page + 1) + n
          then Some r else lookup ?m v)"
    using Suc.IH [of "page + 1" ?m] by blast
  then show ?case using s look p1 by auto
qed

lemma regionof_keeps:
  assumes "\<forall>mp. malloc_row mp"
  shows "\<exists>m2. regionof malloc_row q m = Inr (lookup m (pageno q), m2) \<and> (\<forall>v. lookup m2 v = lookup m v)"
proof -
  obtain m' row where g: "get_or_alloc_regionmap malloc_row (MAPNB q) (PAGENB q) m = Inr (slot_of (pageno q), m')"
      "\<And>v. lookup m' v = lookup m v"
    using get_or_alloc_spec [OF assms, where mp = "MAPNB q" and page = "PAGENB q" and m = m] pageno_lt [of q] unfolding page_value by auto
  have "regionof malloc_row q m = Inr (lookup m' (pageno q), m')"
    using g(1) by (simp add: regionof_def lookup_def case_prod_beta)
  then show ?thesis using g(2) by simp
qed

lemma regionof_lookup:
  assumes "\<forall>mp. malloc_row mp"
  shows "\<exists>m2. regionof malloc_row q m = Inr (lookup m (pageno q), m2)"
  using regionof_keeps [OF assms] by blast

lemma set_region_lookup:
  assumes "\<forall>mp. malloc_row mp" and "unat n < 2 ^ 31" and "pageno p + unat n \<le> 2 ^ 50"
  shows "\<exists>m'. set_region malloc_row p n r m = Inr m'
    \<and> (\<forall>v < 2 ^ 50. lookup m' v = (if pageno p \<le> v \<and> v < pageno p + unat n then Some r else lookup m v))"
proof -
  have n: "nat (sint n) = unat n" using sint_small [OF assms(2)] by simp
  show ?thesis unfolding set_region_def n
    using set_pages_spec [OF assms(1), where mp = "MAPNB p" and page = "PAGENB p" and n = "unat n" and r = r and m = m] assms(3) unfolding page_value by simp
qed

section \<open>Property\<close>

text \<open>
  C34: marking \<open>n\<close> pages from the page of \<open>p\<close> on, within the address space, succeeds; then for
  every address of these pages \<open>regionof\<close> finds the region, and for every other address what it
  found before, also where the run of pages crosses from one row of the map into the next.
\<close>

theorem regionof_set_region:
  assumes "\<forall>mp. malloc_row mp" and "unat n < 2 ^ 31" and "pageno p + unat n \<le> 2 ^ 50"
  shows "\<exists>m'. set_region malloc_row p n r m = Inr m'
    \<and> (\<forall>q. \<exists>x m1 m2. regionof malloc_row q m = Inr (x, m1)
          \<and> regionof malloc_row q m' =
            Inr (if pageno p \<le> pageno q \<and> pageno q < pageno p + unat n then Some r else x, m2))"
proof -
  obtain m' where m': "set_region malloc_row p n r m = Inr m'"
      "\<forall>v < 2 ^ 50. lookup m' v = (if pageno p \<le> v \<and> v < pageno p + unat n then Some r else lookup m v)"
    using set_region_lookup [where malloc_row = malloc_row and n = n and p = p and m = m and r = r] assms by blast
  have "\<exists>x m1 m2. regionof malloc_row q m = Inr (x, m1) \<and> regionof malloc_row q m' =
      Inr (if pageno p \<le> pageno q \<and> pageno q < pageno p + unat n then Some r else x, m2)" for q
    using regionof_lookup [where malloc_row = malloc_row and q = q and m = m]
      regionof_lookup [where malloc_row = malloc_row and q = q and m = m'] assms(1) m'(2) pageno_lt [of q]
    by auto
  then show ?thesis using m'(1) by blast
qed

text \<open>Two pages on both sides of the end of the first row.\<close>

theorem regionof_set_region_witness:
  "\<exists>m' m2. set_region (\<lambda>_. True) 0xFFFFFFC000 2 7 (\<lambda>_. None) = Inr m'
     \<and> regionof (\<lambda>_. True) 0x10000000000 m' = Inr (Some 7, m2)"
proof -
  have p: "pageno 0xFFFFFFC000 = 0x3FFFFFF" "pageno 0x10000000000 = 0x4000000" by (simp_all add: pageno_def)
  obtain m' where m': "set_region (\<lambda>_. True) 0xFFFFFFC000 2 7 (\<lambda>_. None) = Inr m'"
      "\<forall>q. \<exists>x m1 m2. regionof (\<lambda>_. True) q (\<lambda>_. None) = Inr (x, m1) \<and> regionof (\<lambda>_. True) q m' =
        Inr (if pageno 0xFFFFFFC000 \<le> pageno q \<and> pageno q < pageno 0xFFFFFFC000 + unat (2 :: u32) then Some 7 else x, m2)"
    using regionof_set_region [where malloc_row = "\<lambda>_. True" and n = 2 and p = "0xFFFFFFC000" and r = 7 and m = "\<lambda>_. None"] p by auto
  obtain m2 where "regionof (\<lambda>_. True) 0x10000000000 m' = Inr (Some 7, m2)"
    using m'(2) [rule_format, of "0x10000000000"] p by auto
  then show ?thesis using m'(1) by blast
qed

end
