(* ===== verification/Regions.thy ===== *)
theory Regions
  imports Pages_Room Region_Map
begin

text \<open>
  \<open>src/alloc.c\<close> and \<open>src/regions.c\<close>: objects are allocated by moving a pointer through the pages
  of a region, regions form a tree, and deleting a region gives all its pages back.  The header of
  a region lies in its first page; headers form a store indexed by address, 0 is the null pointer.
  The contents of objects are not modelled: \<open>clear\<close> is the list of the addresses it writes.
\<close>

section \<open>Data\<close>

record ablock =
  base :: u64
  allocfrom :: u64

record region =
  a_page :: ablock
  superpage :: ablock
  hyperpage :: ablock
  a_pages :: u64
  a_bigpages :: u64
  r_parent :: u64
  r_sibling :: u64
  r_children :: u64
  r_lock :: u32

text \<open>\<open>words\<close> holds the size words that \<open>rstrextend\<close> stores in front of its objects.\<close>

record region_sys =
  pg :: pages_state
  regs :: "u64 \<Rightarrow> region"
  rmap :: region_map
  words :: "u64 \<Rightarrow> u64"

text \<open>The C library, and how often the search for a free list is tried.\<close>

record platform =
  p_malloc :: malloc_fun
  p_rand :: rand_fun
  p_row :: "u64 \<Rightarrow> bool"
  p_spins :: nat

text \<open>\<open>offsetof(struct page, previous)\<close> and \<open>sizeof(struct region_)\<close> on x86-64.\<close>

definition PAGE_PREVIOUS :: u64 where "PAGE_PREVIOUS = 32"
definition REGION_SIZE :: u64 where "REGION_SIZE = 96"
definition RALIGNMENT :: u32 where "RALIGNMENT = 8"
definition ALIGNMENT_LONG :: u32 where "ALIGNMENT_LONG = 8"

definition ALIGN :: "u32 \<Rightarrow> u32 \<Rightarrow> u32" where
  "ALIGN x n = (x + (n - 1)) AND NOT (n - 1)"

definition upd_reg :: "u64 \<Rightarrow> (region \<Rightarrow> region) \<Rightarrow> region_sys \<Rightarrow> region_sys" where
  "upd_reg r f st = st\<lparr>regs := (regs st)(r := f (regs st r))\<rparr>"

definition on_pages :: "(pages_state \<Rightarrow> (u64 \<times> pages_state) res) \<Rightarrow> region_sys \<Rightarrow> (u64 \<times> region_sys) res" where
  "on_pages f st = ebind (f (pg st)) (\<lambda>(p, s). Inr (p, st\<lparr>pg := s\<rparr>))"

definition mark_region :: "platform \<Rightarrow> u64 \<Rightarrow> u32 \<Rightarrow> u64 \<Rightarrow> region_sys \<Rightarrow> region_sys res" where
  "mark_region plat p n r st = ebind (set_region (p_row plat) p n r (rmap st)) (\<lambda>m. Inr (st\<lparr>rmap := m\<rparr>))"

definition set_available :: "u64 \<Rightarrow> u64 \<Rightarrow> region_sys \<Rightarrow> region_sys" where
  "set_available p a st = st\<lparr>pg := upd_page p (\<lambda>q. q\<lparr>available := a\<rparr>) (pg st)\<rparr>"

text \<open>The loop of \<open>clear\<close> over 8-byte words: its test comes after the store.\<close>

function clear_loop :: "nat \<Rightarrow> nat \<Rightarrow> nat list" where
  "clear_loop p e = p # (if p + 8 < e then clear_loop (p + 8) e else [])"
  by pat_completeness auto

termination by (relation "measure (\<lambda>(p, e). e - p)") auto

declare clear_loop.simps [simp del]

definition clear :: "u64 \<Rightarrow> u64 \<Rightarrow> nat list" where
  "clear start sz = clear_loop (unat start) (unat (start + sz))"

section \<open>Allocation\<close>

definition alloc_block :: "platform \<Rightarrow> u64 \<Rightarrow> u32 \<Rightarrow> u32 \<Rightarrow> u32 \<Rightarrow> u32 \<Rightarrow> u64 \<Rightarrow> region_sys \<Rightarrow>
    ((u64 \<times> u64) \<times> region_sys) res" where
  "alloc_block plat r s1 a1 s2 a2 blksize st =
     (let mem1 = PALIGN (allocfrom (a_page (regs st r))) (scast a1);
          mem2 = PALIGN (mem1 + scast s1) (scast a2)
      in ebind
        (if mem2 + scast s2 \<ge> base (a_page (regs st r)) + blksize then
           if blksize = RPAGESIZE then
             ebind (on_pages (alloc_single_page (p_rand plat) (p_malloc plat) (p_spins plat)
                      (a_pages (regs st r))) st) (\<lambda>(newp, st).
             let st = upd_reg r (\<lambda>g. g\<lparr>a_pages := newp,
                        a_page := (a_page g)\<lparr>allocfrom := newp + PAGE_PREVIOUS\<rparr>\<rparr>) st;
                 st = set_available newp (newp + PAGE_PREVIOUS) st
             in ebind (mark_region plat newp 1 r st) (\<lambda>st.
                Inr (upd_reg r (\<lambda>g. g\<lparr>a_page := (a_page g)\<lparr>base := newp\<rparr>\<rparr>) st)))
           else
             ebind (on_pages (alloc_pages (p_rand plat) (p_malloc plat) (p_spins plat)
                      (ucast (drop_bit RPAGELOG blksize)) (a_bigpages (regs st r))) st) (\<lambda>(newp, st).
             let st = upd_reg r (\<lambda>g. g\<lparr>a_bigpages := newp,
                        a_page := (a_page g)\<lparr>allocfrom := newp + PAGE_PREVIOUS\<rparr>\<rparr>) st;
                 st = set_available newp (newp + PAGE_PREVIOUS) st
             in ebind (mark_region plat newp (ucast (drop_bit RPAGELOG blksize)) r st) (\<lambda>st.
                Inr (upd_reg r (\<lambda>g. g\<lparr>a_page := (a_page g)\<lparr>base := newp\<rparr>\<rparr>) st)))
         else Inr st) (\<lambda>st.
      let mem1 = PALIGN (allocfrom (a_page (regs st r))) (scast a1);
          mem2 = PALIGN (mem1 + scast s1) (scast a2);
          st = upd_reg r (\<lambda>g. g\<lparr>a_page := (a_page g)\<lparr>allocfrom := mem2 + scast s2\<rparr>\<rparr>) st;
          st = set_available (base (a_page (regs st r))) (mem2 + scast s2) st
      in Inr ((mem1, mem2), st)))"

definition qalloc :: "platform \<Rightarrow> u64 \<Rightarrow> u32 \<Rightarrow> u32 \<Rightarrow> u32 \<Rightarrow> u32 \<Rightarrow> region_sys \<Rightarrow>
    ((u64 \<times> u64) \<times> region_sys) res" where
  "qalloc plat r s1 a1 s2 a2 st =
     (let n = ALIGN s1 a2 + s2;
          blk = a_page (regs st r);
          mem1 = PALIGN (allocfrom blk) (scast a1);
          mem2 = PALIGN (mem1 + scast s1) (scast a2)
      in if mem2 + scast s2 < base blk + RPAGESIZE then
           let st = upd_reg r (\<lambda>g. g\<lparr>a_page := (a_page g)\<lparr>allocfrom := mem2 + scast s2\<rparr>\<rparr>) st
           in Inr ((mem1, mem2), set_available (base blk) (mem2 + scast s2) st)
         else if scast n \<le> RPAGESIZE div K then alloc_block plat r s1 a1 s2 a2 RPAGESIZE st
         else
           let npages = ucast (drop_bit RPAGELOG (scast n + PALIGN PAGE_PREVIOUS (scast a1) + RPAGESIZE)) :: u32
           in ebind (on_pages (alloc_pages (p_rand plat) (p_malloc plat) (p_spins plat) npages
                (a_bigpages (regs st r))) st) (\<lambda>(p, st).
              let st = upd_reg r (\<lambda>g. g\<lparr>a_bigpages := p\<rparr>) st
              in ebind (mark_region plat p npages r st) (\<lambda>st.
                 let p1 = PALIGN (p + PAGE_PREVIOUS) (scast a1);
                     p2 = PALIGN (p1 + scast s1) (scast a2)
                 in Inr ((p1, p2), set_available p (p2 + scast s2) st))))"

definition rc_rstralloc :: "platform \<Rightarrow> u64 \<Rightarrow> u64 \<Rightarrow> region_sys \<Rightarrow> (u64 \<times> region_sys) res" where
  "rc_rstralloc plat r sz st =
     ebind (qalloc plat r 0 1 (ucast sz) RALIGNMENT st) (\<lambda>((_, mem), st). Inr (mem, st))"

text \<open>The variants that clear return the addresses they write as well.\<close>

definition rc_rstralloc0 :: "platform \<Rightarrow> u64 \<Rightarrow> u64 \<Rightarrow> region_sys \<Rightarrow> ((u64 \<times> nat list) \<times> region_sys) res" where
  "rc_rstralloc0 plat r sz st =
     ebind (rc_rstralloc plat r sz st) (\<lambda>(mem, st). Inr ((mem, clear mem sz), st))"

text \<open>The new object, the number of bytes copied from the old one, and the addresses cleared.\<close>

definition internal_rstrextend :: "platform \<Rightarrow> u64 \<Rightarrow> u64 \<Rightarrow> u64 \<Rightarrow> bool \<Rightarrow> region_sys \<Rightarrow>
    ((u64 \<times> u64 \<times> nat list) \<times> region_sys) res" where
  "internal_rstrextend plat r old newsize needsclear st =
     ebind (qalloc plat r 8 ALIGNMENT_LONG (ucast newsize) RALIGNMENT st) (\<lambda>((_, newmem), st).
     let st = st\<lparr>words := (words st)(newmem - 8 := newsize)\<rparr>
     in if old \<noteq> 0 then
          let oldsize = words st (old - scast ALIGNMENT_LONG)
          in if oldsize > newsize then Inr ((newmem, newsize, []), st)
             else Inr ((newmem, oldsize, if needsclear then clear (newmem + oldsize) (newsize - oldsize) else []), st)
        else Inr ((newmem, 0, if needsclear then clear newmem newsize else []), st))"

definition rc_ralloc_small0 :: "platform \<Rightarrow> u64 \<Rightarrow> u64 \<Rightarrow> region_sys \<Rightarrow> ((u64 \<times> nat list) \<times> region_sys) res" where
  "rc_ralloc_small0 plat r sz st =
     (let mem2 = PALIGN (allocfrom (a_page (regs st r))) (scast RALIGNMENT)
      in if mem2 + sz \<ge> base (a_page (regs st r)) + RPAGESIZE then rc_rstralloc0 plat r sz st
         else
           let st = upd_reg r (\<lambda>g. g\<lparr>a_page := (a_page g)\<lparr>allocfrom := mem2 + sz\<rparr>\<rparr>) st;
               st = set_available (base (a_page (regs st r))) (mem2 + sz) st
           in Inr ((mem2, clear mem2 sz), st))"

definition rc_typed_rarrayalloc :: "platform \<Rightarrow> u64 \<Rightarrow> u64 \<Rightarrow> u64 \<Rightarrow> region_sys \<Rightarrow>
    ((u64 \<times> nat list) \<times> region_sys) res" where
  "rc_typed_rarrayalloc plat r n sz st = rc_rstralloc0 plat r (n * sz) st"

definition rc_typed_rarrayextend :: "platform \<Rightarrow> u64 \<Rightarrow> u64 \<Rightarrow> u64 \<Rightarrow> u64 \<Rightarrow> region_sys \<Rightarrow>
    ((u64 \<times> u64 \<times> nat list) \<times> region_sys) res" where
  "rc_typed_rarrayextend plat r old n sz st = internal_rstrextend plat r old (n * sz) True st"

section \<open>The tree of regions\<close>

text \<open>With one thread in the library a lock that is held is never released.\<close>

definition acquire_region :: "u64 \<Rightarrow> region_sys \<Rightarrow> region_sys res" where
  "acquire_region r st =
     (let (old, l) = v_atomic_test_and_set (r_lock (regs st r))
      in if old = LOCKED then Inl Spins else Inr (upd_reg r (\<lambda>g. g\<lparr>r_lock := l\<rparr>) st))"

definition release_region :: "u64 \<Rightarrow> region_sys \<Rightarrow> region_sys" where
  "release_region r st = upd_reg r (\<lambda>g. g\<lparr>r_lock := release_spinlock (r_lock g)\<rparr>) st"

definition nochildren :: "u64 \<Rightarrow> region_sys \<Rightarrow> region_sys res" where
  "nochildren r st = (if r_children (regs st r) \<noteq> 0 then Inl Aborted else Inr st)"

text \<open>\<open>unlink_region\<close> walks a pointer to the link under inspection.\<close>

datatype link = ChildrenOf u64 | SiblingOf u64

fun read_link :: "region_sys \<Rightarrow> link \<Rightarrow> u64" where
  "read_link st (ChildrenOf p) = r_children (regs st p)"
| "read_link st (SiblingOf p) = r_sibling (regs st p)"

fun write_link :: "link \<Rightarrow> u64 \<Rightarrow> region_sys \<Rightarrow> region_sys" where
  "write_link (ChildrenOf p) v st = upd_reg p (\<lambda>g. g\<lparr>r_children := v\<rparr>) st"
| "write_link (SiblingOf p) v st = upd_reg p (\<lambda>g. g\<lparr>r_sibling := v\<rparr>) st"

primrec unlink_loop :: "nat \<Rightarrow> u64 \<Rightarrow> link \<Rightarrow> region_sys \<Rightarrow> region_sys res" where
  "unlink_loop 0 r scan st = Inl OutOfFuel"
| "unlink_loop (Suc n) r scan st =
     (if read_link st scan = r then Inr (write_link scan (r_sibling (regs st r)) st)
      else if read_link st scan = 0 then Inl NullDeref
      else unlink_loop n r (SiblingOf (read_link st scan)) st)"

definition unlink_region :: "nat \<Rightarrow> u64 \<Rightarrow> region_sys \<Rightarrow> region_sys res" where
  "unlink_region fuel r st = unlink_loop fuel r (ChildrenOf (r_parent (regs st r))) st"

definition link_region :: "u64 \<Rightarrow> u64 \<Rightarrow> region_sys \<Rightarrow> region_sys" where
  "link_region r par st =
     (let st = upd_reg r (\<lambda>g. g\<lparr>r_sibling := r_children (regs st par)\<rparr>) st;
          st = upd_reg r (\<lambda>g. g\<lparr>r_parent := par\<rparr>) st
      in upd_reg par (\<lambda>g. g\<lparr>r_children := r\<rparr>) st)"

primrec check_loop :: "nat \<Rightarrow> u64 \<Rightarrow> u64 \<Rightarrow> region_sys \<Rightarrow> region_sys res" where
  "check_loop 0 r scan st = (if scan = 0 then Inr st else Inl OutOfFuel)"
| "check_loop (Suc n) r scan st =
     (if scan = 0 then Inr st
      else if scan = r then Inl Aborted
      else check_loop n r (r_sibling (regs st scan)) st)"

definition check_region :: "nat \<Rightarrow> u64 \<Rightarrow> u64 \<Rightarrow> region_sys \<Rightarrow> region_sys res" where
  "check_region fuel r par st = check_loop fuel r (r_children (regs st par)) st"

definition zero_region :: region where
  "zero_region = \<lparr>a_page = \<lparr>base = 0, allocfrom = 0\<rparr>, superpage = \<lparr>base = 0, allocfrom = 0\<rparr>,
     hyperpage = \<lparr>base = 0, allocfrom = 0\<rparr>, a_pages = 0, a_bigpages = 0, r_parent = 0, r_sibling = 0,
     r_children = 0, r_lock = 0\<rparr>"

definition initregion :: "platform \<Rightarrow> u64 \<Rightarrow> region_sys \<Rightarrow> region_sys res" where
  "initregion plat r st =
     (let first = r - 0 - PAGE_PREVIOUS;
          st = upd_reg r (\<lambda>g. g\<lparr>a_page := \<lparr>base = first, allocfrom = r + REGION_SIZE\<rparr>,
                 superpage := (superpage g)\<lparr>allocfrom := K * RPAGESIZE + 1\<rparr>,
                 hyperpage := (hyperpage g)\<lparr>allocfrom := K * K * RPAGESIZE + 1\<rparr>,
                 a_pages := first\<rparr>) st
      in ebind (mark_region plat first 1 r st) (\<lambda>st.
         Inr (upd_reg r (\<lambda>g. g\<lparr>r_parent := 0, r_sibling := 0, r_children := 0\<rparr>) st)))"

definition newsubregion :: "platform \<Rightarrow> nat \<Rightarrow> u64 \<Rightarrow> region_sys \<Rightarrow> (u64 \<times> region_sys) res" where
  "newsubregion plat fuel par st =
     ebind (if par \<noteq> 0 then acquire_region par st else Inr st) (\<lambda>st.
     ebind (on_pages (alloc_single_page (p_rand plat) (p_malloc plat) (p_spins plat) 0) st) (\<lambda>(first, st).
     let r = first + 0 + PAGE_PREVIOUS;
         st = upd_reg r (\<lambda>_. zero_region) st
     in ebind (initregion plat r st) (\<lambda>st.
        let st = set_available first (allocfrom (a_page (regs st r))) st
        in if par \<noteq> 0 then
             ebind (c_assert (r \<noteq> par)) (\<lambda>_.
             ebind (check_region fuel r par st) (\<lambda>st.
             Inr (r, release_region par (link_region r par st))))
           else Inr (r, st))))"

definition free_all_pages :: "platform \<Rightarrow> nat \<Rightarrow> u64 \<Rightarrow> region_sys \<Rightarrow> region_sys res" where
  "free_all_pages plat fuel r st =
     ebind (free_list (free_single_page (p_rand plat) (p_spins plat)) nxt fuel (a_pages (regs st r)) (pg st)) (\<lambda>s.
     ebind (free_list (free_pages (p_rand plat) (p_spins plat)) nxt fuel (a_bigpages (regs st r)) s) (\<lambda>s.
     Inr (st\<lparr>pg := s\<rparr>)))"

definition delregion :: "platform \<Rightarrow> nat \<Rightarrow> u64 \<Rightarrow> region_sys \<Rightarrow> region_sys res" where
  "delregion plat fuel r st = ebind (nochildren r st) (free_all_pages plat fuel r)"

definition deleteregion :: "platform \<Rightarrow> nat \<Rightarrow> u64 \<Rightarrow> region_sys \<Rightarrow> region_sys res" where
  "deleteregion plat fuel r st =
     ebind (if r_parent (regs st r) \<noteq> 0 then
              ebind (acquire_region (r_parent (regs st r)) st) (unlink_region fuel r)
            else Inr st) (\<lambda>st.
     ebind (delregion plat fuel r st) (\<lambda>st.
     Inr (if r_parent (regs st r) \<noteq> 0 then release_region (r_parent (regs st r)) st else st)))"

definition deleteregion_array :: "platform \<Rightarrow> nat \<Rightarrow> u64 list \<Rightarrow> region_sys \<Rightarrow> region_sys res" where
  "deleteregion_array plat fuel regions = efold (deleteregion plat fuel) regions"

end
