(* ===== verification/Regions_Ok.thy ===== *)
theory Regions_Ok
  imports Regions
begin

text \<open>
  Regions are sound as long as objects are small: objects stay inside pages the region owns, do not
  overlap, and deleting the region gives every page back.  The tree operations terminate and link
  and unlink exactly one region.  Sizes of 4 GiB are truncated.
\<close>

section \<open>Well-formed regions\<close>

definition platform_ok :: "platform \<Rightarrow> bool" where
  "platform_ok plat \<longleftrightarrow> malloc_ok (p_malloc plat) \<and> (\<forall>m. p_row plat m) \<and> 0 < p_spins plat"

text \<open>The region at \<open>r\<close> owns the pages \<open>ps\<close> and allocates from one of them.\<close>

definition avail :: "'z pages_state_scheme \<Rightarrow> u64 \<Rightarrow> u64" where
  "avail s q = available (page_at s q)"

definition kept_count :: "platform \<Rightarrow> 'z pages_state_scheme \<Rightarrow> 'z pages_state_scheme \<Rightarrow> bool" where
  "kept_count plat s s' \<longleftrightarrow> (mem_bounded (p_malloc plat) \<and> accounted s \<longrightarrow> accounted s')"

definition region_ok :: "u64 set \<Rightarrow> region_sys \<Rightarrow> u64 \<Rightarrow> u64 list \<Rightarrow> bool" where
  "region_ok U st r ps \<longleftrightarrow>
     chain (nxt (pg st)) (a_pages (regs st r)) ps \<and> distinct ps \<and> set ps \<subseteq> U
     \<and> base (a_page (regs st r)) \<in> set ps
     \<and> unat (base (a_page (regs st r))) + 32 \<le> unat (allocfrom (a_page (regs st r)))
     \<and> unat (allocfrom (a_page (regs st r))) < unat (base (a_page (regs st r))) + 16384"

lemma upd_reg_simps [simp]:
  "regs (upd_reg r f st) = (regs st)(r := f (regs st r))" "pg (upd_reg r f st) = pg st"
  "rmap (upd_reg r f st) = rmap st" "words (upd_reg r f st) = words st"
  "regs (set_available p a st) = regs st" "rmap (set_available p a st) = rmap st"
  "words (set_available p a st) = words st"
  "nxt (pg (set_available p a st)) = nxt (pg st)"
  "total_page_count (pg (set_available p a st)) = total_page_count (pg st)"
  by (simp_all add: upd_reg_def set_available_def nxt_upd_page) (simp add: nxt_def fun_eq_iff)

lemma avail_available [simp]: "avail (pg (set_available p a st)) = (avail (pg st))(p := a)"
  by (auto simp: avail_def set_available_def upd_page_def)

lemma accounted_available [simp]: "accounted (pg (set_available p a st)) = accounted (pg st)"
  by (simp add: accounted_def set_available_def)

lemma kept_available [simp]: "kept_count plat s (pg (set_available p a st)) = kept_count plat s (pg st)"
  by (simp add: kept_count_def)

lemma kept_same [simp]: "kept_count plat s s"
  by (simp add: kept_count_def)

lemma pages_inv_available [simp]: "pages_inv U (pg (set_available p a st)) = pages_inv U (pg st)"
proof -
  have "nxt (pg (set_available p a st)) = nxt (pg st)" by simp
  then show ?thesis
    unfolding pages_inv_def lists_inv_def list_ok_def page_ok_def by (simp add: set_available_def)
qed

lemma room_available [simp]: "room (pg (set_available p a st)) = room (pg st)"
  by (simp add: room_def)

lemma mark_region_ok:
  assumes "platform_ok plat"
  shows "\<exists>m. mark_region plat p 1 r st = Inr (st\<lparr>rmap := m\<rparr>)"
proof -
  have row: "\<forall>m. p_row plat m" using assms by (simp add: platform_ok_def)
  have "pageno p + unat (1 :: u32) \<le> 2 ^ 50" using pageno_lt [of p] by simp
  then obtain m where "set_region (p_row plat) p 1 r (rmap st) = Inr m"
    using set_region_lookup [OF row, where n = 1 and p = p and m = "rmap st" and r = r] by auto
  then show ?thesis by (auto simp: mark_region_def)
qed

lemma align8:
  assumes "unat m + 8 < 2 ^ 64"
  shows "8 dvd unat (PALIGN m 8)" "unat m \<le> unat (PALIGN m 8)" "unat (PALIGN m 8) < unat m + 8"
  using PALIGN_pow2 [of m 3] assms by simp_all

lemma align1 [simp]: "PALIGN m 1 = m"
  by (simp add: PALIGN_def)

lemma align8_dvd: "8 dvd unat m \<Longrightarrow> unat m + 8 < 2 ^ 64 \<Longrightarrow> PALIGN m 8 = m"
proof -
  assume a: "8 dvd unat m" "unat m + 8 < 2 ^ 64"
  note b = align8 [OF a(2)]
  have "8 dvd unat (PALIGN m 8) - unat m" using a(1) b(1) by (rule dvd_diff_nat [rotated])
  moreover have "unat (PALIGN m 8) - unat m < 8" using b by linarith
  ultimately have "unat (PALIGN m 8) - unat m = 0" by (metis dvd_imp_le not_le neq0_conv)
  then show ?thesis using b(2) by (metis diff_is_0_eq le_antisym word_unat_eq_iff)
qed

lemma page_end:
  assumes "pages_inv U s" and "p \<in> U"
  shows "unat p + 32768 \<le> 2 ^ 64" "16384 dvd unat p" "8 dvd unat p" "p \<noteq> 0"
proof -
  have "page_ok s p" using assms by (auto simp: pages_inv_def lists_inv_def)
  then obtain b where "run_in p 1 b" by (auto simp: page_ok_def)
  then have r: "unat p + 16384 < 2 ^ 64" "16384 dvd unat p" "p \<noteq> 0" by (simp_all add: run_in_def)
  then obtain c where c: "unat p = 16384 * c" by (auto simp: dvd_def)
  have "16384 * (c + 1) < 16384 * 2 ^ 50" using r(1) c by simp
  then have "c + 1 < 2 ^ 50" by simp
  then show "unat p + 32768 \<le> 2 ^ 64" using c by simp
  show "16384 dvd unat p" "p \<noteq> 0" using r by auto
  have "unat p = 8 * (2048 * c)" using c by simp
  then show "8 dvd unat p" by simp
qed

text \<open>Getting a fresh page for a region.\<close>

lemma get_page_ok:
  assumes plat: "platform_ok plat" and inv: "pages_inv U (pg st)" and room: "room (pg st)"
  shows "on_pages (alloc_single_page (p_rand plat) (p_malloc plat) (p_spins plat) n) st = Inl Aborted
    \<or> (\<exists>p s'. on_pages (alloc_single_page (p_rand plat) (p_malloc plat) (p_spins plat) n) st = Inr (p, st\<lparr>pg := s'\<rparr>)
        \<and> p \<notin> U \<and> pages_inv (insert p U) s' \<and> nxt s' p = n \<and> (\<forall>q \<in> U. nxt s' q = nxt (pg st) q)
        \<and> avail s' = avail (pg st) \<and> kept_count plat (pg st) s')"
proof -
  obtain k where k: "p_spins plat = Suc k" using plat by (cases "p_spins plat") (auto simp: platform_ok_def)
  have m: "malloc_ok (p_malloc plat)" using plat by (simp add: platform_ok_def)
  consider "alloc_single_page (p_rand plat) (p_malloc plat) (Suc k) n (pg st) = Inl Aborted"
    | p s' where "alloc_single_page (p_rand plat) (p_malloc plat) (Suc k) n (pg st) = Inr (p, s')"
        "p \<notin> U" "pages_inv (insert p U) s'" "nxt s' p = n" "\<forall>q \<in> U. nxt s' q = nxt (pg st) q"
    using alloc_single_page_ok [OF inv m, of "p_rand plat" k n] room unfolding room_def by auto
  then show ?thesis
  proof cases
    case 1
    then show ?thesis by (simp add: on_pages_def k)
  next
    case 2
    then have "on_pages (alloc_single_page (p_rand plat) (p_malloc plat) (p_spins plat) n) st = Inr (p, st\<lparr>pg := s'\<rparr>)"
      by (simp add: on_pages_def k)
    moreover have "avail s' = avail (pg st)" "kept_count plat (pg st) s'"
      using alloc_single_page_frame [OF 2(1)] m by (auto simp: avail_def kept_count_def)
    ultimately show ?thesis using 2 by blast
  qed
qed

text \<open>A small object: in the current page when it fits, otherwise in a fresh one.\<close>

lemma rstralloc_small:
  assumes plat: "platform_ok plat" and inv: "pages_inv U (pg st)" and room: "room (pg st)"
    and reg: "region_ok U st r ps" and sz: "unat sz \<le> 4096"
  shows "rc_rstralloc plat r sz st = Inl Aborted
    \<or> (\<exists>mem st' U' ps'. rc_rstralloc plat r sz st = Inr (mem, st')
        \<and> pages_inv U' (pg st') \<and> region_ok U' st' r ps'
        \<and> 8 dvd unat mem \<and> unat (base (a_page (regs st' r))) + 32 \<le> unat mem
        \<and> unat mem + unat sz = unat (allocfrom (a_page (regs st' r)))
        \<and> (U' = U \<and> ps' = ps \<and> base (a_page (regs st' r)) = base (a_page (regs st r))
              \<and> unat (allocfrom (a_page (regs st r))) \<le> unat mem
            \<or> (\<exists>p. p \<notin> U \<and> U' = insert p U \<and> ps' = p # ps \<and> base (a_page (regs st' r)) = p))
        \<and> (\<forall>q. q \<noteq> r \<longrightarrow> regs st' q = regs st q)
        \<and> (\<exists>g :: region. regs st' r = (regs st r)\<lparr>a_page := a_page g, a_pages := a_pages g\<rparr>)
        \<and> (\<forall>q \<in> U. nxt (pg st') q = nxt (pg st) q) \<and> kept_count plat (pg st) (pg st')
        \<and> avail (pg st') = (avail (pg st))(base (a_page (regs st' r)) := allocfrom (a_page (regs st' r))))"
proof -
  let ?b = "base (a_page (regs st r))" and ?a = "allocfrom (a_page (regs st r))"
  let ?m = "PALIGN ?a 8"
  let ?s2 = "scast (ucast sz :: u32) :: u64"
  have usz: "unat (ucast sz :: u32) = unat sz" using sz by (simp add: unsigned_ucast_eq take_bit_nat_eq_self)
  then have s2: "unat ?s2 = unat sz" using sz by (subst scast_small) simp_all
  have b: "?b \<in> U" "unat ?b + 32 \<le> unat ?a" "unat ?a < unat ?b + 16384"
    using reg by (auto simp: region_ok_def)
  note be = page_end [OF inv b(1)]
  have m: "8 dvd unat ?m" "unat ?a \<le> unat ?m" "unat ?m < unat ?a + 8"
    using align8 [of ?a] b(3) be(1) by auto
  have ms: "unat (?m + ?s2) = unat ?m + unat sz"
    using m(3) b(3) be(1) s2 sz by (simp add: unat_plus_if')
  have bs: "unat (?b + RPAGESIZE) = unat ?b + 16384" using be(1) by (simp add: RPAGESIZE_eq unat_plus_if')
  have fits: "?m + ?s2 < ?b + RPAGESIZE \<longleftrightarrow> unat ?m + unat sz < unat ?b + 16384"
    by (simp add: word_less_nat_alt ms bs)
  have al: "scast RALIGNMENT = (8 :: u64)" "scast (0 :: u32) = (0 :: u64)" "scast (1 :: u32) = (1 :: u64)"
    by (simp_all add: RALIGNMENT_def)
  show ?thesis
  proof (cases "?m + ?s2 < ?b + RPAGESIZE")
    case True
    let ?st = "set_available ?b (?m + ?s2) (upd_reg r (\<lambda>g. g\<lparr>a_page := (a_page g)\<lparr>allocfrom := ?m + ?s2\<rparr>\<rparr>) st)"
    have e: "rc_rstralloc plat r sz st = Inr (?m, ?st)"
      using True by (simp add: rc_rstralloc_def qalloc_def Let_def al)
    have "region_ok U ?st r ps"
      using reg True fits ms m(2) b(2) by (simp add: region_ok_def)
    moreover have "\<exists>g :: region. regs ?st r = (regs st r)\<lparr>a_page := a_page g, a_pages := a_pages g\<rparr>"
      by (rule exI [of _ "regs ?st r"]) simp
    ultimately show ?thesis
      using e inv m b(2) ms
      by (intro disjI2 exI [of _ ?m] exI [of _ ?st] exI [of _ U] exI [of _ ps]) simp
  next
    case False
    have n: "ALIGN 0 RALIGNMENT + ucast sz = (ucast sz :: u32)" by (simp add: ALIGN_def RALIGNMENT_def)
    have small: "?s2 \<le> RPAGESIZE div K"
      using s2 sz by (simp add: word_le_nat_alt RPAGESIZE_eq K_def)
    have q: "qalloc plat r 0 1 (ucast sz) RALIGNMENT st = alloc_block plat r 0 1 (ucast sz) RALIGNMENT RPAGESIZE st"
      using False small unfolding qalloc_def n by (simp add: Let_def al)
    let ?get = "on_pages (alloc_single_page (p_rand plat) (p_malloc plat) (p_spins plat) (a_pages (regs st r))) st"
    consider "?get = Inl Aborted" | p s' where "?get = Inr (p, st\<lparr>pg := s'\<rparr>)" "p \<notin> U"
        "pages_inv (insert p U) s'" "nxt s' p = a_pages (regs st r)" "\<forall>q \<in> U. nxt s' q = nxt (pg st) q"
        "avail s' = avail (pg st)" "kept_count plat (pg st) s'"
      using get_page_ok [OF plat inv room, of "a_pages (regs st r)"] by blast
    then show ?thesis
    proof cases
      case 1
      then show ?thesis using False q by (simp add: rc_rstralloc_def alloc_block_def Let_def al not_less)
    next
      case 2
      have pe: "unat p + 32768 \<le> 2 ^ 64" "8 dvd unat p" "p \<noteq> 0" using page_end [OF 2(3), of p] by auto
      have p32: "unat (p + 32) = unat p + 32" using pe(1) by (simp add: unat_plus_if')
      then have pm: "PALIGN (p + 32) 8 = p + 32" using pe by (intro align8_dvd) auto
      have ps: "unat (p + 32 + ?s2) = unat p + 32 + unat sz"
        using pe(1) s2 sz p32 by (simp add: unat_plus_if')
      define st1 where "st1 = set_available p (p + PAGE_PREVIOUS) (upd_reg r (\<lambda>g. g\<lparr>a_pages := p,
          a_page := (a_page g)\<lparr>allocfrom := p + PAGE_PREVIOUS\<rparr>\<rparr>) (st\<lparr>pg := s'\<rparr>))"
      obtain mp where mp: "mark_region plat p 1 r st1 = Inr (st1\<lparr>rmap := mp\<rparr>)"
        using mark_region_ok [OF plat] by blast
      define st2 where "st2 = upd_reg r (\<lambda>g. g\<lparr>a_page := (a_page g)\<lparr>base := p\<rparr>\<rparr>) (st1\<lparr>rmap := mp\<rparr>)"
      define st3 where "st3 = set_available p (p + 32 + ?s2)
          (upd_reg r (\<lambda>g. g\<lparr>a_page := (a_page g)\<lparr>allocfrom := p + 32 + ?s2\<rparr>\<rparr>) st2)"
      have r2: "a_page (regs st2 r) = \<lparr>base = p, allocfrom = p + 32\<rparr>" "a_pages (regs st2 r) = p"
          "pages_inv (insert p U) (pg st2)" "nxt (pg st2) = nxt s'"
        using 2(3) by (simp_all add: st2_def st1_def PAGE_PREVIOUS_def)
      have e: "rc_rstralloc plat r sz st = Inr (p + 32, st3)"
        using False 2(1) mp r2(1) pm unfolding rc_rstralloc_def q alloc_block_def
        by (simp add: Let_def al not_less st1_def [symmetric] st2_def [symmetric] st3_def)
      have ch: "chain (nxt (pg st3)) p (p # ps)"
      proof -
        have "chain (nxt (pg st)) (a_pages (regs st r)) ps" "set ps \<subseteq> U" using reg by (auto simp: region_ok_def)
        moreover from this have "\<forall>q \<in> set ps. nxt s' q = nxt (pg st) q" using 2(5) by auto
        ultimately have "chain (nxt s') (a_pages (regs st r)) ps" by (metis chain_cong)
        then show ?thesis using pe(3) 2(4) r2(4) by (simp add: st3_def)
      qed
      have r3: "base (a_page (regs st3 r)) = p" "allocfrom (a_page (regs st3 r)) = p + 32 + ?s2"
          "a_pages (regs st3 r) = p" "pages_inv (insert p U) (pg st3)"
        using r2 by (simp_all add: st3_def)
      have fr: "\<forall>q \<in> U. nxt (pg st3) q = nxt (pg st) q" "kept_count plat (pg st) (pg st3)"
          "avail (pg st3) = (avail (pg st))(p := p + 32 + ?s2)"
        using 2(5,6,7) by (simp_all add: st3_def st2_def st1_def)
      have "region_ok (insert p U) st3 r (p # ps)"
        using reg ch 2(2) ps sz unfolding region_ok_def r3 by auto
      moreover have "\<exists>g :: region. regs st3 r = (regs st r)\<lparr>a_page := a_page g, a_pages := a_pages g\<rparr>"
        by (rule exI [of _ "regs st3 r"]) (simp add: st3_def st2_def st1_def)
      moreover have "\<forall>q. q \<noteq> r \<longrightarrow> regs st3 q = regs st q" by (simp add: st3_def st2_def st1_def)
      moreover have "8 dvd unat (p + 32)" using pe(2) p32 by simp
      ultimately show ?thesis
        using e r3 ps p32 2(2) fr by (intro disjI2 exI [of _ "p + 32"] exI [of _ st3] exI [of _ "insert p U"] exI [of _ "p # ps"]) simp
    qed
  qed
qed


section \<open>Creating and deleting\<close>

text \<open>A top-level region, as the runtime creates one for every task.\<close>

lemma newregion_ok:
  assumes plat: "platform_ok plat" and inv: "pages_inv U (pg st)" and room: "room (pg st)"
  shows "newsubregion plat fuel 0 st = Inl Aborted
    \<or> (\<exists>p st'. newsubregion plat fuel 0 st = Inr (p + 32, st') \<and> p \<notin> U \<and> pages_inv (insert p U) (pg st')
        \<and> region_ok (insert p U) st' (p + 32) [p]
        \<and> a_bigpages (regs st' (p + 32)) = 0 \<and> r_parent (regs st' (p + 32)) = 0
        \<and> r_children (regs st' (p + 32)) = 0 \<and> (\<forall>q. q \<noteq> p + 32 \<longrightarrow> regs st' q = regs st q)
        \<and> (\<forall>q \<in> U. nxt (pg st') q = nxt (pg st) q) \<and> kept_count plat (pg st) (pg st')
        \<and> a_page (regs st' (p + 32)) = \<lparr>base = p, allocfrom = p + 128\<rparr> \<and> a_pages (regs st' (p + 32)) = p
        \<and> avail (pg st') = (avail (pg st))(p := p + 128))"
proof -
  let ?get = "on_pages (alloc_single_page (p_rand plat) (p_malloc plat) (p_spins plat) 0) st"
  consider "?get = Inl Aborted" | p s' where "?get = Inr (p, st\<lparr>pg := s'\<rparr>)" "p \<notin> U"
      "pages_inv (insert p U) s'" "nxt s' p = 0" "\<forall>q \<in> U. nxt s' q = nxt (pg st) q"
      "avail s' = avail (pg st)" "kept_count plat (pg st) s'"
    using get_page_ok [OF plat inv room, of 0] by blast
  then show ?thesis
  proof cases
    case 1
    then show ?thesis by (simp add: newsubregion_def)
  next
    case 2
    have pe: "unat p + 32768 \<le> 2 ^ 64" "p \<noteq> 0" using page_end [OF 2(3), of p] by auto
    define st1 where "st1 = upd_reg (p + 32) (\<lambda>g. g\<lparr>a_page := \<lparr>base = p, allocfrom = p + 32 + REGION_SIZE\<rparr>,
        superpage := (superpage g)\<lparr>allocfrom := K * RPAGESIZE + 1\<rparr>,
        hyperpage := (hyperpage g)\<lparr>allocfrom := K * K * RPAGESIZE + 1\<rparr>, a_pages := p\<rparr>)
        (upd_reg (p + 32) (\<lambda>_. zero_region) (st\<lparr>pg := s'\<rparr>))"
    obtain mp where mp: "mark_region plat p 1 (p + 32) st1 = Inr (st1\<lparr>rmap := mp\<rparr>)"
      using mark_region_ok [OF plat] by blast
    define st2 where "st2 = set_available p (p + 32 + REGION_SIZE)
        (upd_reg (p + 32) (\<lambda>g. g\<lparr>r_parent := 0, r_sibling := 0, r_children := 0\<rparr>) (st1\<lparr>rmap := mp\<rparr>))"
    have e: "newsubregion plat fuel 0 st = Inr (p + 32, st2)"
      using 2(1) mp unfolding newsubregion_def initregion_def
      by (simp add: Let_def PAGE_PREVIOUS_def st1_def [symmetric]) (simp add: st2_def st1_def)
    have "unat (p + 32 + REGION_SIZE) = unat p + 128"
      using pe(1) by (simp add: REGION_SIZE_def unat_plus_if')
    then have "region_ok (insert p U) st2 (p + 32) [p]"
      using 2(4) pe(2) by (simp add: region_ok_def st2_def st1_def)
    moreover have "a_bigpages (regs st2 (p + 32)) = 0" "r_parent (regs st2 (p + 32)) = 0" "r_children (regs st2 (p + 32)) = 0"
      by (simp_all add: st2_def st1_def zero_region_def)
    moreover have "\<forall>q. q \<noteq> p + 32 \<longrightarrow> regs st2 q = regs st q" "pages_inv (insert p U) (pg st2)"
        "\<forall>q \<in> U. nxt (pg st2) q = nxt (pg st) q"
      using 2(3,5) by (simp_all add: st2_def st1_def)
    moreover have "kept_count plat (pg st) (pg st2)" "avail (pg st2) = (avail (pg st))(p := p + 128)"
        "a_page (regs st2 (p + 32)) = \<lparr>base = p, allocfrom = p + 128\<rparr>" "a_pages (regs st2 (p + 32)) = p"
      using 2(6,7) by (simp_all add: st2_def st1_def REGION_SIZE_def add.commute [of p 128])
    ultimately show ?thesis using e 2(2) by blast
  qed
qed

text \<open>Deleting a top-level region without children and big objects returns its pages.\<close>

lemma deleteregion_ok:
  assumes plat: "platform_ok plat" and inv: "pages_inv U (pg st)" and reg: "region_ok U st r ps"
    and big: "a_bigpages (regs st r) = 0" and top: "r_parent (regs st r) = 0"
    and leaf: "r_children (regs st r) = 0" and fuel: "length ps \<le> fuel"
  shows "\<exists>st'. deleteregion plat fuel r st = Inr st' \<and> pages_inv (U - set ps) (pg st')"
proof -
  obtain k where k: "p_spins plat = Suc k" using plat by (cases "p_spins plat") (auto simp: platform_ok_def)
  have m: "malloc_ok (p_malloc plat) \<and> pages_inv U (pg st)" using plat inv by (simp add: platform_ok_def)
  obtain s' where s': "free_list (free_single_page (p_rand plat) (Suc k)) nxt fuel (a_pages (regs st r)) (pg st) = Inr s'"
      "pages_inv (U - set ps) s'"
    using pool.free_list_ok [OF m, of "a_pages (regs st r)" ps fuel "p_rand plat" k] reg fuel
    by (auto simp: region_ok_def)
  have "free_list f nxt fuel 0 s' = Inr s'" for f by (cases fuel) simp_all
  then show ?thesis
    using s' top leaf big by (simp add: deleteregion_def delregion_def nochildren_def free_all_pages_def k)
qed

lemma nochildren_aborts:
  "r_children (regs st r) \<noteq> 0 \<Longrightarrow> delregion plat fuel r st = Inl Aborted"
  by (simp add: delregion_def nochildren_def)

section \<open>Links\<close>

definition sibs :: "region_sys \<Rightarrow> u64 \<Rightarrow> u64" where
  "sibs st q = r_sibling (regs st q)"

lemma unlink_loop_ok:
  assumes "chain (sibs st) (read_link st scan) xs" and "distinct xs" and "r \<in> set xs" and "length xs \<le> n"
    and "\<forall>p. scan = SiblingOf p \<longrightarrow> p \<notin> set xs"
  shows "\<exists>st'. unlink_loop n r scan st = Inr st' \<and> chain (sibs st') (read_link st' scan) (remove1 r xs)
    \<and> (\<forall>q. q \<notin> set xs \<and> scan \<noteq> SiblingOf q \<longrightarrow> sibs st' q = sibs st q)
    \<and> (\<forall>q. scan \<noteq> ChildrenOf q \<longrightarrow> r_children (regs st' q) = r_children (regs st q))
    \<and> (\<forall>q. r_parent (regs st' q) = r_parent (regs st q) \<and> r_lock (regs st' q) = r_lock (regs st q))"
  using assms
proof (induction n arbitrary: scan xs)
  case 0
  then show ?case by simp
next
  case (Suc n)
  then obtain a as where xs: "xs = a # as" by (cases xs) auto
  then have a: "read_link st scan = a" "a \<noteq> 0" "chain (sibs st) (sibs st a) as" "a \<notin> set as" "distinct as"
    using Suc.prems by auto
  show ?case
  proof (cases "a = r")
    case True
    have "\<forall>q \<in> set as. sibs (write_link scan (sibs st r) st) q = sibs st q"
      using Suc.prems(5) xs by (cases scan) (auto simp: sibs_def)
    then have "chain (sibs (write_link scan (sibs st r) st)) (sibs st r) as"
      using a(3) True by (metis chain_cong)
    moreover have "read_link (write_link scan (sibs st r) st) scan = sibs st r" by (cases scan) simp_all
    moreover have "\<forall>q. scan \<noteq> SiblingOf q \<longrightarrow> sibs (write_link scan (sibs st r) st) q = sibs st q"
        "\<forall>q. scan \<noteq> ChildrenOf q \<longrightarrow> r_children (regs (write_link scan (sibs st r) st) q) = r_children (regs st q)"
        "\<forall>q. r_parent (regs (write_link scan (sibs st r) st) q) = r_parent (regs st q)
          \<and> r_lock (regs (write_link scan (sibs st r) st) q) = r_lock (regs st q)"
      by (cases scan; auto simp: sibs_def)+
    moreover have "unlink_loop (Suc n) r scan st = Inr (write_link scan (sibs st r) st)"
      using True a(1) by (simp add: sibs_def)
    ultimately show ?thesis using True xs by (simp del: unlink_loop.simps)
  next
    case False
    then have r: "r \<in> set as" using Suc.prems(3) xs by simp
    have "chain (sibs st) (read_link st (SiblingOf a)) as" using a(3) by (simp add: sibs_def)
    then obtain st' where st': "unlink_loop n r (SiblingOf a) st = Inr st'"
        "chain (sibs st') (read_link st' (SiblingOf a)) (remove1 r as)"
        "\<forall>q. q \<notin> set as \<and> SiblingOf a \<noteq> SiblingOf q \<longrightarrow> sibs st' q = sibs st q"
        "\<forall>q. r_children (regs st' q) = r_children (regs st q)"
        "\<forall>q. r_parent (regs st' q) = r_parent (regs st q) \<and> r_lock (regs st' q) = r_lock (regs st q)"
      using Suc.IH [of "SiblingOf a" as] a r Suc.prems(4) xs by auto
    have "read_link st' scan = a"
    proof (cases scan)
      case (ChildrenOf p)
      then show ?thesis using st'(4) a(1) by simp
    next
      case (SiblingOf p)
      then have "p \<notin> set as" "p \<noteq> a" using Suc.prems(5) xs by auto
      then show ?thesis using st'(3) a(1) SiblingOf by (simp add: sibs_def)
    qed
    moreover have "chain (sibs st') (sibs st' a) (remove1 r as)"
      using st'(2) by (simp only: read_link.simps sibs_def [symmetric])
    moreover have "unlink_loop (Suc n) r scan st = Inr st'" using st'(1) a(1,2) False by simp
    ultimately show ?thesis using st'(3,4,5) a(2) False xs by (auto simp del: unlink_loop.simps)
  qed
qed


section \<open>The life of a region\<close>

text \<open>A region is created and small objects are allocated in it; \<open>objs\<close> are their intervals.\<close>

inductive region_run :: "platform \<Rightarrow> region_sys \<Rightarrow> u64 \<Rightarrow> (u64 \<times> u64) list \<Rightarrow> region_sys \<Rightarrow> bool"
  for plat st0 where
  run_new: "room (pg st0) \<Longrightarrow> newsubregion plat fuel 0 st0 = Inr (r, st) \<Longrightarrow> region_run plat st0 r [] st"
| run_object: "region_run plat st0 r objs st \<Longrightarrow> room (pg st) \<Longrightarrow> unat sz \<le> 4096 \<Longrightarrow>
    rc_rstralloc plat r sz st = Inr (mem, st') \<Longrightarrow> region_run plat st0 r ((mem, sz) # objs) st'"

text \<open>An object lies in a page behind the page header.\<close>

definition object_in :: "u64 \<times> u64 \<Rightarrow> u64 \<Rightarrow> bool" where
  "object_in ob p \<longleftrightarrow> 8 dvd unat (fst ob) \<and> unat p + 32 \<le> unat (fst ob)
     \<and> unat (fst ob) + unat (snd ob) < unat p + 16384"

definition life_inv :: "u64 set \<Rightarrow> region_sys \<Rightarrow> u64 \<Rightarrow> (u64 \<times> u64) list \<Rightarrow> u64 list \<Rightarrow> bool" where
  "life_inv U st r objs ps \<longleftrightarrow>
     pages_inv (U \<union> set ps) (pg st) \<and> set ps \<inter> U = {} \<and> region_ok (U \<union> set ps) st r ps
     \<and> a_bigpages (regs st r) = 0 \<and> r_parent (regs st r) = 0 \<and> r_children (regs st r) = 0
     \<and> (\<forall>ob \<in> set objs. \<exists>p \<in> set ps. object_in ob p
          \<and> (p = base (a_page (regs st r)) \<longrightarrow> unat (fst ob) + unat (snd ob) \<le> unat (allocfrom (a_page (regs st r)))))
     \<and> (\<forall>i < length objs. \<forall>j < i. apart (objs ! i) (objs ! j))"

lemma apart_pages:
  assumes "object_in a p" and "object_in b q" and "p \<noteq> q" and "16384 dvd unat p" and "16384 dvd unat q"
  shows "apart a b"
proof -
  obtain c d where cd: "unat p = 16384 * c" "unat q = 16384 * d" using assms(4,5) by (auto simp: dvd_def)
  have "c \<noteq> d" using cd assms(3) by (metis word_unat_eq_iff)
  then consider "c + 1 \<le> d" | "d + 1 \<le> c" by linarith
  then show ?thesis
  proof cases
    case 1
    then have "unat p + 16384 \<le> unat q" using cd by linarith
    then show ?thesis using assms(1,2) by (auto simp: object_in_def apart_def)
  next
    case 2
    then have "unat q + 16384 \<le> unat p" using cd by linarith
    then show ?thesis using assms(1,2) by (auto simp: object_in_def apart_def)
  qed
qed

lemma apart_sym: "apart a b = apart b a"
  by (auto simp: apart_def)

lemma pairwise_Cons:
  assumes "\<forall>i < length xs. \<forall>j < i. P (xs ! i) (xs ! j)" and "\<And>y. y \<in> set xs \<Longrightarrow> P y x"
  shows "\<forall>i < length (x # xs). \<forall>j < i. P ((x # xs) ! i) ((x # xs) ! j)"
proof (intro allI impI)
  fix i j assume ij: "i < length (x # xs)" "j < i"
  then obtain i' where i': "i = Suc i'" by (cases i) auto
  show "P ((x # xs) ! i) ((x # xs) ! j)"
  proof (cases j)
    case 0
    then show ?thesis using assms(2) ij i' by simp
  next
    case (Suc j')
    then show ?thesis using assms(1) ij i' by simp
  qed
qed

lemma life_object:
  assumes plat: "platform_ok plat" and inv: "life_inv U st r objs ps" and room: "room (pg st)"
    and sz: "unat sz \<le> 4096" and al: "rc_rstralloc plat r sz st = Inr (mem, st')"
  shows "\<exists>ps'. life_inv U st' r ((mem, sz) # objs) ps'"
proof -
  let ?b = "base (a_page (regs st r))"
  have l: "pages_inv (U \<union> set ps) (pg st)" "set ps \<inter> U = {}" "region_ok (U \<union> set ps) st r ps"
    and o: "\<And>ob. ob \<in> set objs \<Longrightarrow> \<exists>p \<in> set ps. object_in ob p
          \<and> (p = ?b \<longrightarrow> unat (fst ob) + unat (snd ob) \<le> unat (allocfrom (a_page (regs st r))))"
    and pw: "\<forall>i < length objs. \<forall>j < i. apart (objs ! i) (objs ! j)"
    using inv unfolding life_inv_def by blast+
  obtain U' ps' where n: "pages_inv U' (pg st')" "region_ok U' st' r ps'" "8 dvd unat mem"
      "unat (base (a_page (regs st' r))) + 32 \<le> unat mem"
      "unat mem + unat sz = unat (allocfrom (a_page (regs st' r)))"
    and c: "U' = U \<union> set ps \<and> ps' = ps \<and> base (a_page (regs st' r)) = ?b \<and> unat (allocfrom (a_page (regs st r))) \<le> unat mem
        \<or> (\<exists>p. p \<notin> U \<union> set ps \<and> U' = insert p (U \<union> set ps) \<and> ps' = p # ps \<and> base (a_page (regs st' r)) = p)"
    and g: "\<exists>g :: region. regs st' r = (regs st r)\<lparr>a_page := a_page g, a_pages := a_pages g\<rparr>"
    using rstralloc_small [OF plat l(1) room l(3) sz] al by auto
  let ?b' = "base (a_page (regs st' r))"
  have same: "a_bigpages (regs st' r) = 0" "r_parent (regs st' r) = 0" "r_children (regs st' r) = 0"
    using g inv by (auto simp: life_inv_def)
  have ob: "object_in (mem, sz) ?b'" using n by (simp add: object_in_def region_ok_def)
  have b': "?b' \<in> set ps'" "16384 dvd unat ?b'"
    using n(2) page_end(2) [OF n(1)] by (auto simp: region_ok_def)
  have dvd: "16384 dvd unat p" if "p \<in> set ps" for p
    using page_end(2) [OF l(1)] that by simp
  have sub: "U' = U \<union> set ps'" "set ps' \<inter> U = {}" "set ps \<subseteq> set ps'" using c l(2) by auto
  have old: "(\<exists>p \<in> set ps'. object_in x p \<and> (p = ?b' \<longrightarrow> unat (fst x) + unat (snd x) \<le> unat (allocfrom (a_page (regs st' r)))))
      \<and> apart x (mem, sz)" if x: "x \<in> set objs" for x
  proof -
    obtain p where p: "p \<in> set ps" "object_in x p"
        "p = ?b \<longrightarrow> unat (fst x) + unat (snd x) \<le> unat (allocfrom (a_page (regs st r)))"
      using o [OF x] by blast
    show ?thesis
    proof (cases "p = ?b'")
      case True
      then have "?b' = ?b" "unat (allocfrom (a_page (regs st r))) \<le> unat mem" using c p(1) by auto
      then have le: "unat (fst x) + unat (snd x) \<le> unat mem" using p(3) True by auto
      moreover have "apart x (mem, sz)" using le by (simp add: apart_def)
      ultimately show ?thesis using p(1,2) sub(3) n(5) by (intro conjI bexI [of _ p]) auto
    next
      case False
      then have "apart x (mem, sz)" using apart_pages [OF p(2) ob False dvd [OF p(1)] b'(2)] by simp
      then show ?thesis using p(1,2) sub(3) False by blast
    qed
  qed
  have pw': "\<forall>i < length ((mem, sz) # objs). \<forall>j < i. apart (((mem, sz) # objs) ! i) (((mem, sz) # objs) ! j)"
    by (rule pairwise_Cons [OF pw]) (use old in blast)
  have "life_inv U st' r ((mem, sz) # objs) ps'"
    unfolding life_inv_def
  proof (intro conjI)
    show "\<forall>x \<in> set ((mem, sz) # objs). \<exists>p \<in> set ps'. object_in x p
        \<and> (p = ?b' \<longrightarrow> unat (fst x) + unat (snd x) \<le> unat (allocfrom (a_page (regs st' r))))"
      using old ob b'(1) n(5) by auto
  qed (use n sub same pw' in simp_all)
  then show ?thesis ..
qed

lemma life_run:
  assumes plat: "platform_ok plat" and inv: "pages_inv U (pg st0)" and "region_run plat st0 r objs st"
  shows "\<exists>ps. life_inv U st r objs ps"
  using assms(3)
proof (induction rule: region_run.induct)
  case (run_new fuel r st)
  then obtain p where "r = p + 32" "p \<notin> U" "pages_inv (insert p U) (pg st)"
      "region_ok (insert p U) st (p + 32) [p]" "a_bigpages (regs st (p + 32)) = 0"
      "r_parent (regs st (p + 32)) = 0" "r_children (regs st (p + 32)) = 0"
    using newregion_ok [OF plat inv, of fuel] by auto
  then have "life_inv U st r [] [p]" by (simp add: life_inv_def)
  then show ?case ..
next
  case (run_object r objs st sz mem st')
  then show ?case using life_object [OF plat] by blast
qed

section \<open>Concrete states\<close>

definition plat_one :: platform where
  "plat_one = \<lparr>p_malloc = bump, p_rand = draw_zero, p_row = \<lambda>_. True, p_spins = 1\<rparr>"

definition regions_start :: region_sys where
  "regions_start = \<lparr>pg = pages_start, regs = \<lambda>_. zero_region, rmap = Map.empty, words = \<lambda>_. 0\<rparr>"

lemma plat_one_ok: "platform_ok plat_one"
  by (simp add: platform_ok_def plat_one_def bump_ok)

lemma regions_start_inv: "pages_inv {} (pg regions_start)" "room (pg regions_start)"
  by (simp_all add: regions_start_def pages_start_def init_pages_inv)
    (simp add: room_def init_pages_def)


lemma start_region:
  "\<exists>st. newsubregion plat_one fuel 0 regions_start = Inr (0x14020, st)
     \<and> a_page (regs st 0x14020) = \<lparr>base = 0x14000, allocfrom = 0x14080\<rparr> \<and> room (pg st)"
proof -
  obtain s where "get_page pages_start = Inr (0x14000, s)" and "total_page_count s = 2"
    by (simp add: client_eval)
  then have g: "on_pages (alloc_single_page (p_rand plat_one) (p_malloc plat_one) (p_spins plat_one) 0) regions_start
      = Inr (0x14000, regions_start\<lparr>pg := s\<rparr>)"
    by (simp add: on_pages_def get_page_def plat_one_def regions_start_def)
  have "\<exists>m. mark_region plat_one 0x14000 1 0x14020 st = Inr (st\<lparr>rmap := m\<rparr>)" for st
    using mark_region_ok [OF plat_one_ok] .
  then obtain f where "mark_region plat_one 0x14000 1 0x14020 st = Inr (st\<lparr>rmap := f st\<rparr>)" for st by metis
  then show ?thesis using g \<open>total_page_count s = 2\<close>
    by (simp add: newsubregion_def initregion_def room_def PAGE_PREVIOUS_def REGION_SIZE_def Let_def)
qed

lemma start_object:
  assumes "a_page (regs st 0x14020) = \<lparr>base = 0x14000, allocfrom = 0x14080\<rparr>"
  shows "\<exists>st'. rc_rstralloc plat_one 0x14020 100 st = Inr (0x14080, st')"
  using assms by (simp add: rc_rstralloc_def qalloc_def Let_def PALIGN_def RALIGNMENT_def RPAGESIZE_eq)

section \<open>Properties\<close>

text \<open>
  Objects of at most 4096 bytes allocated one after another in a new region are 8-byte aligned,
  lie in pages that were not in use before, behind the page header and inside malloc's blocks, and
  no two of them overlap.
\<close>

lemma region_objects_disjoint:
  assumes "platform_ok plat" and "pages_inv U (pg st0)" and "region_run plat st0 r objs st"
  shows "(\<forall>i < length objs. \<forall>j < i. apart (objs ! i) (objs ! j))
    \<and> (\<forall>ob \<in> set objs. \<exists>p. p \<notin> U \<and> object_in ob p \<and> (\<exists>b \<in> set (blocks (pg st)). run_in p 1 b))"
proof -
  obtain ps where inv: "life_inv U st r objs ps" using life_run [OF assms] ..
  then have "page_ok (pg st) p" if "p \<in> set ps" for p
    using that unfolding life_inv_def pages_inv_def lists_inv_def by blast
  then show ?thesis using inv unfolding life_inv_def page_ok_def by fastforce
qed



text \<open>
  C33: when \<open>r\<close> is among the children of its parent, the search of \<open>unlink_region\<close> ends after at
  most as many turns as there are children, and then the list of children is the old one without
  \<open>r\<close>; the sibling links of all other regions are as before.
\<close>

theorem unlink_removes:
  assumes "chain (sibs st) (r_children (regs st (r_parent (regs st r)))) xs" and "distinct xs"
    and "r \<in> set xs" and "length xs \<le> fuel"
  shows "\<exists>st'. unlink_region fuel r st = Inr st'
    \<and> chain (sibs st') (r_children (regs st' (r_parent (regs st r)))) (remove1 r xs)
    \<and> (\<forall>q. q \<notin> set xs \<longrightarrow> sibs st' q = sibs st q)
    \<and> (\<forall>q. q \<noteq> r_parent (regs st r) \<longrightarrow> r_children (regs st' q) = r_children (regs st q))"
  using unlink_loop_ok [of st "ChildrenOf (r_parent (regs st r))" xs r fuel] assms
  by (auto simp: unlink_region_def)

text \<open>Region 1 has the children 2 and 3; the second one is unlinked.\<close>

theorem unlink_removes_witness:
  "\<exists>st st'. r_children (regs st 1) = 2 \<and> unlink_region 2 3 st = Inr st' \<and> chain (sibs st') (r_children (regs st' 1)) [2]"
proof -
  define st where "st = regions_start\<lparr>regs := (\<lambda>_. zero_region)
      (1 := zero_region\<lparr>r_children := 2\<rparr>, 2 := zero_region\<lparr>r_parent := 1, r_sibling := 3\<rparr>,
       3 := zero_region\<lparr>r_parent := 1\<rparr>)\<rparr>"
  have "r_parent (regs st 3) = 1" "r_children (regs st 1) = 2" "chain (sibs st) 2 [2, 3]"
    by (simp_all add: st_def zero_region_def sibs_def)
  then obtain st' where "unlink_region 2 3 st = Inr st'" "chain (sibs st') (r_children (regs st' 1)) [2]"
    using unlink_removes [of st 3 "[2, 3]" 2] by auto
  then show ?thesis using \<open>r_children (regs st 1) = 2\<close> by blast
qed

text \<open>
  A size of a multiple of 4 GiB becomes the \<open>int\<close> 0: the allocation succeeds in the current
  page without moving its free pointer, so the next object gets the same address.
\<close>

lemma size_truncated:
  assumes "8 dvd unat (allocfrom (a_page (regs st r)))"
    and "unat (allocfrom (a_page (regs st r))) < unat (base (a_page (regs st r))) + 16384"
    and "unat (base (a_page (regs st r))) + 32768 \<le> 2 ^ 64" and "(ucast sz :: u32) = 0"
  shows "\<exists>st'. rc_rstralloc plat r sz st = Inr (allocfrom (a_page (regs st r)), st')
    \<and> allocfrom (a_page (regs st' r)) = allocfrom (a_page (regs st r))"
proof -
  let ?a = "allocfrom (a_page (regs st r))" and ?b = "base (a_page (regs st r))"
  have "PALIGN ?a 8 = ?a" using assms(1,2,3) by (intro align8_dvd) auto
  moreover have "?a < ?b + RPAGESIZE" using assms(2,3) by (simp add: word_less_nat_alt RPAGESIZE_eq unat_plus_if')
  ultimately show ?thesis using assms(4)
    by (simp add: rc_rstralloc_def qalloc_def Let_def RALIGNMENT_def)
qed

end
