(* ===== verification/Region_World.thy ===== *)
theory Region_World
  imports Regions_Ok
begin

text \<open>
  Several regions at once.  A world says which regions are live, which objects each of them holds
  and which pages it owns.  Creating a region, allocating a small object in one of them and deleting
  one keep the others as they are: no page belongs to two regions, and no two objects overlap.
\<close>

section \<open>Worlds\<close>

text \<open>The first object of a region is its own header.\<close>

type_synonym world = "u64 \<rightharpoonup> (u64 \<times> u64) list \<times> u64 list"

definition world_pages :: "world \<Rightarrow> u64 set" where
  "world_pages W = (\<Union>x \<in> ran W. set (snd x))"

definition owned :: "world \<Rightarrow> u64 \<Rightarrow> u64 set" where
  "owned W r = (case W r of None \<Rightarrow> {} | Some x \<Rightarrow> set (snd x))"

definition others :: "world \<Rightarrow> u64 \<Rightarrow> u64 set" where
  "others W r = world_pages W - owned W r"

definition world_ok :: "world \<Rightarrow> region_sys \<Rightarrow> bool" where
  "world_ok W st \<longleftrightarrow> pages_inv (world_pages W) (pg st)
     \<and> (\<forall>r objs ps. W r = Some (objs, ps) \<longrightarrow> life_inv (others W r) st r objs ps \<and> ps \<noteq> [] \<and> last ps + 32 = r)
     \<and> (\<forall>r s. r \<noteq> s \<longrightarrow> owned W r \<inter> owned W s = {})"

lemma world_pages_owned: "world_pages W = (\<Union>r. owned W r)"
proof (intro equalityI subsetI)
  fix q assume "q \<in> world_pages W"
  then obtain r x where "W r = Some x" "q \<in> set (snd x)" by (auto simp: world_pages_def ran_def)
  then have "q \<in> owned W r" by (simp add: owned_def)
  then show "q \<in> (\<Union>r. owned W r)" by blast
next
  fix q assume "q \<in> (\<Union>r. owned W r)"
  then obtain r x where "W r = Some x" "q \<in> set (snd x)" by (auto simp: owned_def split: option.splits)
  then show "q \<in> world_pages W" unfolding world_pages_def ran_def by blast
qed

lemma owned_upd [simp]: "owned (W(r := x)) s = (if s = r then case x of None \<Rightarrow> {} | Some y \<Rightarrow> set (snd y) else owned W s)"
  by (simp add: owned_def)

lemma owned_Some: "W r = Some (objs, ps) \<Longrightarrow> owned W r = set ps"
  by (simp add: owned_def)

lemma others_disjoint:
  "\<forall>r s. r \<noteq> s \<longrightarrow> owned W r \<inter> owned W s = {} \<Longrightarrow> others W r = (\<Union>s \<in> - {r}. owned W s)"
  by (auto simp: others_def world_pages_owned)

lemma world_pages_upd:
  assumes "\<forall>r s. r \<noteq> s \<longrightarrow> owned W r \<inter> owned W s = {}"
  shows "world_pages (W(r := x)) = others W r \<union> owned (W(r := x)) r"
  using others_disjoint [OF assms, of r] by (auto simp: world_pages_owned split: if_splits)

text \<open>Only the region \<open>r\<close> changes.\<close>

lemma life_frame:
  assumes life: "life_inv U st s objs ps" and inv: "pages_inv (U' \<union> set ps) (pg st')" and "set ps \<inter> U' = {}"
    and reg: "regs st' s = regs st s" and nx: "\<forall>q \<in> set ps. nxt (pg st') q = nxt (pg st) q"
  shows "life_inv U' st' s objs ps"
  using life inv assms(3) chain_cong [OF nx] unfolding life_inv_def region_ok_def reg by auto

lemma world_step:
  assumes ok: "world_ok W st"
    and new: "pages_inv (others W r \<union> owned (W(r := x)) r) (pg st')" "owned (W(r := x)) r \<inter> others W r = {}"
    and reg: "\<And>objs ps. x = Some (objs, ps) \<Longrightarrow> life_inv (others W r) st' r objs ps \<and> ps \<noteq> [] \<and> last ps + 32 = r"
    and regs: "\<And>q. q \<noteq> r \<Longrightarrow> W q \<noteq> None \<Longrightarrow> regs st' q = regs st q" and nx: "\<forall>q \<in> others W r. nxt (pg st') q = nxt (pg st) q"
  shows "world_ok (W(r := x)) st'"
proof -
  have dj: "\<forall>r s. r \<noteq> s \<longrightarrow> owned W r \<inter> owned W s = {}" using ok by (simp add: world_ok_def)
  note wp = world_pages_upd [OF dj, of r x]
  have sub: "owned W s \<subseteq> others W r" if "s \<noteq> r" for s using that dj by (fastforce simp: others_disjoint [OF dj])
  have dj': "\<forall>s t. s \<noteq> t \<longrightarrow> owned (W(r := x)) s \<inter> owned (W(r := x)) t = {}"
  proof (intro allI impI)
    fix s t :: u64 assume "s \<noteq> t"
    then consider "s = r" "t \<noteq> r" | "t = r" "s \<noteq> r" | "s \<noteq> r" "t \<noteq> r" by blast
    then show "owned (W(r := x)) s \<inter> owned (W(r := x)) t = {}"
    proof cases
      case 1
      then have "owned (W(r := x)) t \<subseteq> others W r" using sub by simp
      then show ?thesis using new(2) unfolding 1(1) by blast
    next
      case 2
      then have "owned (W(r := x)) s \<subseteq> others W r" using sub by simp
      then show ?thesis using new(2) unfolding 2(1) by blast
    next
      case 3
      then show ?thesis using dj \<open>s \<noteq> t\<close> by simp
    qed
  qed
  have self: "others (W(r := x)) r = others W r" using new(2) wp by (auto simp: others_def [of "W(r := x)"])
  have other: "life_inv (others (W(r := x)) s) st' s objs ps"
    if "s \<noteq> r" and s: "W s = Some (objs, ps)" for s objs ps
  proof (rule life_frame)
    show "life_inv (others W s) st s objs ps" using ok s by (simp add: world_ok_def)
    have ps: "set ps = owned (W(r := x)) s" "set ps \<subseteq> others W r"
      using sub [OF \<open>s \<noteq> r\<close>] owned_Some [of W s objs ps] s \<open>s \<noteq> r\<close> by simp_all
    then have "others (W(r := x)) s \<union> set ps = world_pages (W(r := x))" by (auto simp: others_def wp)
    then show "pages_inv (others (W(r := x)) s \<union> set ps) (pg st')" using new(1) wp by simp
    show "set ps \<inter> others (W(r := x)) s = {}" using ps(1) by (auto simp: others_def)
    show "\<forall>q \<in> set ps. nxt (pg st') q = nxt (pg st) q" using ps(2) nx by blast
    show "regs st' s = regs st s" using regs \<open>s \<noteq> r\<close> s by simp
  qed
  have "life_inv (others (W(r := x)) s) st' s objs ps \<and> ps \<noteq> [] \<and> last ps + 32 = s"
    if "(W(r := x)) s = Some (objs, ps)" for s objs ps
  proof (cases "s = r")
    case True
    then show ?thesis using reg [of objs ps] that unfolding True self by simp
  next
    case False
    then have s: "W s = Some (objs, ps)" using that by simp
    then show ?thesis using other [OF False s] ok unfolding world_ok_def by blast
  qed
  then show ?thesis using new(1) wp dj' unfolding world_ok_def by simp
qed

lemma world_pages_split:
  assumes "W r = Some (objs, ps)"
  shows "others W r \<union> set ps = world_pages W"
proof -
  have "owned W r = set ps" using assms by (simp add: owned_Some)
  moreover have "owned W r \<subseteq> world_pages W" unfolding world_pages_owned by blast
  ultimately show ?thesis by (auto simp: others_def)
qed

lemma world_regionD:
  assumes "world_ok W st" and "W r = Some (objs, ps)"
  shows "life_inv (others W r) st r objs ps" "pages_inv (others W r \<union> set ps) (pg st)" "region_ok (others W r \<union> set ps) st r ps"
    "ps \<noteq> []" "last ps + 32 = r" "r \<noteq> 0"
proof -
  show l: "life_inv (others W r) st r objs ps" "ps \<noteq> []" "last ps + 32 = r" using assms by (simp_all add: world_ok_def)
  show i: "pages_inv (others W r \<union> set ps) (pg st)" "region_ok (others W r \<union> set ps) st r ps"
    using l(1) by (auto simp: life_inv_def)
  have "unat (last ps) + 32768 \<le> 2 ^ 64" using page_end(1) [OF i(1), of "last ps"] l(2) by simp
  then have "unat (last ps + 32) = unat (last ps) + 32" by (simp add: unat_plus_if')
  then show "r \<noteq> 0" using l(3) by auto
qed

section \<open>Operations\<close>

lemma world_new:
  assumes plat: "platform_ok plat" and ok: "world_ok W st" and room: "room (pg st)"
  shows "newsubregion plat fuel 0 st = Inl Aborted
    \<or> (\<exists>r p st'. newsubregion plat fuel 0 st = Inr (r, st') \<and> W r = None
        \<and> world_ok (W(r \<mapsto> ([(r, REGION_SIZE)], [p]))) st' \<and> kept_count plat (pg st) (pg st'))"
proof -
  have inv: "pages_inv (world_pages W) (pg st)" using ok by (simp add: world_ok_def)
  consider "newsubregion plat fuel 0 st = Inl Aborted"
    | p st' where "newsubregion plat fuel 0 st = Inr (p + 32, st')" "p \<notin> world_pages W"
        "pages_inv (insert p (world_pages W)) (pg st')" "region_ok (insert p (world_pages W)) st' (p + 32) [p]"
        "a_bigpages (regs st' (p + 32)) = 0" "r_parent (regs st' (p + 32)) = 0" "r_children (regs st' (p + 32)) = 0"
        "\<forall>q. q \<noteq> p + 32 \<longrightarrow> regs st' q = regs st q" "\<forall>q \<in> world_pages W. nxt (pg st') q = nxt (pg st) q"
        "kept_count plat (pg st) (pg st')" "a_page (regs st' (p + 32)) = \<lparr>base = p, allocfrom = p + 128\<rparr>"
    using newregion_ok [OF plat inv room, of fuel] by blast
  then show ?thesis
  proof cases
    case 1
    then show ?thesis by simp
  next
    case 2
    have pe: "unat p + 32768 \<le> 2 ^ 64" "16384 dvd unat p" using page_end [OF 2(3), of p] by auto
    have fresh: "W (p + 32) = None"
    proof (rule ccontr)
      assume "W (p + 32) \<noteq> None"
      then obtain objs ps where x: "W (p + 32) = Some (objs, ps)" by auto
      then have "last ps = p" "ps \<noteq> []" using world_regionD(4,5) [OF ok x] by simp_all
      then have "p \<in> set ps" by auto
      then have "p \<in> world_pages W" using world_pages_split [of W "p + 32" objs ps] x by blast
      then show False using 2(2) by simp
    qed
    then have o: "others W (p + 32) = world_pages W" by (simp add: others_def owned_def)
    have un: "unat (p + 32) = unat p + 32" "unat (p + 128) = unat p + 128" using pe(1) by (simp_all add: unat_plus_if')
    have "8 dvd unat p" using pe(2) by (rule dvd_trans [rotated]) simp
    then have "object_in (p + 32, REGION_SIZE) p" "unat (p + 32) + unat REGION_SIZE \<le> unat (p + 128)"
      by (simp_all add: object_in_def un REGION_SIZE_def)
    then have "life_inv (world_pages W) st' (p + 32) [(p + 32, REGION_SIZE)] [p]"
      using 2 by (simp add: life_inv_def)
    then have "world_ok (W(p + 32 \<mapsto> ([(p + 32, REGION_SIZE)], [p]))) st'"
      using 2 o by (intro world_step [OF ok]) auto
    then show ?thesis using 2(1,10) fresh by blast
  qed
qed

text \<open>Small objects: the pages of the other regions and their headers stay as they are.\<close>

lemma world_object:
  assumes plat: "platform_ok plat" and ok: "world_ok W st" and room: "room (pg st)" and r: "W r = Some (objs, ps)"
    and sz: "unat sz \<le> 4096"
  shows "rc_rstralloc plat r sz st = Inl Aborted
    \<or> (\<exists>m st' ps'. rc_rstralloc plat r sz st = Inr (m, st') \<and> world_ok (W(r \<mapsto> ((m, sz) # objs, ps'))) st'
        \<and> length ps' \<le> Suc (length ps) \<and> kept_count plat (pg st) (pg st'))"
proof -
  note d = world_regionD [OF ok r]
  consider "rc_rstralloc plat r sz st = Inl Aborted"
    | m st' U' ps' where "rc_rstralloc plat r sz st = Inr (m, st')" "region_ok U' st' r ps'"
      "ps' = ps \<or> (\<exists>p. p \<notin> others W r \<union> set ps \<and> ps' = p # ps)" "\<forall>q. q \<noteq> r \<longrightarrow> regs st' q = regs st q"
      "\<forall>q \<in> others W r \<union> set ps. nxt (pg st') q = nxt (pg st) q" "kept_count plat (pg st) (pg st')"
    using rstralloc_small [OF plat d(2) room d(3) sz] by blast
  then show ?thesis
  proof cases
    case 1
    then show ?thesis by simp
  next
    case 2
    obtain ps1 where ps1: "life_inv (others W r) st' r ((m, sz) # objs) ps1"
      using life_object [OF plat d(1) room sz 2(1)] by blast
    then have "ps1 = ps'" using chain_unique 2(2) by (auto simp: region_ok_def life_inv_def)
    then have life: "life_inv (others W r) st' r ((m, sz) # objs) ps'" using ps1 by simp
    have ne: "ps' \<noteq> [] \<and> last ps' + 32 = r" using 2(3) d(4,5) by auto
    have "world_ok (W(r \<mapsto> ((m, sz) # objs, ps'))) st'"
    proof (rule world_step [OF ok])
      show "pages_inv (others W r \<union> owned (W(r \<mapsto> ((m, sz) # objs, ps'))) r) (pg st')"
          "owned (W(r \<mapsto> ((m, sz) # objs, ps'))) r \<inter> others W r = {}"
        using life by (simp_all add: life_inv_def)
    qed (use life ne 2(4,5) in simp_all)
    then show ?thesis using 2(1,3,6) by auto
  qed
qed

text \<open>Releasing pages takes nothing from the memory accounted for.\<close>

lemma free_single_page_ledger: "free_single_page rand_r fuel p s = Inr s' \<Longrightarrow> same_ledger s s'"
  by (auto simp: free_single_page_def fault_simps put_first_def Let_def unlock_list_def same_ledger_page dest!: pick_list_ledger)

lemma free_list_ledger: "free_list (free_single_page rand_r k) nxt fuel p s = Inr s' \<Longrightarrow> same_ledger s s'"
proof (induction fuel arbitrary: p s)
  case 0
  then show ?case by (auto simp: same_ledger_def split: if_splits)
next
  case (Suc fuel)
  show ?case
  proof (cases "p = 0")
    case True
    then show ?thesis using Suc.prems by (simp add: same_ledger_def)
  next
    case False
    then obtain s1 where "free_single_page rand_r k p s = Inr s1" "free_list (free_single_page rand_r k) nxt fuel (nxt s p) s1 = Inr s'"
      using Suc.prems by (auto simp: fault_simps)
    then show ?thesis using Suc.IH free_single_page_ledger same_ledger_trans by blast
  qed
qed

lemma world_delete:
  assumes plat: "platform_ok plat" and ok: "world_ok W st" and r: "W r = Some (objs, ps)" and fuel: "length ps \<le> fuel"
  shows "\<exists>st'. deleteregion plat fuel r st = Inr st' \<and> world_ok (W(r := None)) st' \<and> accounted (pg st') = accounted (pg st)"
proof -
  note d = world_regionD [OF ok r]
  obtain k where k: "p_spins plat = Suc k" using plat by (cases "p_spins plat") (auto simp: platform_ok_def)
  have m: "malloc_ok (p_malloc plat) \<and> pages_inv (others W r \<union> set ps) (pg st)" using plat d(2) by (simp add: platform_ok_def)
  have c: "chain (nxt (pg st)) (a_pages (regs st r)) ps" "distinct ps" using d(3) by (auto simp: region_ok_def)
  have dj: "set ps \<inter> others W r = {}" using d(1) by (simp add: life_inv_def)
  obtain s' where s': "free_list (free_single_page (p_rand plat) (Suc k)) nxt fuel (a_pages (regs st r)) (pg st) = Inr s'"
      "pages_inv (others W r \<union> set ps - set ps) s'" "\<forall>q. q \<notin> set ps \<longrightarrow> nxt s' q = nxt (pg st) q"
    using pool.free_list_ok [OF m c, of fuel "p_rand plat" k] fuel by auto
  have "free_list f nxt fuel 0 s' = Inr s'" for f by (cases fuel) simp_all
  then have del: "deleteregion plat fuel r st = Inr (st\<lparr>pg := s'\<rparr>)"
    using s' d(1) by (simp add: deleteregion_def delregion_def nochildren_def free_all_pages_def k life_inv_def)
  have "others W r \<union> set ps - set ps = others W r" using dj by auto
  then have "world_ok (W(r := None)) (st\<lparr>pg := s'\<rparr>)"
    using s'(2,3) dj by (intro world_step [OF ok]) auto
  then show ?thesis using del accounted_ledger [OF free_list_ledger [OF s'(1)]] by simp
qed

section \<open>Clients\<close>

text \<open>What a client of several top-level regions does; it sees the regions and the objects in them.\<close>

inductive regions_run :: "platform \<Rightarrow> region_sys \<Rightarrow> (u64 \<rightharpoonup> (u64 \<times> u64) list) \<Rightarrow> region_sys \<Rightarrow> bool"
  for plat st0 where
  no_regions: "regions_run plat st0 Map.empty st0"
| create: "regions_run plat st0 C st \<Longrightarrow> newsubregion plat fuel 0 st = Inr (r, st') \<Longrightarrow>
    regions_run plat st0 (C(r \<mapsto> [(r, REGION_SIZE)])) st'"
| object: "regions_run plat st0 C st \<Longrightarrow> C r = Some objs \<Longrightarrow> unat sz \<le> 4096 \<Longrightarrow>
    rc_rstralloc plat r sz st = Inr (m, st') \<Longrightarrow> regions_run plat st0 (C(r \<mapsto> (m, sz) # objs)) st'"
| delete: "regions_run plat st0 C st \<Longrightarrow> C r = Some objs \<Longrightarrow> deleteregion plat fuel r st = Inr st' \<Longrightarrow>
    regions_run plat st0 (C(r := None)) st'"

text \<open>The bound on the turns of a deletion does not change its result.\<close>

lemma free_list_less:
  assumes "free_list f sc n p s = Inr s'" and "n \<le> m"
  shows "free_list f sc m p s = Inr s'"
  using assms
proof (induction n arbitrary: m p s)
  case 0
  then have "p = 0" "s' = s" by (simp_all split: if_splits)
  then show ?case by (cases m) simp_all
next
  case (Suc n)
  then obtain k where k: "m = Suc k" "n \<le> k" by (cases m) auto
  then show ?case using Suc by (auto simp: fault_simps)
qed

lemma free_all_pages_less:
  assumes "free_all_pages plat n r st = Inr st'" and "n \<le> m"
  shows "free_all_pages plat m r st = Inr st'"
proof -
  obtain s s' where l: "free_list (free_single_page (p_rand plat) (p_spins plat)) nxt n (a_pages (regs st r)) (pg st) = Inr s"
      "free_list (free_pages (p_rand plat) (p_spins plat)) nxt n (a_bigpages (regs st r)) s = Inr s'" "st' = st\<lparr>pg := s'\<rparr>"
    using assms(1) by (auto simp: free_all_pages_def ebind_eq_Inr)
  then show ?thesis
    using free_list_less [OF l(1) assms(2)] free_list_less [OF l(2) assms(2)] by (simp add: free_all_pages_def)
qed

lemma deleteregion_less:
  assumes "deleteregion plat n r st = Inr st'" and "n \<le> m" and top: "r_parent (regs st r) = 0"
  shows "deleteregion plat m r st = Inr st'"
proof -
  obtain st1 where d: "delregion plat n r st = Inr st1"
      "st' = (if r_parent (regs st1 r) \<noteq> 0 then release_region (r_parent (regs st1 r)) st1 else st1)"
    using assms(1) top by (auto simp: deleteregion_def ebind_eq_Inr)
  have "delregion plat m r st = Inr st1"
    using d(1) free_all_pages_less [OF _ assms(2)] by (auto simp: delregion_def ebind_eq_Inr)
  then show ?thesis using d(2) top by (simp add: deleteregion_def)
qed

lemma regions_run_world:
  assumes plat: "platform_ok plat" "mem_bounded (p_malloc plat)" and start: "pages_inv {} (pg st0)" "accounted (pg st0)"
    and run: "regions_run plat st0 C st"
  shows "\<exists>W. C = map_option fst \<circ> W \<and> world_ok W st \<and> accounted (pg st)"
  using run
proof (induction rule: regions_run.induct)
  case no_regions
  have "world_ok Map.empty st0" using start by (simp add: world_ok_def world_pages_def owned_def)
  then show ?case using start(2) by (intro exI [of _ Map.empty]) auto
next
  case (create C st fuel r st')
  then obtain W where W: "C = map_option fst \<circ> W" "world_ok W st" "accounted (pg st)" by blast
  then obtain p where "world_ok (W(r \<mapsto> ([(r, REGION_SIZE)], [p]))) st'" "kept_count plat (pg st) (pg st')"
    using world_new [OF plat(1) W(2) accounted_room [OF W(3)], of fuel] create.hyps(2) by auto
  moreover have "C(r \<mapsto> [(r, REGION_SIZE)]) = map_option fst \<circ> W(r \<mapsto> ([(r, REGION_SIZE)], [p]))" using W(1) by auto
  ultimately show ?case using W(3) plat(2) unfolding kept_count_def by blast
next
  case (object C st r objs sz m st')
  then obtain W where W: "C = map_option fst \<circ> W" "world_ok W st" "accounted (pg st)" by blast
  then obtain ps where r: "W r = Some (objs, ps)" using object.hyps(2) by auto
  obtain ps' where "world_ok (W(r \<mapsto> ((m, sz) # objs, ps'))) st'" "kept_count plat (pg st) (pg st')"
    using world_object [where W = W and r = r, OF plat(1) W(2) accounted_room [OF W(3)] r object.hyps(3)] object.hyps(4) by auto
  moreover have "C(r \<mapsto> (m, sz) # objs) = map_option fst \<circ> W(r \<mapsto> ((m, sz) # objs, ps'))" using W(1) by auto
  ultimately show ?case using W(3) plat(2) unfolding kept_count_def by blast
next
  case (delete C st r objs fuel st')
  then obtain W where W: "C = map_option fst \<circ> W" "world_ok W st" "accounted (pg st)" by blast
  then obtain ps where r: "W r = Some (objs, ps)" using delete.hyps(2) by auto
  have top: "r_parent (regs st r) = 0" using world_regionD(1) [of W st r objs ps] W(2) r by (simp add: life_inv_def)
  obtain st1 where d: "deleteregion plat (max fuel (length ps)) r st = Inr st1" "world_ok (W(r := None)) st1"
      "accounted (pg st1) = accounted (pg st)"
    using world_delete [where W = W and r = r, OF plat(1) W(2) r, of "max fuel (length ps)"] by auto
  then have "st1 = st'" using deleteregion_less [OF delete.hyps(3) _ top, of "max fuel (length ps)"] by simp
  then have "C(r := None) = map_option fst \<circ> W(r := None) \<and> world_ok (W(r := None)) st' \<and> accounted (pg st')"
    using d W(1,3) by auto
  then show ?case by blast
qed

section \<open>Concrete states\<close>

text \<open>A process with less than 64 TiB.\<close>

definition small_bump :: malloc_fun where
  "small_bump log n = (if bytes_of log + unat n < 2 ^ 46 then bump log n else 0)"

definition plat_small :: platform where
  "plat_small = plat_one\<lparr>p_malloc := small_bump\<rparr>"

lemma plat_small_ok: "platform_ok plat_small" "mem_bounded (p_malloc plat_small)"
  using bump_ok by (simp_all add: platform_ok_def plat_small_def plat_one_def small_bump_def mem_bounded_def malloc_ok_def)

lemma accounted_start: "accounted (pg regions_start)"
  by (simp add: accounted_def regions_start_def pages_start_def init_pages_def bytes_of_def)

lemmas region_eval = mark_region_def set_region_def MAPNB_def PAGENB_def RMAPLOG_def RMAXMEMLOG_def
  set_page_region_def get_or_alloc_regionmap_def norm_slot.simps RMAXPAGE_def RMAXMAP_def push_bit_eq_mult
  pages_eval newsubregion_def initregion_def set_available_def on_pages_def upd_reg_def
  zero_region_def REGION_SIZE_def PAGE_PREVIOUS_def plat_one_def regions_start_def
  small_bump_def plat_small_def bytes_of_def

lemma small_process_memory: "newsubregion plat_small fuel 0 regions_start = Inr (r, st) \<Longrightarrow> accounted (pg st)"
  using newregion_ok [OF plat_small_ok(1) regions_start_inv, of fuel] accounted_start plat_small_ok(2)
  by (auto simp: kept_count_def)

lemma two_regions:
  "\<exists>st1 st2 st3. newsubregion plat_small 0 0 regions_start = Inr (0x14020, st1)
     \<and> newsubregion plat_small 0 0 st1 = Inr (0x1c020, st2) \<and> rc_rstralloc plat_small 0x14020 100 st2 = Inr (0x14080, st3)"
  by (simp add: region_eval rc_rstralloc_def qalloc_def ALIGN_def RALIGNMENT_def)

section \<open>Properties\<close>



end
