(* ===== verification/Region_Data.thy ===== *)
theory Region_Data
  imports Region_World
begin

text \<open>
  The contents of objects: the bytes behind the headers, the functions of \<open>src/regions.c\<close> that copy
  them (\<open>__rc_rstrdup\<close>, \<open>typed_rarraycopy\<close>), and the search for references from the pages of one
  region into another (\<open>findrefs\<close>, \<open>findrrefs\<close>).  Page and region headers stay the typed stores of
  \<open>Pages\<close> and \<open>Regions\<close>; \<open>mem\<close> is every other byte.
\<close>

section \<open>Bytes\<close>

record heap =
  sys :: region_sys
  mem :: "u64 \<Rightarrow> u8"

definition load_bytes :: "u64 \<Rightarrow> nat \<Rightarrow> (u64 \<Rightarrow> u8) \<Rightarrow> u8 list" where
  "load_bytes a n m = map (\<lambda>i. m (a + of_nat i)) [0..<n]"

definition store_bytes :: "u64 \<Rightarrow> u8 list \<Rightarrow> (u64 \<Rightarrow> u8) \<Rightarrow> u64 \<Rightarrow> u8" where
  "store_bytes a bs m x = (if unat (x - a) < length bs then bs ! unat (x - a) else m x)"

text \<open>A pointer or a \<open>long\<close> in memory: eight bytes, the lowest first.\<close>

definition load64 :: "(u64 \<Rightarrow> u8) \<Rightarrow> u64 \<Rightarrow> u64" where
  "load64 m a = horner_sum ucast 256 (load_bytes a 8 m)"

definition bytes64 :: "u64 \<Rightarrow> u8 list" where
  "bytes64 v = map (\<lambda>i. ucast (drop_bit (8 * i) v)) [0..<8]"

definition store64 :: "u64 \<Rightarrow> u64 \<Rightarrow> (u64 \<Rightarrow> u8) \<Rightarrow> u64 \<Rightarrow> u8" where
  "store64 a v = store_bytes a (bytes64 v)"

lemma length_load [simp]: "length (load_bytes a n m) = n"
  by (simp add: load_bytes_def)

lemma length_bytes64 [simp]: "length (bytes64 v) = 8"
  by (simp add: bytes64_def)

lemma store_load_bytes [simp]: "store_bytes a (load_bytes a n m) m = m"
  by (rule ext) (simp add: store_bytes_def load_bytes_def)

lemma load_store_bytes: "length bs < 2 ^ 64 \<Longrightarrow> load_bytes a (length bs) (store_bytes a bs m) = bs"
  by (rule nth_equalityI) (simp_all add: load_bytes_def store_bytes_def unat_of_nat take_bit_nat_eq_self)

lemma store_bytes_twice: "length bs = length cs \<Longrightarrow> store_bytes a bs (store_bytes a cs m) = store_bytes a bs m"
  by (rule ext) (simp add: store_bytes_def)

lemma bit_bytes:
  "bit (horner_sum ucast 256 (bs :: u8 list) :: u64) k \<longleftrightarrow>
     k < 64 \<and> k div 8 < length bs \<and> bit (bs ! (k div 8)) (k mod 8)"
proof (induction bs arbitrary: k)
  case Nil
  then show ?case by simp
next
  case (Cons b bs)
  let ?h = "horner_sum ucast 256 bs :: u64"
  have "horner_sum ucast 256 (b # bs) = ucast b + push_bit 8 ?h"
    by (simp add: push_bit_eq_mult mult.commute)
  also have "\<dots> = ucast b OR push_bit 8 ?h"
    by (rule disjunctive_add_eq_or) (rule bit_word_eqI, auto simp: bit_simps dest: bit_imp_le_length)
  finally have "bit (horner_sum ucast 256 (b # bs) :: u64) k \<longleftrightarrow>
      k < 64 \<and> (bit b k \<or> 8 \<le> k \<and> bit ?h (k - 8))"
    by (auto simp: bit_simps)
  moreover have "8 \<le> k \<Longrightarrow> \<not> bit b k" by (auto dest: bit_imp_le_length)
  moreover have "8 \<le> k \<Longrightarrow> k div 8 = Suc ((k - 8) div 8) \<and> (k - 8) mod 8 = k mod 8"
    by (auto simp: le_div_geq le_mod_geq)
  ultimately show ?case by (cases "8 \<le> k") (auto simp: Cons.IH nth_Cons' simp del: horner_sum_simps)
qed

lemma bytes64_horner: "length bs = 8 \<Longrightarrow> bytes64 (horner_sum ucast 256 bs) = bs"
proof (rule nth_equalityI)
  fix i assume "length bs = 8" "i < length (bytes64 (horner_sum ucast 256 bs))"
  then have i: "i < 8" "length bs = 8" by simp_all
  have "(8 * i + j) div 8 = i" "(8 * i + j) mod 8 = j" if "j < 8" for j using that by simp_all
  then show "bytes64 (horner_sum ucast 256 bs) ! i = bs ! i"
    using i by (intro bit_word_eqI) (simp add: bytes64_def bit_simps bit_bytes)
qed simp

lemma horner_bytes64: "horner_sum ucast 256 (bytes64 v) = v"
proof (rule bit_word_eqI)
  fix k assume k: "k < LENGTH(64)"
  then have "k div 8 < 8" "8 * (k div 8) + k mod 8 = k" "k mod 8 < 8" by (auto simp: div_less_iff_less_mult)
  then show "bit (horner_sum ucast 256 (bytes64 v) :: u64) k = bit v k"
    using k by (simp add: bit_bytes bytes64_def bit_simps)
qed

lemma load_store64 [simp]: "load64 (store64 a v m) a = v"
  using load_store_bytes [of "bytes64 v" a m] by (simp add: load64_def store64_def horner_bytes64)

lemma store_load64 [simp]: "store64 a (load64 m a) m = m"
  by (simp add: load64_def store64_def bytes64_horner)

lemma store64_twice [simp]: "store64 a v (store64 a w m) = store64 a v m"
  by (simp add: store64_def store_bytes_twice)

lemma store64_other: "8 \<le> unat (x - a) \<Longrightarrow> store64 a v m x = m x"
  by (simp add: store64_def store_bytes_def)

text \<open>What \<open>clear\<close> writes.\<close>

definition clear_mem :: "nat list \<Rightarrow> (u64 \<Rightarrow> u8) \<Rightarrow> u64 \<Rightarrow> u8" where
  "clear_mem = fold (\<lambda>p. store64 (of_nat p) 0)"

text \<open>
  Allocation on the heap: a fresh page is cleared behind its header (\<open>alloc_block\<close>), a fresh
  multi-page unit from the object to its end (\<open>qalloc\<close>).
\<close>

definition unit_pages :: "u32 \<Rightarrow> u32" where
  "unit_pages sz = ucast (drop_bit RPAGELOG (scast sz + PALIGN PAGE_PREVIOUS 1 + RPAGESIZE :: u64))"

definition fresh_clears :: "u64 \<Rightarrow> u64 \<Rightarrow> u32 \<Rightarrow> region_sys \<Rightarrow> region_sys \<Rightarrow> nat list" where
  "fresh_clears r p sz st st' =
     (if a_pages (regs st' r) \<noteq> a_pages (regs st r)
      then clear (a_pages (regs st' r) + PAGE_PREVIOUS) (RPAGESIZE - PAGE_PREVIOUS)
      else if a_bigpages (regs st' r) \<noteq> a_bigpages (regs st r)
      then clear p (a_bigpages (regs st' r) + scast (unit_pages sz) * RPAGESIZE - p)
      else [])"

definition heap_rstralloc :: "platform \<Rightarrow> u64 \<Rightarrow> u64 \<Rightarrow> heap \<Rightarrow> (u64 \<times> heap) res" where
  "heap_rstralloc plat r sz h =
     ebind (rc_rstralloc plat r sz (sys h)) (\<lambda>(p, st).
     Inr (p, h\<lparr>sys := st, mem := clear_mem (fresh_clears r p (ucast sz) (sys h) st) (mem h)\<rparr>))"

section \<open>Entry points\<close>

definition rc_rstrextend :: "platform \<Rightarrow> u64 \<Rightarrow> u64 \<Rightarrow> u64 \<Rightarrow> region_sys \<Rightarrow> ((u64 \<times> u64 \<times> nat list) \<times> region_sys) res" where
  "rc_rstrextend plat r old newsize = internal_rstrextend plat r old newsize False"

definition rc_rstrextend0 :: "platform \<Rightarrow> u64 \<Rightarrow> u64 \<Rightarrow> u64 \<Rightarrow> region_sys \<Rightarrow> ((u64 \<times> u64 \<times> nat list) \<times> region_sys) res" where
  "rc_rstrextend0 plat r old newsize = internal_rstrextend plat r old newsize True"

definition rc_typed_ralloc :: "platform \<Rightarrow> u64 \<Rightarrow> u64 \<Rightarrow> region_sys \<Rightarrow> ((u64 \<times> nat list) \<times> region_sys) res" where
  "rc_typed_ralloc plat r sz = rc_rstralloc0 plat r sz"

text \<open>The caller's pointer is reset before the region goes.\<close>

definition deleteregion_ptr :: "platform \<Rightarrow> nat \<Rightarrow> u64 \<Rightarrow> region_sys \<Rightarrow> (u64 \<times> region_sys) res" where
  "deleteregion_ptr plat fuel r st = (let tmp = r; r = 0 in ebind (deleteregion plat fuel tmp st) (\<lambda>st. Inr (r, st)))"

text \<open>The first call sets up the lists of pages and the seed of the calling thread.\<close>

definition region_init :: "u64 \<Rightarrow> bool \<times> region_sys \<Rightarrow> bool \<times> region_sys" where
  "region_init self = (\<lambda>(initialized, st).
     if initialized then (initialized, st)
     else (True, st\<lparr>pg := (init_pages (pg st))\<lparr>myseed := ucast self\<rparr>\<rparr>))"

section \<open>Copies\<close>

text \<open>The search for the terminating zero; the bound is for strings without one.\<close>

primrec strlen :: "nat \<Rightarrow> (u64 \<Rightarrow> u8) \<Rightarrow> u64 \<Rightarrow> nat res" where
  "strlen 0 m s = Inl OutOfFuel"
| "strlen (Suc n) m s = (if m s = 0 then Inr 0 else ebind (strlen n m (s + 1)) (\<lambda>k. Inr (Suc k)))"

definition rc_rstrdup :: "platform \<Rightarrow> nat \<Rightarrow> u64 \<Rightarrow> u64 \<Rightarrow> heap \<Rightarrow> (u64 \<times> heap) res" where
  "rc_rstrdup plat fuel r s h =
     ebind (strlen fuel (mem h) s) (\<lambda>n.
     ebind (heap_rstralloc plat r (of_nat n + 1) h) (\<lambda>(news, h).
     Inr (news, h\<lparr>mem := store_bytes news (load_bytes s (Suc n) (mem h)) (mem h)\<rparr>)))"

definition typed_rarraycopy :: "u64 \<Rightarrow> u64 \<Rightarrow> u64 \<Rightarrow> u64 \<Rightarrow> heap \<Rightarrow> heap" where
  "typed_rarraycopy to from n sz h =
     h\<lparr>mem := store_bytes to (load_bytes from (unat (n * sz)) (mem h)) (mem h)\<rparr>"

section \<open>References between regions\<close>

text \<open>\<open>printref\<close> leaves out the table of regions itself, which starts at \<open>table\<close>.\<close>

definition printref :: "u64 \<Rightarrow> u64 \<Rightarrow> u64 list" where
  "printref table x = (if table \<le> x \<and> x < table + 8 * RMAXMAP then [] else [x])"

text \<open>The words from \<open>f\<close> up to \<open>to\<close>; the result is what is printed.\<close>

function findrefs_loop :: "(u64 \<Rightarrow> bool) \<Rightarrow> u64 \<Rightarrow> u64 \<Rightarrow> nat \<Rightarrow> nat \<Rightarrow> (u64 \<Rightarrow> u8) \<Rightarrow> u64 list \<times> region_map \<Rightarrow>
    (u64 list \<times> region_map) res" where
  "findrefs_loop row table r f to m (out, rm) =
     (if f < to then
        ebind (regionof row (load64 m (of_nat f)) rm) (\<lambda>(owner, rm).
        findrefs_loop row table r (f + 8) to m
          (if owner = Some r then out @ printref table (of_nat f) else out, rm))
      else Inr (out, rm))"
  by pat_completeness auto

termination by (relation "measure (\<lambda>(row, table, r, f, to, m, x). to - f)") auto

declare findrefs_loop.simps [simp del]

definition findrefs :: "platform \<Rightarrow> u64 \<Rightarrow> u64 \<Rightarrow> u64 \<Rightarrow> u64 \<Rightarrow> u64 list \<times> heap \<Rightarrow> (u64 list \<times> heap) res" where
  "findrefs plat table r from to = (\<lambda>(out, h).
     ebind (findrefs_loop (p_row plat) table r (unat (PALIGN from 8)) (unat to) (mem h) (out, rmap (sys h)))
       (\<lambda>(out, rm). Inr (out, h\<lparr>sys := (sys h)\<lparr>rmap := rm\<rparr>\<rparr>)))"

text \<open>Over the pages from \<open>p\<close> on, each with the number of pages in its unit.\<close>

primrec findrefs_pages :: "platform \<Rightarrow> nat \<Rightarrow> u64 \<Rightarrow> u64 \<Rightarrow> (page \<Rightarrow> u64) \<Rightarrow> u64 \<Rightarrow> u64 list \<times> heap \<Rightarrow>
    (u64 list \<times> heap) res" where
  "findrefs_pages plat 0 table r units p x = (if p = 0 then Inr x else Inl OutOfFuel)"
| "findrefs_pages plat (Suc n) table r units p x =
     (if p = 0 then Inr x
      else
        let q = page_at (pg (sys (snd x))) p
        in ebind (findrefs plat table r (p + PAGE_PREVIOUS) (p + units q * RPAGESIZE) x)
             (findrefs_pages plat n table r units (p_next q)))"

definition findrrefs :: "platform \<Rightarrow> nat \<Rightarrow> u64 \<Rightarrow> u64 \<Rightarrow> u64 \<Rightarrow> heap \<Rightarrow> (u64 list \<times> heap) res" where
  "findrrefs plat fuel table r origin h =
     ebind (findrefs_pages plat fuel table r (\<lambda>_. 1) (a_pages (regs (sys h) origin)) ([], h)) (\<lambda>(out, h).
     findrefs_pages plat fuel table r pagecount (a_bigpages (regs (sys h) r)) (out, h))"

section \<open>What is found\<close>

text \<open>The words from \<open>f\<close> up to \<open>to\<close> that point into the region \<open>r\<close>.\<close>

definition refs_in :: "u64 \<Rightarrow> u64 \<Rightarrow> (u64 \<Rightarrow> u8) \<Rightarrow> region_map \<Rightarrow> nat \<Rightarrow> nat \<Rightarrow> u64 list" where
  "refs_in table r m rm f to = concat (map (printref table) (filter (\<lambda>a. lookup rm (pageno (load64 m a)) = Some r)
     (map (\<lambda>i. of_nat (f + 8 * i)) [0..<(to - f + 7) div 8])))"

lemma refs_in_step:
  "f < to \<Longrightarrow> refs_in table r m rm f to =
    (if lookup rm (pageno (load64 m (of_nat f))) = Some r then printref table (of_nat f) else []) @ refs_in table r m rm (f + 8) to"
proof -
  assume f: "f < to"
  have n: "(to - f + 7) div 8 = Suc ((to - (f + 8) + 7) div 8)"
  proof (cases "f + 8 \<le> to")
    case True
    then obtain d where "to = f + 8 + d" by (auto simp: le_iff_add)
    then show ?thesis by simp
  next
    case False
    then have "to - f + 7 < 16" "8 \<le> to - f + 7" "to - (f + 8) + 7 = 7" using f by auto
    then show ?thesis by (simp add: div_nat_eqI)
  qed
  have "map (\<lambda>i. of_nat (f + 8 * i) :: u64) [0..<(to - f + 7) div 8]
      = of_nat f # map (\<lambda>i. of_nat (f + 8 + 8 * i)) [0..<(to - (f + 8) + 7) div 8]"
    unfolding n by (simp only: upt_conv_Cons [of 0] map_Suc_upt [symmetric] zero_less_Suc) (simp add: ac_simps)
  then show ?thesis by (simp add: refs_in_def)
qed

lemma refs_in_cong: "(\<forall>v. lookup rm' v = lookup rm v) \<Longrightarrow> refs_in table r m rm' f to = refs_in table r m rm f to"
  by (simp add: refs_in_def)

lemma findrefs_loop_ok:
  assumes row: "\<forall>mp. row mp"
  shows "\<exists>rm'. findrefs_loop row table r f to m (out, rm) = Inr (out @ refs_in table r m rm f to, rm')
    \<and> (\<forall>v. lookup rm' v = lookup rm v)"
proof (induction "to - f" arbitrary: f out rm rule: less_induct)
  case less
  show ?case
  proof (cases "f < to")
    case False
    then show ?thesis by (simp add: findrefs_loop.simps [of _ _ _ f] refs_in_def)
  next
    case True
    let ?w = "load64 m (of_nat f)"
    obtain m2 where m2: "regionof row ?w rm = Inr (lookup rm (pageno ?w), m2)" "\<forall>v. lookup m2 v = lookup rm v"
      using regionof_keeps [OF row] by blast
    let ?out = "if lookup rm (pageno ?w) = Some r then out @ printref table (of_nat f) else out"
    have "to - (f + 8) < to - f" using True by simp
    from less [OF this, of ?out m2]
    obtain rm' where rm': "findrefs_loop row table r (f + 8) to m (?out, m2) = Inr (?out @ refs_in table r m m2 (f + 8) to, rm')"
        "\<forall>v. lookup rm' v = lookup m2 v"
      by blast
    have "findrefs_loop row table r f to m (out, rm) = Inr (?out @ refs_in table r m m2 (f + 8) to, rm')"
      using True m2(1) rm'(1) by (simp add: findrefs_loop.simps [of _ _ _ f])
    then show ?thesis
      using rm'(2) m2(2) refs_in_step [OF True, of table r m rm] refs_in_cong [OF m2(2)] by auto
  qed
qed

text \<open>The pages of the list \<open>ps\<close>, one after the other.\<close>

definition page_refs :: "u64 \<Rightarrow> u64 \<Rightarrow> heap \<Rightarrow> u64 \<Rightarrow> u64 list" where
  "page_refs table r h p = refs_in table r (mem h) (rmap (sys h)) (unat (PALIGN (p + PAGE_PREVIOUS) 8)) (unat (p + RPAGESIZE))"

lemma findrefs_page:
  assumes "platform_ok plat"
  shows "\<exists>rm. findrefs plat table r (p + PAGE_PREVIOUS) (p + 1 * RPAGESIZE) (out, h)
      = Inr (out @ page_refs table r h p, h\<lparr>sys := (sys h)\<lparr>rmap := rm\<rparr>\<rparr>)
    \<and> (\<forall>v. lookup rm v = lookup (rmap (sys h)) v)"
  using findrefs_loop_ok [of "p_row plat" table r "unat (PALIGN (p + PAGE_PREVIOUS) 8)" "unat (p + RPAGESIZE)" "mem h" out "rmap (sys h)"]
    assms by (auto simp: findrefs_def page_refs_def platform_ok_def)

lemma findrefs_pages_ok:
  assumes plat: "platform_ok plat"
  shows "chain (nxt (pg (sys h))) p ps \<Longrightarrow> length ps \<le> fuel \<Longrightarrow>
    \<exists>rm. findrefs_pages plat fuel table r (\<lambda>_. 1) p (out, h)
        = Inr (out @ concat (map (page_refs table r h) ps), h\<lparr>sys := (sys h)\<lparr>rmap := rm\<rparr>\<rparr>)
      \<and> (\<forall>v. lookup rm v = lookup (rmap (sys h)) v)"
proof (induction fuel arbitrary: p ps out h)
  case 0
  then show ?case by (auto intro: exI [of _ "rmap (sys h)"])
next
  case (Suc fuel)
  show ?case
  proof (cases ps)
    case Nil
    then show ?thesis using Suc.prems by (auto intro: exI [of _ "rmap (sys h)"])
  next
    case (Cons q qs)
    then have c: "p \<noteq> 0" "q = p" "chain (nxt (pg (sys h))) (nxt (pg (sys h)) p) qs" "length qs \<le> fuel"
      using Suc.prems by auto
    obtain rm where rm: "findrefs plat table r (p + PAGE_PREVIOUS) (p + 1 * RPAGESIZE) (out, h)
        = Inr (out @ page_refs table r h p, h\<lparr>sys := (sys h)\<lparr>rmap := rm\<rparr>\<rparr>)" "\<forall>v. lookup rm v = lookup (rmap (sys h)) v"
      using findrefs_page [OF plat] by blast
    let ?h = "h\<lparr>sys := (sys h)\<lparr>rmap := rm\<rparr>\<rparr>"
    have "page_refs table r ?h = page_refs table r h"
      using rm(2) by (simp add: page_refs_def fun_eq_iff refs_in_cong)
    moreover obtain rm2 where "findrefs_pages plat fuel table r (\<lambda>_. 1) (nxt (pg (sys h)) p) (out @ page_refs table r h p, ?h)
        = Inr ((out @ page_refs table r h p) @ concat (map (page_refs table r ?h) qs), ?h\<lparr>sys := (sys ?h)\<lparr>rmap := rm2\<rparr>\<rparr>)"
        "\<forall>v. lookup rm2 v = lookup rm v"
      using Suc.IH [of ?h "nxt (pg (sys h)) p" qs "out @ page_refs table r h p"] c by auto
    ultimately show ?thesis using c rm Cons by (auto simp: nxt_def)
  qed
qed

section \<open>Properties\<close>



end
