(* ===== verification/Serialize.thy ===== *)
theory Serialize
  imports Region_Data
begin

text \<open>
  \<open>src/serialize.c\<close>: regions are written to two files, the raw pages and one record per page, and
  read back into another process at other addresses.  A table from old page numbers to new pages
  translates pointers.  The data file is a list of dumps, one for every \<open>write\<close> of a page; a dump holds
  the page header, the region header that may follow it, and all bytes.  The functions that update
  the pointers of an object belong to the caller and are a parameter.
\<close>

section \<open>Data\<close>

datatype page_kinds = REGULAR | BIG
datatype allocator_kinds = NORMAL | ATOMIC

record page_state =
  first_page :: u64
  last_page :: u64
  akind :: allocator_kinds
  pkind :: page_kinds
  ps_size :: u32
  old_address :: u64

record dump =
  d_header :: page
  d_region :: region
  d_bytes :: "u8 list"

text \<open>The two files while they are written; \<open>writes\<close> counts the calls of \<open>write\<close>.\<close>

record files =
  data_file :: "dump list"
  state_file :: "page_state list"
  writes :: nat

text \<open>How many bytes the \<open>n\<close>-th call of \<open>write\<close> stores of those asked for.\<close>

type_synonym disk = "nat \<Rightarrow> u32 \<Rightarrow> u32"

definition PAGE_STATE_SIZE :: u32 where "PAGE_STATE_SIZE = 40"
definition PAGE_LIST_SIZE :: u64 where "PAGE_LIST_SIZE = 16"

section \<open>Writing\<close>

text \<open>The pages from \<open>p\<close> on, last one first; the nodes of the list are allocated in \<open>temp\<close>.\<close>

primrec make_page_list :: "platform \<Rightarrow> nat \<Rightarrow> u64 \<Rightarrow> u64 \<Rightarrow> u64 list \<Rightarrow> region_sys \<Rightarrow> (u64 list \<times> region_sys) res" where
  "make_page_list plat 0 p temp pgs st = (if p = 0 then Inr (pgs, st) else Inl OutOfFuel)"
| "make_page_list plat (Suc n) p temp pgs st =
     (if p = 0 then Inr (pgs, st)
      else ebind (rc_rstralloc plat temp PAGE_LIST_SIZE st) (\<lambda>(_, st).
           make_page_list plat n (p_next (page_at (pg st) p)) temp (p # pgs) st))"

definition dump_page :: "heap \<Rightarrow> u64 \<Rightarrow> u32 \<Rightarrow> dump" where
  "dump_page h p sz =
     \<lparr>d_header = page_at (pg (sys h)) p, d_region = regs (sys h) (p + PAGE_PREVIOUS),
      d_bytes = load_bytes p (nat (sint sz)) (mem h)\<rparr>"

text \<open>One call of \<open>write\<close>: fewer bytes than asked for end the program.\<close>

definition write_all :: "disk \<Rightarrow> u32 \<Rightarrow> files \<Rightarrow> files res" where
  "write_all disk sz f =
     (let numbytes = disk (writes f) sz; f = f\<lparr>writes := writes f + 1\<rparr>
      in if numbytes \<noteq> sz then Inl Aborted else Inr f)"

primrec serialize_pages :: "disk \<Rightarrow> heap \<Rightarrow> u64 list \<Rightarrow> u64 \<Rightarrow> u64 \<Rightarrow> allocator_kinds \<Rightarrow> page_kinds \<Rightarrow> u32 \<Rightarrow>
    files \<Rightarrow> files res" where
  "serialize_pages disk h [] fst_page lst_page ak pk sz f = Inr f"
| "serialize_pages disk h (p # pgs) fst_page lst_page ak pk sz f =
     (let ps = \<lparr>first_page = fst_page, last_page = (if pgs = [] \<and> lst_page \<noteq> 0 then 1 else 0), akind = ak, pkind = pk,
                ps_size = sz * (if pk = BIG then ucast (pagecount (page_at (pg (sys h)) p)) else 1),
                old_address = p\<rparr>
      in ebind (write_all disk (ps_size ps) f) (\<lambda>f.
         ebind (write_all disk PAGE_STATE_SIZE (f\<lparr>data_file := data_file f @ [dump_page h p (ps_size ps)]\<rparr>)) (\<lambda>f.
         serialize_pages disk h pgs 0 lst_page ak pk sz (f\<lparr>state_file := state_file f @ [ps]\<rparr>))))"

definition on_sys :: "(region_sys \<Rightarrow> ('a \<times> region_sys) res) \<Rightarrow> heap \<Rightarrow> ('a \<times> heap) res" where
  "on_sys f h = ebind (f (sys h)) (\<lambda>(x, st). Inr (x, h\<lparr>sys := st\<rparr>))"

definition serialize_region :: "platform \<Rightarrow> nat \<Rightarrow> disk \<Rightarrow> u64 \<Rightarrow> heap \<times> files \<Rightarrow> (heap \<times> files) res" where
  "serialize_region plat fuel disk r = (\<lambda>(h, f).
     ebind (on_sys (newsubregion plat fuel 0) h) (\<lambda>(temp, h).
     ebind (on_sys (make_page_list plat fuel (a_pages (regs (sys h) r)) temp []) h) (\<lambda>(normal, h).
     ebind (on_sys (make_page_list plat fuel (a_bigpages (regs (sys h) r)) temp []) h) (\<lambda>(big_normal, h).
     ebind (serialize_pages disk h normal 1 (if big_normal = [] then 1 else 0) NORMAL REGULAR (ucast RPAGESIZE) f) (\<lambda>f.
     ebind (serialize_pages disk h big_normal 0 (if big_normal = [] then 0 else 1) NORMAL BIG (ucast RPAGESIZE) f) (\<lambda>f.
     ebind (deleteregion plat fuel temp (sys h)) (\<lambda>st. Inr (h\<lparr>sys := st\<rparr>, f))))))))"

text \<open>
  \<open>r\<close> is the array of regions up to its null pointer.  The files are created empty; \<open>opened\<close> says
  whether both could be.  The result is that of the C function, with the files.
\<close>

definition serialize :: "platform \<Rightarrow> nat \<Rightarrow> disk \<Rightarrow> bool \<Rightarrow> u64 list \<Rightarrow> heap \<Rightarrow> (int \<times> heap \<times> files) res" where
  "serialize plat fuel disk opened r h =
     (let f = \<lparr>data_file = [], state_file = [], writes = 0\<rparr>
      in if \<not> opened then Inr (-1, h, f)
         else ebind (efold (serialize_region plat fuel disk) r (h, f)) (\<lambda>(h, f). Inr (0, h, f)))"

section \<open>Translation\<close>

text \<open>The table is an array of \<open>2 ^ (32 - RPAGELOG)\<close> pointers in a region of its own.\<close>

record translation =
  t_reg :: u64
  t_map :: "u64 \<Rightarrow> u64"

definition TRANSLATIONS :: u64 where "TRANSLATIONS = push_bit (32 - RPAGELOG) 1"

definition map_read :: "translation \<Rightarrow> u64 \<Rightarrow> u64 res" where
  "map_read t i = (if i < TRANSLATIONS then Inr (t_map t i) else Inl OutOfBounds)"

definition map_write :: "translation \<Rightarrow> u64 \<Rightarrow> u64 \<Rightarrow> translation res" where
  "map_write t i p = (if i < TRANSLATIONS then Inr (t\<lparr>t_map := (t_map t)(i := p)\<rparr>) else Inl OutOfBounds)"

definition translate_pointer :: "translation \<Rightarrow> u64 \<Rightarrow> u64 res" where
  "translate_pointer t old =
     ebind (map_read t (drop_bit RPAGELOG old)) (\<lambda>p. Inr (p + (old AND drop_bit (32 - RPAGELOG) 0xFFFFFFFF)))"

definition update_pointer :: "translation \<Rightarrow> u64 \<Rightarrow> heap \<Rightarrow> heap res" where
  "update_pointer t location h =
     ebind (translate_pointer t (load64 (mem h) location)) (\<lambda>p. Inr (h\<lparr>mem := store64 location p (mem h)\<rparr>))"

section \<open>Reading\<close>

text \<open>The \<open>num_pages\<close> translations of one unit, the last page first.\<close>

primrec map_unit :: "nat \<Rightarrow> u64 \<Rightarrow> u64 \<Rightarrow> translation \<Rightarrow> translation res" where
  "map_unit 0 old newpage t = Inr t"
| "map_unit (Suc n) old newpage t =
     ebind (map_write t (drop_bit RPAGELOG (old + of_nat n * RPAGESIZE)) (newpage + of_nat n * RPAGESIZE))
       (map_unit n old newpage)"

text \<open>The page for one record: that of a new region, a single page, or a unit.\<close>

definition page_for :: "platform \<Rightarrow> nat \<Rightarrow> page_state \<Rightarrow> u64 \<Rightarrow> region_sys \<Rightarrow> ((u64 \<times> u32 \<times> u64) \<times> region_sys) res" where
  "page_for plat fuel ps r st =
     (if first_page ps \<noteq> 0 then
        ebind (newsubregion plat fuel 0 st) (\<lambda>(r, st). Inr ((a_pages (regs st r), 1, r), st))
      else if r = 0 then Inl NullDeref
      else if pkind ps = REGULAR then
        ebind (on_pages (alloc_single_page (p_rand plat) (p_malloc plat) (p_spins plat) (a_pages (regs st r))) st) (\<lambda>(p, st).
        Inr ((p, 1, r), upd_reg r (\<lambda>g. g\<lparr>a_pages := p\<rparr>) st))
      else
        let num_pages = ucast (scast (ps_size ps) div RPAGESIZE)
        in ebind (on_pages (alloc_pages (p_rand plat) (p_malloc plat) (p_spins plat) num_pages (a_bigpages (regs st r))) st) (\<lambda>(p, st).
           Inr ((p, num_pages, r), upd_reg r (\<lambda>g. g\<lparr>a_bigpages := p\<rparr>) st)))"

text \<open>One turn of the loop of \<open>allocate_regions\<close>; \<open>None\<close> stands for a record cut short.\<close>

definition allocate_page :: "platform \<Rightarrow> nat \<Rightarrow> page_state option \<Rightarrow> u64 \<times> translation \<times> region_sys \<Rightarrow>
    (u64 \<times> translation \<times> region_sys) res" where
  "allocate_page plat fuel rec = (\<lambda>(r, t, st).
     case rec of None \<Rightarrow> Inl Aborted
     | Some ps \<Rightarrow>
         ebind (page_for plat fuel ps r st) (\<lambda>((newpage, num_pages, r), st).
         ebind (mark_region plat newpage num_pages r st) (\<lambda>st.
         if push_bit RPAGELOG (drop_bit RPAGELOG (old_address ps)) \<noteq> old_address ps then Inl Aborted
         else ebind (map_unit (nat (sint num_pages)) (old_address ps) newpage t) (\<lambda>t. Inr (r, t, st)))))"

definition allocate_regions :: "platform \<Rightarrow> nat \<Rightarrow> page_state option list \<Rightarrow> translation \<Rightarrow> region_sys \<Rightarrow>
    (translation \<times> region_sys) res" where
  "allocate_regions plat fuel state t st =
     ebind (efold (allocate_page plat fuel) state (0, t, st)) (\<lambda>(r, t, st). Inr (t, st))"

definition update_ablock :: "translation \<Rightarrow> ablock \<Rightarrow> ablock \<Rightarrow> ablock res" where
  "update_ablock t a old = ebind (translate_pointer t (allocfrom old)) (\<lambda>p. Inr (a\<lparr>allocfrom := p\<rparr>))"

definition update_allocator :: "translation \<Rightarrow> region \<Rightarrow> region \<Rightarrow> region res" where
  "update_allocator t a b = ebind (update_ablock t (a_page a) (a_page b)) (\<lambda>blk. Inr (a\<lparr>a_page := blk\<rparr>))"

text \<open>The caller's function for the objects of a region: it returns the size of the object it updated.\<close>

type_synonym updater = "translation \<Rightarrow> u64 \<Rightarrow> heap \<Rightarrow> (u32 \<times> heap) res"

primrec update_page :: "nat \<Rightarrow> u64 \<Rightarrow> u64 \<Rightarrow> translation \<Rightarrow> updater \<Rightarrow> heap \<Rightarrow> heap res" where
  "update_page 0 current limit t update h = Inl OutOfFuel"
| "update_page (Suc n) current limit t update h =
     (let current = PALIGN current (scast RALIGNMENT)
      in if current \<ge> limit then Inr h
         else ebind (update t current h) (\<lambda>(sz, h). update_page n (current + scast sz) limit t update h))"

text \<open>\<open>read\<close> of a page dumps over headers and bytes alike.\<close>

definition read_page :: "u64 \<Rightarrow> u32 \<Rightarrow> dump list \<Rightarrow> heap \<Rightarrow> (dump list \<times> heap) res" where
  "read_page newp sz data h =
     (case data of [] \<Rightarrow> Inl Aborted
      | d # data \<Rightarrow>
          if length (d_bytes d) \<noteq> nat (sint sz) then Inl Aborted
          else Inr (data, h\<lparr>sys := upd_reg (newp + PAGE_PREVIOUS) (\<lambda>_. d_region d)
                 ((sys h)\<lparr>pg := upd_page newp (\<lambda>_. d_header d) (pg (sys h))\<rparr>),
               mem := store_bytes newp (d_bytes d) (mem h)\<rparr>))"

text \<open>
  One turn of the loop of \<open>deserialize_pages\<close>.  The state: the rest of the data file, the updaters not
  yet used up (\<open>None\<close> for a null array), the heap.  \<open>struct page\<close> ends with the field \<open>previous\<close>,
  the first eight bytes behind the header.
\<close>

definition deserialize_page :: "nat \<Rightarrow> translation \<Rightarrow> page_state option \<Rightarrow> dump list \<times> updater list option \<times> heap \<Rightarrow>
    (dump list \<times> updater list option \<times> heap) res" where
  "deserialize_page fuel t rec = (\<lambda>(data, update, h).
     case rec of None \<Rightarrow> Inl Aborted
     | Some ps \<Rightarrow>
         ebind (translate_pointer t (old_address ps)) (\<lambda>newp.
         let first = newp + PAGE_PREVIOUS;
             p = page_at (pg (sys h)) newp; p_previous = load64 (mem h) first;
             save_new_region = regs (sys h) first
         in ebind (read_page newp (ps_size ps) data h) (\<lambda>(data, h).
            let save_previous = load64 (mem h) first;
                save_available = available (page_at (pg (sys h)) newp);
                h = h\<lparr>sys := (sys h)\<lparr>pg := upd_page newp (\<lambda>_. p) (pg (sys h))\<rparr>, mem := store64 first p_previous (mem h)\<rparr>;
                h = h\<lparr>mem := store64 first save_previous (mem h)\<rparr>
            in ebind (translate_pointer t save_available) (\<lambda>avail.
               let h = h\<lparr>sys := set_available newp avail (sys h)\<rparr>
               in ebind (if first_page ps \<noteq> 0 then
                       let save_old_region = regs (sys h) first
                       in ebind (update_allocator t save_new_region save_old_region) (\<lambda>r.
                          Inr (first + REGION_SIZE, h\<lparr>sys := upd_reg first (\<lambda>_. r) (sys h)\<rparr>))
                     else Inr (first, h)) (\<lambda>(start, h).
                  case update of None \<Rightarrow> Inr (data, update, h)
                  | Some [] \<Rightarrow> Inl OutOfBounds
                  | Some (u # us) \<Rightarrow>
                      ebind (update_page fuel start (available (page_at (pg (sys h)) newp)) t u h) (\<lambda>h.
                      Inr (data, Some (if last_page ps \<noteq> 0 then us else u # us), h)))))))"

definition deserialize_pages :: "nat \<Rightarrow> dump list \<Rightarrow> page_state option list \<Rightarrow> translation \<Rightarrow> updater list option \<Rightarrow>
    heap \<Rightarrow> heap res" where
  "deserialize_pages fuel data state t update h =
     ebind (efold (deserialize_page fuel t) state (data, update, h)) (\<lambda>(data, update, h). Inr h)"

text \<open>The table is one big object, which \<open>qalloc\<close> clears.\<close>

definition new_translation :: "platform \<Rightarrow> nat \<Rightarrow> u64 \<Rightarrow> region_sys \<Rightarrow> (translation \<times> region_sys) res" where
  "new_translation plat fuel r st =
     ebind (rc_rstralloc plat r 16 st) (\<lambda>(t, st).
     ebind (newsubregion plat fuel 0 st) (\<lambda>(reg, st).
     ebind (rc_rstralloc plat reg (8 * push_bit (32 - RPAGELOG) 1) st) (\<lambda>(m, st).
     Inr (\<lparr>t_reg = reg, t_map = (\<lambda>_. 0)\<rparr>, st))))"

definition delete_translation :: "platform \<Rightarrow> nat \<Rightarrow> translation \<Rightarrow> region_sys \<Rightarrow> region_sys res" where
  "delete_translation plat fuel t = deleteregion plat fuel (t_reg t)"

definition deserialize :: "platform \<Rightarrow> nat \<Rightarrow> bool \<Rightarrow> dump list \<Rightarrow> page_state option list \<Rightarrow> updater list option \<Rightarrow>
    u64 \<Rightarrow> heap \<Rightarrow> (translation option \<times> heap) res" where
  "deserialize plat fuel opened data state update r h =
     ebind (new_translation plat fuel r (sys h)) (\<lambda>(t, st).
     if \<not> opened then Inr (None, h\<lparr>sys := st\<rparr>)
     else ebind (allocate_regions plat fuel state t st) (\<lambda>(t, st).
          ebind (deserialize_pages fuel data state t update (h\<lparr>sys := st\<rparr>)) (\<lambda>h. Inr (Some t, h))))"

end
