(* ===== verification/Serialize_Ok.thy ===== *)
theory Serialize_Ok
  imports Serialize
begin

text \<open>
  A region that is written and read back is the same region at other addresses: as many pages in
  the same order, the same bytes, and a table that takes every old address to the new one.
\<close>

section \<open>The region that is written\<close>

text \<open>The field \<open>available\<close> of every page points into the page; the region allocates from the newest
  page and its header lies in the oldest.\<close>

definition used_ok :: "region_sys \<Rightarrow> u64 \<Rightarrow> u64 list \<Rightarrow> bool" where
  "used_ok st r ps \<longleftrightarrow> ps \<noteq> [] \<and> last ps + 32 = r \<and> base (a_page (regs st r)) = hd ps
     \<and> avail (pg st) (hd ps) = allocfrom (a_page (regs st r))
     \<and> (\<forall>p \<in> set ps. unat p + 32 \<le> unat (avail (pg st) p) \<and> unat (avail (pg st) p) < unat p + 16384)"

lemma used_run:
  assumes plat: "platform_ok plat" and inv: "pages_inv U (pg st0)" and "region_run plat st0 r objs st"
  shows "\<exists>ps. life_inv U st r objs ps \<and> used_ok st r ps"
  using assms(3)
proof (induction rule: region_run.induct)
  case (run_new fuel r st)
  then obtain p where p: "r = p + 32" "p \<notin> U" "pages_inv (insert p U) (pg st)"
      "region_ok (insert p U) st (p + 32) [p]" "a_bigpages (regs st (p + 32)) = 0"
      "r_parent (regs st (p + 32)) = 0" "r_children (regs st (p + 32)) = 0"
      "a_page (regs st (p + 32)) = \<lparr>base = p, allocfrom = p + 128\<rparr>" "avail (pg st) = (avail (pg st0))(p := p + 128)"
    using newregion_ok [OF plat inv, of fuel] by auto
  have "life_inv U st r [] [p]" using p by (simp add: life_inv_def)
  moreover have "unat (p + 128) = unat p + 128" using page_end(1) [OF p(3), of p] by (simp add: unat_plus_if')
  then have "used_ok st r [p]" using p by (simp add: used_ok_def)
  ultimately show ?case by blast
next
  case (run_object r objs st sz mem st')
  then obtain ps where ps: "life_inv U st r objs ps" "used_ok st r ps" by blast
  obtain ps1 where life: "life_inv U st' r ((mem, sz) # objs) ps1"
    using life_object [OF plat ps(1) run_object(2,3,4)] by blast
  have l: "pages_inv (U \<union> set ps) (pg st)" "region_ok (U \<union> set ps) st r ps" using ps(1) by (auto simp: life_inv_def)
  obtain U' ps' where s: "region_ok U' st' r ps'" "pages_inv U' (pg st')"
      "U' = U \<union> set ps \<and> ps' = ps \<and> base (a_page (regs st' r)) = base (a_page (regs st r))
        \<or> (\<exists>p. p \<notin> U \<union> set ps \<and> U' = insert p (U \<union> set ps) \<and> ps' = p # ps \<and> base (a_page (regs st' r)) = p)"
      "avail (pg st') = (avail (pg st))(base (a_page (regs st' r)) := allocfrom (a_page (regs st' r)))"
    using rstralloc_small [OF plat l(1) run_object(2) l(2) run_object(3)] run_object(4) by auto
  have "ps' = ps1" using chain_unique s(1) life by (auto simp: region_ok_def life_inv_def)
  moreover have "used_ok st' r ps'"
    using s ps(2) unfolding used_ok_def region_ok_def by auto
  ultimately show ?case using life by blast
qed

section \<open>What is written\<close>

definition page_rec :: "u64 \<Rightarrow> u64 \<Rightarrow> u64 \<Rightarrow> page_state" where
  "page_rec fp lp p = \<lparr>first_page = fp, last_page = lp, akind = NORMAL, pkind = REGULAR,
      ps_size = ucast RPAGESIZE, old_address = p\<rparr>"

primrec page_recs :: "u64 \<Rightarrow> u64 list \<Rightarrow> page_state list" where
  "page_recs fp [] = []"
| "page_recs fp (p # ps) = page_rec fp (if ps = [] then 1 else 0) p # page_recs 0 ps"

lemma serialize_pages_ok:
  assumes "\<And>n sz. disk n sz = sz"
  shows "\<exists>w. serialize_pages disk h pgs fp 1 NORMAL REGULAR (ucast RPAGESIZE) f
    = Inr (f\<lparr>data_file := data_file f @ map (\<lambda>p. dump_page h p (ucast RPAGESIZE)) pgs,
             state_file := state_file f @ page_recs fp pgs, writes := w\<rparr>)"
proof (induction pgs arbitrary: fp f)
  case Nil
  then show ?case by (auto intro: exI [of _ "writes f"])
next
  case (Cons p pgs)
  have "write_all disk sz f = Inr (f\<lparr>writes := writes f + 1\<rparr>)" for sz f
    using assms by (simp add: write_all_def Let_def)
  moreover define rec where "rec = page_rec fp (if pgs = [] then 1 else 0) p"
  moreover define f1 where "f1 = f\<lparr>data_file := data_file f @ [dump_page h p (ucast RPAGESIZE)],
      writes := Suc (Suc (writes f)), state_file := state_file f @ [rec]\<rparr>"
  ultimately have e: "serialize_pages disk h (p # pgs) fp 1 NORMAL REGULAR (ucast RPAGESIZE) f
      = serialize_pages disk h pgs 0 1 NORMAL REGULAR (ucast RPAGESIZE) f1"
    by (simp add: Let_def page_rec_def)
  obtain w where "serialize_pages disk h pgs 0 1 NORMAL REGULAR (ucast RPAGESIZE) f1
      = Inr (f1\<lparr>data_file := data_file f1 @ map (\<lambda>p. dump_page h p (ucast RPAGESIZE)) pgs,
               state_file := state_file f1 @ page_recs 0 pgs, writes := w\<rparr>)"
    using Cons.IH by blast
  then show ?case unfolding e by (intro exI [of _ w]) (cases f, simp add: f1_def rec_def)
qed

lemma region_self: "\<exists>g :: region. (x :: region) = x\<lparr>a_page := a_page g, a_pages := a_pages g\<rparr>"
  by (rule exI [of _ x]) simp

text \<open>The list of pages is built while the pages of its nodes come and go.\<close>

lemma make_page_list_ok:
  assumes plat: "platform_ok plat" "mem_bounded (p_malloc plat)"
  shows "pages_inv (V \<union> set ts) (pg st) \<Longrightarrow> set ts \<inter> V = {} \<Longrightarrow> accounted (pg st) \<Longrightarrow> region_ok (V \<union> set ts) st temp ts \<Longrightarrow>
    chain (nxt (pg st)) p qs \<Longrightarrow> set qs \<subseteq> V \<Longrightarrow> length qs \<le> n \<Longrightarrow>
    make_page_list plat n p temp acc st = Inl Aborted
    \<or> (\<exists>st' ts'. make_page_list plat n p temp acc st = Inr (rev qs @ acc, st')
        \<and> pages_inv (V \<union> set ts') (pg st') \<and> set ts' \<inter> V = {} \<and> accounted (pg st') \<and> region_ok (V \<union> set ts') st' temp ts'
        \<and> length ts' \<le> length ts + length qs \<and> (\<forall>q. q \<noteq> temp \<longrightarrow> regs st' q = regs st q)
        \<and> (\<exists>g :: region. regs st' temp = (regs st temp)\<lparr>a_page := a_page g, a_pages := a_pages g\<rparr>)
        \<and> (\<forall>q \<in> V. nxt (pg st') q = nxt (pg st) q \<and> avail (pg st') q = avail (pg st) q))"
proof (induction n arbitrary: p qs ts acc st)
  case 0
  then have "p = 0" "qs = []" by auto
  then show ?case using 0 region_self [of "regs st temp"] by (intro disjI2 exI [of _ st] exI [of _ ts]) simp
next
  case (Suc n)
  show ?case
  proof (cases qs)
    case Nil
    then have "p = 0" using Suc.prems by simp
    then show ?thesis using Nil Suc.prems region_self [of "regs st temp"]
      by (intro disjI2 exI [of _ st] exI [of _ ts]) simp
  next
    case (Cons a as)
    then have c: "p \<noteq> 0" "a = p" "chain (nxt (pg st)) (nxt (pg st) p) as" "p \<in> V" "set as \<subseteq> V" "length as \<le> n"
      using Suc.prems by auto
    have sz: "unat PAGE_LIST_SIZE \<le> 4096" by (simp add: PAGE_LIST_SIZE_def)
    note al = rstralloc_small [OF plat(1) Suc.prems(1) accounted_room [OF Suc.prems(3)] Suc.prems(4) sz]
    show ?thesis
    proof (cases "rc_rstralloc plat temp PAGE_LIST_SIZE st = Inl Aborted")
      case True
      then show ?thesis using c(1) by simp
    next
      case False
      with al obtain m st1 V1 ts1 where s: "rc_rstralloc plat temp PAGE_LIST_SIZE st = Inr (m, st1)"
          "pages_inv V1 (pg st1)" "region_ok V1 st1 temp ts1"
          "V1 = V \<union> set ts \<and> ts1 = ts \<or> (\<exists>x. x \<notin> V \<union> set ts \<and> V1 = insert x (V \<union> set ts) \<and> ts1 = x # ts)"
          "\<forall>q. q \<noteq> temp \<longrightarrow> regs st1 q = regs st q"
          "\<exists>g :: region. regs st1 temp = (regs st temp)\<lparr>a_page := a_page g, a_pages := a_pages g\<rparr>"
          "\<forall>q \<in> V \<union> set ts. nxt (pg st1) q = nxt (pg st) q" "kept_count plat (pg st) (pg st1)"
          "avail (pg st1) = (avail (pg st))(base (a_page (regs st1 temp)) := allocfrom (a_page (regs st1 temp)))"
        by blast
      have ts1: "V1 = V \<union> set ts1" "set ts1 \<inter> V = {}" "length ts1 \<le> Suc (length ts)" using s(4) Suc.prems(2) by auto
      have acc1: "accounted (pg st1)" using s(8) plat(2) Suc.prems(3) by (simp add: kept_count_def)
      have "base (a_page (regs st1 temp)) \<in> set ts1" using s(3) by (simp add: region_ok_def)
      then have fr: "\<forall>q \<in> V. nxt (pg st1) q = nxt (pg st) q \<and> avail (pg st1) q = avail (pg st) q"
        using s(7,9) ts1(2) by auto
      have "\<forall>q \<in> set as. nxt (pg st1) q = nxt (pg st) q" using fr c(5) by auto
      then have "chain (nxt (pg st1)) (nxt (pg st1) p) as" using c(3,4) fr by (metis chain_cong)
      from Suc.IH [OF s(2) [unfolded ts1(1)] ts1(2) acc1 s(3) [unfolded ts1(1)] this c(5,6), of "p # acc"]
      show ?thesis
      proof (elim disjE exE conjE)
        assume "make_page_list plat n (nxt (pg st1) p) temp (p # acc) st1 = Inl Aborted"
        then show ?thesis using s(1) c(1) by (simp add: nxt_def)
      next
        fix st' ts' and g :: region
        assume h: "make_page_list plat n (nxt (pg st1) p) temp (p # acc) st1 = Inr (rev as @ p # acc, st')"
          "pages_inv (V \<union> set ts') (pg st')" "set ts' \<inter> V = {}" "accounted (pg st')" "region_ok (V \<union> set ts') st' temp ts'"
          "length ts' \<le> length ts1 + length as" "\<forall>q. q \<noteq> temp \<longrightarrow> regs st' q = regs st1 q"
          "regs st' temp = (regs st1 temp)\<lparr>a_page := a_page g, a_pages := a_pages g\<rparr>"
          "\<forall>q \<in> V. nxt (pg st') q = nxt (pg st1) q \<and> avail (pg st') q = avail (pg st1) q"
        have "make_page_list plat (Suc n) p temp acc st = Inr (rev qs @ acc, st')"
          using h(1) s(1) c(1,2) Cons by (simp add: nxt_def)
        moreover have "\<exists>g :: region. regs st' temp = (regs st temp)\<lparr>a_page := a_page g, a_pages := a_pages g\<rparr>"
          using h(8) s(6) by auto
        moreover have "length ts' \<le> length ts + length qs" using h(6) ts1(3) Cons by simp
        ultimately show ?thesis using h(2-5,7,9) s(5) fr
          by (intro disjI2 exI [of _ st'] exI [of _ ts']) simp
      qed
    qed
  qed
qed

text \<open>The dumps of the pages \<open>ps\<close> of the region at \<open>r\<close>, the oldest page first.\<close>

definition written :: "heap \<Rightarrow> u64 \<Rightarrow> u64 list \<Rightarrow> dump list \<Rightarrow> bool" where
  "written h r ps data \<longleftrightarrow> length data = length ps \<and> d_region (data ! 0) = regs (sys h) r
     \<and> (\<forall>i < length ps. available (d_header (data ! i)) = avail (pg (sys h)) (ps ! i)
          \<and> d_bytes (data ! i) = load_bytes (ps ! i) 16384 (mem h))"

text \<open>Memory runs out while the list of pages is made.\<close>

definition out_of_memory :: "platform \<Rightarrow> nat \<Rightarrow> u64 \<Rightarrow> region_sys \<Rightarrow> bool" where
  "out_of_memory plat fuel r st \<longleftrightarrow> newsubregion plat fuel 0 st = Inl Aborted
     \<or> (\<exists>temp st1. newsubregion plat fuel 0 st = Inr (temp, st1)
          \<and> make_page_list plat fuel (a_pages (regs st1 r)) temp [] st1 = Inl Aborted)"

lemma out_of_memory_aborts: "out_of_memory plat fuel r (sys h) \<Longrightarrow> serialize_region plat fuel disk r (h, f) = Inl Aborted"
  by (auto simp: out_of_memory_def serialize_region_def on_sys_def)

lemma serialize_region_ok:
  assumes plat: "platform_ok plat" "mem_bounded (p_malloc plat)" and disk: "\<And>n sz. disk n sz = sz"
    and life: "life_inv U (sys h) r objs ps" and used: "used_ok (sys h) r ps" and acc: "accounted (pg (sys h))"
    and fuel: "length ps < fuel"
  shows "out_of_memory plat fuel r (sys h)
    \<or> (\<exists>h' data w. serialize_region plat fuel disk r (h, f)
          = Inr (h', f\<lparr>data_file := data_file f @ data, state_file := state_file f @ page_recs 1 (rev ps), writes := w\<rparr>)
        \<and> written h r (rev ps) data)"
proof -
  let ?V = "U \<union> set ps"
  have l: "pages_inv ?V (pg (sys h))" "chain (nxt (pg (sys h))) (a_pages (regs (sys h) r)) ps" "a_bigpages (regs (sys h) r) = 0"
    using life by (auto simp: life_inv_def region_ok_def)
  have r: "last ps \<in> ?V" "last ps + 32 = r" "ps \<noteq> []" using used by (auto simp: used_ok_def)
  note new = newregion_ok [OF plat(1) l(1) accounted_room [OF acc], of fuel]
  show ?thesis
  proof (cases "newsubregion plat fuel 0 (sys h) = Inl Aborted")
    case True
    then show ?thesis by (simp add: out_of_memory_def)
  next
    case False
    with new obtain p st1 where s: "newsubregion plat fuel 0 (sys h) = Inr (p + 32, st1)" "p \<notin> ?V"
        "pages_inv (insert p ?V) (pg st1)" "region_ok (insert p ?V) st1 (p + 32) [p]"
        "a_bigpages (regs st1 (p + 32)) = 0" "r_parent (regs st1 (p + 32)) = 0" "r_children (regs st1 (p + 32)) = 0"
        "\<forall>q. q \<noteq> p + 32 \<longrightarrow> regs st1 q = regs (sys h) q" "\<forall>q \<in> ?V. nxt (pg st1) q = nxt (pg (sys h)) q"
        "kept_count plat (pg (sys h)) (pg st1)" "avail (pg st1) = (avail (pg (sys h)))(p := p + 128)"
      by blast
    have "p \<noteq> last ps" using s(2) r(1) by auto
    then have rt: "r \<noteq> p + 32" using r(2) by auto
    have acc1: "accounted (pg st1)" using s(10) plat(2) acc by (simp add: kept_count_def)
    have "\<forall>q \<in> set ps. nxt (pg st1) q = nxt (pg (sys h)) q" using s(9) by simp
    then have ch: "chain (nxt (pg st1)) (a_pages (regs st1 r)) ps" using l(2) s(8) rt by (metis chain_cong)
    have ins: "insert p ?V = ?V \<union> set [p]" by simp
    note list = make_page_list_ok [OF plat s(3) [unfolded ins] _ acc1 s(4) [unfolded ins] ch, of fuel "[]"]
    show ?thesis
    proof (cases "make_page_list plat fuel (a_pages (regs st1 r)) (p + 32) [] st1 = Inl Aborted")
      case True
      then show ?thesis using s(1) by (simp add: out_of_memory_def)
    next
      case False
      with list obtain st2 ts and g :: region where
        m: "make_page_list plat fuel (a_pages (regs st1 r)) (p + 32) [] st1 = Inr (rev ps, st2)"
          "pages_inv (?V \<union> set ts) (pg st2)" "region_ok (?V \<union> set ts) st2 (p + 32) ts" "length ts \<le> Suc (length ps)"
          "\<forall>q. q \<noteq> p + 32 \<longrightarrow> regs st2 q = regs st1 q"
          "regs st2 (p + 32) = (regs st1 (p + 32))\<lparr>a_page := a_page g, a_pages := a_pages g\<rparr>"
          "\<forall>q \<in> ?V. nxt (pg st2) q = nxt (pg st1) q \<and> avail (pg st2) q = avail (pg st1) q"
        using s(2) fuel by auto
      have nil: "make_page_list plat fuel 0 t acc st = Inr (acc, st)" for t acc st by (cases fuel) simp_all
      let ?h = "h\<lparr>sys := st2\<rparr>"
      define data where "data = map (\<lambda>p. dump_page ?h p (ucast RPAGESIZE)) (rev ps)"
      obtain w where w: "serialize_pages disk ?h (rev ps) 1 1 NORMAL REGULAR (ucast RPAGESIZE) f
          = Inr (f\<lparr>data_file := data_file f @ data, state_file := state_file f @ page_recs 1 (rev ps), writes := w\<rparr>)"
        using serialize_pages_ok [of disk ?h "rev ps" 1 f, OF disk] unfolding data_def by blast
      have "a_bigpages (regs st2 (p + 32)) = 0" "r_parent (regs st2 (p + 32)) = 0" "r_children (regs st2 (p + 32)) = 0"
        using s(5-7) unfolding m(6) by simp_all
      moreover have "length ts \<le> fuel" using m(4) fuel by simp
      ultimately obtain st3 where del: "deleteregion plat fuel (p + 32) st2 = Inr st3"
        using deleteregion_ok [OF plat(1) m(2,3)] by blast
      have big: "a_bigpages (regs st2 r) = 0" using m(5) s(8) rt l(3) by simp
      have "serialize_region plat fuel disk r (h, f)
          = Inr (h\<lparr>sys := st3\<rparr>, f\<lparr>data_file := data_file f @ data, state_file := state_file f @ page_recs 1 (rev ps), writes := w\<rparr>)"
        using s(1) m(1) w del big nil by (simp add: serialize_region_def on_sys_def)
      moreover have "written h r (rev ps) data"
      proof -
        have "regs st2 r = regs (sys h) r" using m(5) s(8) rt by simp
        moreover have "rev ps ! 0 + 32 = r" using r(2,3) by (simp add: rev_nth last_conv_nth)
        moreover have "avail (pg st2) q = avail (pg (sys h)) q" if "q \<in> set ps" for q
          using m(7) s(11,2) that by auto
        then have "avail (pg st2) (rev ps ! i) = avail (pg (sys h)) (rev ps ! i)" if "i < length ps" for i
          using that nth_mem [of i "rev ps"] by auto
        ultimately show ?thesis using r(3)
          by (simp add: written_def data_def dump_page_def avail_def RPAGESIZE_eq PAGE_PREVIOUS_def)
      qed
      ultimately show ?thesis by blast
    qed
  qed
qed

section \<open>The table\<close>

definition low_page :: "u64 \<Rightarrow> bool" where
  "low_page p \<longleftrightarrow> 16384 dvd unat p \<and> unat p < 2 ^ 32"

lemma low_offset:
  assumes "low_page p" and "i < 16384"
  shows "unat (p + of_nat i) = unat p + i" "drop_bit RPAGELOG (p + of_nat i) = drop_bit RPAGELOG p"
    "(p + of_nat i) AND drop_bit (32 - RPAGELOG) 0xFFFFFFFF = of_nat i" "drop_bit RPAGELOG p < TRANSLATIONS"
proof -
  obtain c where c: "unat p = 16384 * c" "16384 * c < 2 ^ 32" using assms(1) by (auto simp: low_page_def)
  show u: "unat (p + of_nat i) = unat p + i"
    using assms(2) c by (simp add: unat_plus_if' unat_of_nat take_bit_nat_eq_self)
  have "(16384 * c + i) div 16384 = c" using assms(2) by simp
  then have "unat (drop_bit RPAGELOG (p + of_nat i)) = unat (drop_bit RPAGELOG p)"
    unfolding unat_drop u by (simp add: RPAGELOG_def c(1))
  then show "drop_bit RPAGELOG (p + of_nat i) = drop_bit RPAGELOG p" by (simp add: word_unat_eq_iff)
  have m: "drop_bit (32 - RPAGELOG) 0xFFFFFFFF = (mask 14 :: u64)" by (simp add: RPAGELOG_def mask_eq_exp_minus_1)
  have "unat ((p + of_nat i) AND mask 14) = take_bit 14 (unat (p + of_nat i))"
    by (simp add: take_bit_eq_mask [symmetric] unsigned_take_bit_eq)
  also have "\<dots> = (16384 * c + i) mod 16384" unfolding u c(1) by (simp add: take_bit_eq_mod)
  also have "\<dots> = i" using assms(2) by simp
  finally have "unat ((p + of_nat i) AND mask 14) = unat (of_nat i :: u64)"
    using assms(2) by (simp add: unat_of_nat take_bit_nat_eq_self)
  then show "(p + of_nat i) AND drop_bit (32 - RPAGELOG) 0xFFFFFFFF = of_nat i" unfolding m by (simp add: word_unat_eq_iff)
  have "unat (drop_bit RPAGELOG p) = c" by (simp add: unat_drop RPAGELOG_def c(1))
  moreover have "unat TRANSLATIONS = 262144" by (simp add: TRANSLATIONS_def RPAGELOG_def push_bit_eq_mult)
  ultimately show "drop_bit RPAGELOG p < TRANSLATIONS" using c(2) by (simp add: word_less_nat_alt)
qed

lemma translate_ok:
  assumes "low_page p" and "i < 16384"
  shows "translate_pointer t (p + of_nat i) = Inr (t_map t (drop_bit RPAGELOG p) + of_nat i)"
  using low_offset [OF assms] by (simp add: translate_pointer_def map_read_def)

lemma page_aligned: "16384 dvd unat p \<Longrightarrow> push_bit RPAGELOG (drop_bit RPAGELOG p) = (p :: u64)"
proof -
  assume "16384 dvd unat p"
  then obtain c where c: "unat p = 16384 * c" by (auto simp: dvd_def)
  then have "c < 2 ^ 64" using unat_lt2p64 [of p] by simp
  then have d: "drop_bit RPAGELOG p = of_nat c"
    by (simp add: word_unat_eq_iff unat_drop RPAGELOG_def c) (simp add: unat_of_nat take_bit_nat_eq_self)
  have "push_bit RPAGELOG (of_nat c) = (of_nat (16384 * c) :: u64)" by (simp add: RPAGELOG_def push_bit_eq_mult)
  also have "\<dots> = p" using c by (metis of_nat_unat ucast_id)
  finally show ?thesis unfolding d .
qed

lemma low_page_aligned: "low_page p \<Longrightarrow> push_bit RPAGELOG (drop_bit RPAGELOG p) = p"
  by (simp add: low_page_def page_aligned)

lemma low_page_inj: "low_page p \<Longrightarrow> low_page q \<Longrightarrow> drop_bit RPAGELOG p = drop_bit RPAGELOG q \<Longrightarrow> p = q"
  by (metis low_page_aligned)

section \<open>The region that is allocated\<close>

definition read_inv :: "u64 set \<Rightarrow> region_sys \<Rightarrow> u64 \<Rightarrow> u64 list \<Rightarrow> bool" where
  "read_inv V st r qs \<longleftrightarrow> pages_inv (V \<union> set qs) (pg st) \<and> set qs \<inter> V = {} \<and> distinct qs \<and> accounted (pg st)
     \<and> qs \<noteq> [] \<and> r = last qs + 32 \<and> chain (nxt (pg st)) (a_pages (regs st r)) qs \<and> base (a_page (regs st r)) = last qs"

text \<open>One page for one record.\<close>

lemma map_unit_one: "low_page p \<Longrightarrow> map_unit (nat (sint (1 :: u32))) p q t = Inr (t\<lparr>t_map := (t_map t)(drop_bit RPAGELOG p := q)\<rparr>)"
  using low_offset(4) [of p 0] by (simp add: map_write_def)

lemma allocate_first:
  assumes plat: "platform_ok plat" "mem_bounded (p_malloc plat)" and inv: "pages_inv V (pg st)" "accounted (pg st)"
    and low: "low_page p"
  shows "allocate_page plat fuel (Some (page_rec 1 lp p)) (r, t, st) = Inl Aborted
    \<or> (\<exists>q st'. allocate_page plat fuel (Some (page_rec 1 lp p)) (r, t, st)
          = Inr (q + 32, t\<lparr>t_map := (t_map t)(drop_bit RPAGELOG p := q)\<rparr>, st') \<and> read_inv V st' (q + 32) [q])"
proof -
  note new = newregion_ok [OF plat(1) inv(1) accounted_room [OF inv(2)], of fuel]
  show ?thesis
  proof (cases "newsubregion plat fuel 0 st = Inl Aborted")
    case True
    then show ?thesis by (simp add: allocate_page_def page_for_def page_rec_def)
  next
    case False
    with new obtain q st1 where s: "newsubregion plat fuel 0 st = Inr (q + 32, st1)" "q \<notin> V" "pages_inv (insert q V) (pg st1)"
        "region_ok (insert q V) st1 (q + 32) [q]" "kept_count plat (pg st) (pg st1)"
        "a_page (regs st1 (q + 32)) = \<lparr>base = q, allocfrom = q + 128\<rparr>" "a_pages (regs st1 (q + 32)) = q"
      by blast
    obtain m where m: "mark_region plat q 1 (q + 32) st1 = Inr (st1\<lparr>rmap := m\<rparr>)" using mark_region_ok [OF plat(1)] by blast
    have "accounted (pg st1)" using s(5) plat(2) inv(2) by (simp add: kept_count_def)
    then have "read_inv V (st1\<lparr>rmap := m\<rparr>) (q + 32) [q]"
      using s by (simp add: read_inv_def region_ok_def)
    moreover have "allocate_page plat fuel (Some (page_rec 1 lp p)) (r, t, st)
        = Inr (q + 32, t\<lparr>t_map := (t_map t)(drop_bit RPAGELOG p := q)\<rparr>, st1\<lparr>rmap := m\<rparr>)"
      using s(1,7) m low_page_aligned [OF low] map_unit_one [OF low]
      by (simp add: allocate_page_def page_for_def page_rec_def)
    ultimately show ?thesis by blast
  qed
qed

lemma allocate_next:
  assumes plat: "platform_ok plat" "mem_bounded (p_malloc plat)" and inv: "read_inv V st r qs" and low: "low_page p"
  shows "allocate_page plat fuel (Some (page_rec 0 lp p)) (r, t, st) = Inl Aborted
    \<or> (\<exists>q st'. allocate_page plat fuel (Some (page_rec 0 lp p)) (r, t, st)
          = Inr (r, t\<lparr>t_map := (t_map t)(drop_bit RPAGELOG p := q)\<rparr>, st') \<and> read_inv V st' r (q # qs))"
proof -
  have i: "pages_inv (V \<union> set qs) (pg st)" "accounted (pg st)" "r \<noteq> 0" and ri: "r = last qs + 32" "qs \<noteq> []"
  proof -
    show "pages_inv (V \<union> set qs) (pg st)" "accounted (pg st)" "r = last qs + 32" "qs \<noteq> []" using inv unfolding read_inv_def by blast+
    then have "unat (last qs) + 32768 \<le> 2 ^ 64" using page_end(1) [of "V \<union> set qs" "pg st" "last qs"] by simp
    then have "unat (last qs + 32) = unat (last qs) + 32" by (simp add: unat_plus_if')
    then show "r \<noteq> 0" using \<open>r = last qs + 32\<close> by (metis add_is_0 numeral_neq_zero unat_0)
  qed
  let ?get = "on_pages (alloc_single_page (p_rand plat) (p_malloc plat) (p_spins plat) (a_pages (regs st r))) st"
  note new = get_page_ok [OF plat(1) i(1) accounted_room [OF i(2)], of "a_pages (regs st r)"]
  show ?thesis
  proof (cases "?get = Inl Aborted")
    case True
    then show ?thesis using i(3) by (simp add: allocate_page_def page_for_def page_rec_def)
  next
    case False
    with new obtain q s' where s: "?get = Inr (q, st\<lparr>pg := s'\<rparr>)" "q \<notin> V \<union> set qs" "pages_inv (insert q (V \<union> set qs)) s'"
        "nxt s' q = a_pages (regs st r)" "\<forall>x \<in> V \<union> set qs. nxt s' x = nxt (pg st) x" "kept_count plat (pg st) s'"
      by blast
    let ?st = "upd_reg r (\<lambda>g. g\<lparr>a_pages := q\<rparr>) (st\<lparr>pg := s'\<rparr>)"
    obtain m where m: "mark_region plat q 1 r ?st = Inr (?st\<lparr>rmap := m\<rparr>)" using mark_region_ok [OF plat(1)] by blast
    have "accounted s'" using s(6) plat(2) i(2) by (simp add: kept_count_def)
    moreover have "chain (nxt s') q (q # qs)"
    proof -
      have "chain (nxt (pg st)) (a_pages (regs st r)) qs" using inv unfolding read_inv_def by blast
      moreover have "\<forall>x \<in> set qs. nxt s' x = nxt (pg st) x" using s(5) by simp
      ultimately have "chain (nxt s') (a_pages (regs st r)) qs" by (metis chain_cong)
      moreover have "q \<noteq> 0" using page_end(4) [OF s(3), of q] by simp
      ultimately show ?thesis using s(4) by simp
    qed
    ultimately have "read_inv V (?st\<lparr>rmap := m\<rparr>) r (q # qs)"
      using inv s(2,3) by (auto simp: read_inv_def)
    moreover have "allocate_page plat fuel (Some (page_rec 0 lp p)) (r, t, st)
        = Inr (r, t\<lparr>t_map := (t_map t)(drop_bit RPAGELOG p := q)\<rparr>, ?st\<lparr>rmap := m\<rparr>)"
      using s(1) m low_page_aligned [OF low] map_unit_one [OF low] i(3)
      by (simp add: allocate_page_def page_for_def page_rec_def)
    ultimately show ?thesis by blast
  qed
qed

lemma allocate_rest:
  assumes plat: "platform_ok plat" "mem_bounded (p_malloc plat)"
  shows "read_inv V st r qs \<Longrightarrow> \<forall>p \<in> set ps. low_page p \<Longrightarrow> distinct ps \<Longrightarrow>
    efold (allocate_page plat fuel) (map Some (page_recs 0 ps)) (r, t, st) = Inl Aborted
    \<or> (\<exists>t' st' qs'. efold (allocate_page plat fuel) (map Some (page_recs 0 ps)) (r, t, st) = Inr (r, t', st')
        \<and> read_inv V st' r (rev qs' @ qs) \<and> length qs' = length ps
        \<and> (\<forall>i < length ps. t_map t' (drop_bit RPAGELOG (ps ! i)) = qs' ! i)
        \<and> (\<forall>x. x \<notin> drop_bit RPAGELOG ` set ps \<longrightarrow> t_map t' x = t_map t x))"
proof (induction ps arbitrary: t st qs)
  case Nil
  then show ?case by (intro disjI2 exI [of _ t] exI [of _ st] exI [of _ "[]"]) simp
next
  case (Cons p ps)
  let ?rec = "page_rec 0 (if ps = [] then 1 else 0) p"
  have low: "low_page p" "\<forall>p \<in> set ps. low_page p" using Cons.prems by auto
  note step = allocate_next [OF plat Cons.prems(1) low(1), of fuel "if ps = [] then 1 else 0" t]
  show ?case
  proof (cases "allocate_page plat fuel (Some ?rec) (r, t, st) = Inl Aborted")
    case True
    then show ?thesis by simp
  next
    case False
    with step obtain q st1 where s: "allocate_page plat fuel (Some ?rec) (r, t, st)
        = Inr (r, t\<lparr>t_map := (t_map t)(drop_bit RPAGELOG p := q)\<rparr>, st1)" "read_inv V st1 r (q # qs)" by blast
    let ?t = "t\<lparr>t_map := (t_map t)(drop_bit RPAGELOG p := q)\<rparr>"
    have out: "drop_bit RPAGELOG p \<notin> drop_bit RPAGELOG ` set ps"
      using low_page_inj [OF low(1)] low(2) Cons.prems(3) by auto
    have d: "distinct ps" using Cons.prems(3) by simp
    from Cons.IH [OF s(2) low(2) d, of ?t] show ?thesis
    proof (elim disjE exE conjE)
      assume "efold (allocate_page plat fuel) (map Some (page_recs 0 ps)) (r, ?t, st1) = Inl Aborted"
      then show ?thesis using s(1) by simp
    next
      fix t' st' qs'
      assume h: "efold (allocate_page plat fuel) (map Some (page_recs 0 ps)) (r, ?t, st1) = Inr (r, t', st')"
        "read_inv V st' r (rev qs' @ q # qs)" "length qs' = length ps"
        "\<forall>i < length ps. t_map t' (drop_bit RPAGELOG (ps ! i)) = qs' ! i"
        "\<forall>x. x \<notin> drop_bit RPAGELOG ` set ps \<longrightarrow> t_map t' x = t_map ?t x"
      have "t_map t' (drop_bit RPAGELOG p) = q" using h(5) out by simp
      then have "\<forall>i < length (p # ps). t_map t' (drop_bit RPAGELOG ((p # ps) ! i)) = (q # qs') ! i"
        using h(4) by (simp add: All_less_Suc2)
      then show ?thesis using h s(1)
        by (intro disjI2 exI [of _ t'] exI [of _ st'] exI [of _ "q # qs'"]) simp
    qed
  qed
qed

lemma allocate_regions_ok:
  assumes plat: "platform_ok plat" "mem_bounded (p_malloc plat)" and inv: "pages_inv V (pg st)" "accounted (pg st)"
    and ps: "ps \<noteq> []" "\<forall>p \<in> set ps. low_page p" "distinct ps"
  shows "allocate_regions plat fuel (map Some (page_recs 1 ps)) t st = Inl Aborted
    \<or> (\<exists>t' st' qs. allocate_regions plat fuel (map Some (page_recs 1 ps)) t st = Inr (t', st')
        \<and> read_inv V st' (hd qs + 32) (rev qs) \<and> length qs = length ps
        \<and> (\<forall>i < length ps. t_map t' (drop_bit RPAGELOG (ps ! i)) = qs ! i))"
proof -
  obtain p as where as: "ps = p # as" using ps(1) by (cases ps) auto
  have low: "low_page p" "\<forall>p \<in> set as. low_page p" "distinct as" using ps as by auto
  let ?rec = "page_rec 1 (if as = [] then 1 else 0) p"
  note first = allocate_first [OF plat inv low(1), of fuel "if as = [] then 1 else 0" 0 t]
  show ?thesis
  proof (cases "allocate_page plat fuel (Some ?rec) (0, t, st) = Inl Aborted")
    case True
    then show ?thesis using as by (simp add: allocate_regions_def)
  next
    case False
    let ?t = "\<lambda>q. t\<lparr>t_map := (t_map t)(drop_bit RPAGELOG p := q)\<rparr>"
    from False first obtain q st1 where s: "allocate_page plat fuel (Some ?rec) (0, t, st) = Inr (q + 32, ?t q, st1)"
        "read_inv V st1 (q + 32) [q]" by blast
    have out: "drop_bit RPAGELOG p \<notin> drop_bit RPAGELOG ` set as"
      using low_page_inj [OF low(1)] ps as by auto
    from allocate_rest [OF plat s(2) low(2,3), of fuel "?t q"] show ?thesis
    proof (elim disjE exE conjE)
      assume "efold (allocate_page plat fuel) (map Some (page_recs 0 as)) (q + 32, ?t q, st1) = Inl Aborted"
      then show ?thesis using s(1) as by (simp add: allocate_regions_def)
    next
      fix t' st' qs'
      assume h: "efold (allocate_page plat fuel) (map Some (page_recs 0 as)) (q + 32, ?t q, st1) = Inr (q + 32, t', st')"
        "read_inv V st' (q + 32) (rev qs' @ [q])" "length qs' = length as"
        "\<forall>i < length as. t_map t' (drop_bit RPAGELOG (as ! i)) = qs' ! i"
        "\<forall>x. x \<notin> drop_bit RPAGELOG ` set as \<longrightarrow> t_map t' x = t_map (?t q) x"
      have "t_map t' (drop_bit RPAGELOG p) = q" using h(5) out by simp
      then have "\<forall>i < length ps. t_map t' (drop_bit RPAGELOG (ps ! i)) = (q # qs') ! i"
        using h(4) as by (simp add: All_less_Suc2)
      then show ?thesis using h s(1) as
        by (intro disjI2 exI [of _ t'] exI [of _ st'] exI [of _ "q # qs'"]) (simp add: allocate_regions_def)
    qed
  qed
qed

section \<open>The contents that are read\<close>

lemma page_apart:
  fixes p q :: u64
  assumes "16384 dvd unat p" "16384 dvd unat q" "p \<noteq> q" "unat p + 32768 \<le> 2 ^ 64" "unat q + 32768 \<le> 2 ^ 64" "i < 16384"
  shows "16384 \<le> unat (p + of_nat i - q)"
proof -
  obtain c d where c: "unat p = 16384 * c" "unat q = 16384 * d" using assms(1,2) by (auto simp: dvd_def)
  have u: "unat (p + of_nat i) = unat p + i"
    using assms(4,6) by (simp add: unat_plus_if' unat_of_nat take_bit_nat_eq_self)
  have "c \<noteq> d" using c assms(3) by (metis word_unat_eq_iff)
  then consider "c + 1 \<le> d" | "d + 1 \<le> c" by linarith
  then show ?thesis
  proof cases
    case 1
    then have "unat q \<ge> unat p + 16384" using c by linarith
    then have "unat (p + of_nat i - q) = 2 ^ 64 + (unat p + i) - unat q"
      using u assms(6) by (simp add: unat_sub_if')
    then show ?thesis using assms(5) by linarith
  next
    case 2
    then have "unat p \<ge> unat q + 16384" using c by linarith
    then have "unat (p + of_nat i - q) = unat p + i - unat q" using u by (simp add: unat_sub_if')
    then show ?thesis using \<open>unat p \<ge> unat q + 16384\<close> by linarith
  qed
qed

text \<open>The dump of the page \<open>p\<close>.\<close>

definition dump_ok :: "u64 \<Rightarrow> dump \<Rightarrow> bool" where
  "dump_ok p d \<longleftrightarrow> low_page p \<and> length (d_bytes d) = 16384
     \<and> (\<exists>i < 16384. available (d_header d) = p + of_nat i)"

definition placed :: "heap \<Rightarrow> u64 \<Rightarrow> dump \<Rightarrow> u64 \<Rightarrow> bool" where
  "placed h q d p \<longleftrightarrow> avail (pg (sys h)) q = q + (available (d_header d) - p)
     \<and> (\<forall>i < 16384. mem h (q + of_nat i) = d_bytes d ! i)"

lemma deserialize_step:
  assumes d: "dump_ok p d" and q: "t_map t (drop_bit RPAGELOG p) = q" and fp: "fp = 0 \<or> (\<exists>i < 16384. low_page l \<and> allocfrom (a_page (d_region d)) = l + of_nat i)"
  shows "\<exists>h'. deserialize_page fuel t (Some (page_rec fp lp p)) (d # data, None, h) = Inr (data, None, h')
    \<and> nxt (pg (sys h')) = nxt (pg (sys h)) \<and> mem h' = store_bytes q (d_bytes d) (mem h)
    \<and> avail (pg (sys h')) = (avail (pg (sys h)))(q := q + (available (d_header d) - p))
    \<and> (\<forall>x. x \<noteq> q + 32 \<longrightarrow> regs (sys h') x = regs (sys h) x)
    \<and> (fp \<noteq> 0 \<longrightarrow> (\<exists>al. translate_pointer t (allocfrom (a_page (d_region d))) = Inr al
          \<and> regs (sys h') (q + 32) = (regs (sys h) (q + 32))\<lparr>a_page := (a_page (regs (sys h) (q + 32)))\<lparr>allocfrom := al\<rparr>\<rparr>))"
proof -
  obtain i where i: "i < 16384" "available (d_header d) = p + of_nat i" and low: "low_page p" "length (d_bytes d) = 16384"
    using d by (auto simp: dump_ok_def)
  have newp: "translate_pointer t p = Inr q" using translate_ok [OF low(1), of 0 t] q by simp
  have av: "translate_pointer t (p + of_nat i) = Inr (q + of_nat i)" using translate_ok [OF low(1) i(1), of t] q by simp
  let ?m = "store_bytes q (d_bytes d) (mem h)"
  let ?s = "upd_reg (q + 32) (\<lambda>_. d_region d) ((sys h)\<lparr>pg := upd_page q (\<lambda>_. d_header d) (pg (sys h))\<rparr>)"
  let ?p = "page_at (pg (sys h)) q"
  have sz: "nat (sint (ucast RPAGESIZE :: u32)) = 16384" by (simp add: RPAGESIZE_eq)
  have hd: "page_at (pg ?s) q = d_header d" by (simp add: upd_page_def)
  define s2 where "s2 = set_available q (q + of_nat i) (?s\<lparr>pg := upd_page q (\<lambda>_. ?p) (pg ?s)\<rparr>)"
  have s2: "nxt (pg s2) = nxt (pg (sys h))" "avail (pg s2) = (avail (pg (sys h)))(q := q + of_nat i)"
      "regs s2 = (regs (sys h))(q + 32 := d_region d)"
    by (auto simp: s2_def upd_page_def nxt_def avail_def fun_eq_iff set_available_def)
  show ?thesis
  proof (cases "fp = 0")
    case True
    have "deserialize_page fuel t (Some (page_rec fp lp p)) (d # data, None, h) = Inr (data, None, h\<lparr>sys := s2, mem := ?m\<rparr>)"
      using True newp av hd i(2) sz low(2)
      by (simp add: deserialize_page_def page_rec_def read_page_def Let_def PAGE_PREVIOUS_def s2_def)
    then show ?thesis using s2 True i(2) by (intro exI [of _ "h\<lparr>sys := s2, mem := ?m\<rparr>"]) simp
  next
    case False
    then obtain j where j: "j < 16384" "low_page l" "allocfrom (a_page (d_region d)) = l + of_nat j" using fp by blast
    let ?al = "t_map t (drop_bit RPAGELOG l) + of_nat j"
    have al: "translate_pointer t (l + of_nat j) = Inr ?al" using translate_ok [OF j(2,1)] .
    let ?g = "(regs (sys h) (q + 32))\<lparr>a_page := (a_page (regs (sys h) (q + 32)))\<lparr>allocfrom := ?al\<rparr>\<rparr>"
    let ?h = "h\<lparr>sys := upd_reg (q + 32) (\<lambda>_. ?g) s2, mem := ?m\<rparr>"
    have "deserialize_page fuel t (Some (page_rec fp lp p)) (d # data, None, h) = Inr (data, None, ?h)"
      using False newp av hd i(2) sz low(2) al j(3)
      by (simp add: deserialize_page_def page_rec_def read_page_def Let_def PAGE_PREVIOUS_def s2_def
          update_allocator_def update_ablock_def)
    then show ?thesis using s2 i(2) al j(3) by (intro exI [of _ ?h]) simp
  qed
qed

definition page_addr :: "u64 \<Rightarrow> bool" where
  "page_addr q \<longleftrightarrow> 16384 dvd unat q \<and> unat q + 32768 \<le> 2 ^ 64"

text \<open>What later pages leave of an earlier one.\<close>

lemma placed_kept:
  assumes q: "page_addr q" "q \<notin> set qs" "\<forall>q \<in> set qs. page_addr q" and d: "length (d_bytes d) = 16384"
    and m: "mem h1 = store_bytes q (d_bytes d) m" "\<forall>x. (\<forall>q \<in> set qs. 16384 \<le> unat (x - q)) \<longrightarrow> mem h' x = mem h1 x"
    and a: "avail (pg (sys h1)) = f(q := q + (available (d_header d) - p))"
      "\<forall>x. x \<notin> set qs \<longrightarrow> avail (pg (sys h')) x = avail (pg (sys h1)) x"
  shows "placed h' q d p"
  unfolding placed_def
proof (intro conjI allI impI)
  show "avail (pg (sys h')) q = q + (available (d_header d) - p)" using a q(2) by simp
  fix i :: nat assume i: "i < 16384"
  have "\<forall>x \<in> set qs. 16384 \<le> unat (q + of_nat i - x)"
    using page_apart [OF _ _ _ _ _ i] q by (auto simp: page_addr_def)
  then have "mem h' (q + of_nat i) = mem h1 (q + of_nat i)" using m(2) by blast
  also have "\<dots> = d_bytes d ! i"
    using i d by (simp add: m(1) store_bytes_def unat_of_nat take_bit_nat_eq_self)
  finally show "mem h' (q + of_nat i) = d_bytes d ! i" .
qed

lemma deserialize_rest:
  "length data = length ps \<Longrightarrow> length qs = length ps \<Longrightarrow> distinct qs \<Longrightarrow> \<forall>q \<in> set qs. page_addr q \<Longrightarrow>
   \<forall>i < length ps. dump_ok (ps ! i) (data ! i) \<and> t_map t (drop_bit RPAGELOG (ps ! i)) = qs ! i \<Longrightarrow>
   \<exists>h'. efold (deserialize_page fuel t) (map Some (page_recs 0 ps)) (data, None, h) = Inr ([], None, h')
     \<and> nxt (pg (sys h')) = nxt (pg (sys h)) \<and> (\<forall>i < length ps. placed h' (qs ! i) (data ! i) (ps ! i))
     \<and> (\<forall>x. x \<notin> (\<lambda>q. q + 32) ` set qs \<longrightarrow> regs (sys h') x = regs (sys h) x)
     \<and> (\<forall>x. x \<notin> set qs \<longrightarrow> avail (pg (sys h')) x = avail (pg (sys h)) x)
     \<and> (\<forall>x. (\<forall>q \<in> set qs. 16384 \<le> unat (x - q)) \<longrightarrow> mem h' x = mem h x)"
proof (induction ps arbitrary: data qs h)
  case Nil
  then show ?case by (intro exI [of _ h]) simp
next
  case (Cons p ps)
  obtain d ds q qs' where l: "data = d # ds" "qs = q # qs'"
    using Cons.prems(1,2) by (cases data; cases qs) auto
  have e: "dump_ok p d" "t_map t (drop_bit RPAGELOG p) = q" using Cons.prems(5) l by auto
  obtain h1 where h1: "deserialize_page fuel t (Some (page_rec 0 (if ps = [] then 1 else 0) p)) (d # ds, None, h) = Inr (ds, None, h1)"
      "nxt (pg (sys h1)) = nxt (pg (sys h))" "mem h1 = store_bytes q (d_bytes d) (mem h)"
      "avail (pg (sys h1)) = (avail (pg (sys h)))(q := q + (available (d_header d) - p))"
      "\<forall>x. x \<noteq> q + 32 \<longrightarrow> regs (sys h1) x = regs (sys h) x"
    using deserialize_step [OF e, of 0 0 fuel "if ps = [] then 1 else 0" ds h] by auto
  have "\<forall>i < length ps. dump_ok (ps ! i) (ds ! i) \<and> t_map t (drop_bit RPAGELOG (ps ! i)) = qs' ! i"
    using Cons.prems(5) l by (auto simp: nth_Cons split: nat.splits)
  then obtain h' where h': "efold (deserialize_page fuel t) (map Some (page_recs 0 ps)) (ds, None, h1) = Inr ([], None, h')"
      "nxt (pg (sys h')) = nxt (pg (sys h1))" "\<forall>i < length ps. placed h' (qs' ! i) (ds ! i) (ps ! i)"
      "\<forall>x. x \<notin> (\<lambda>q. q + 32) ` set qs' \<longrightarrow> regs (sys h') x = regs (sys h1) x"
      "\<forall>x. x \<notin> set qs' \<longrightarrow> avail (pg (sys h')) x = avail (pg (sys h1)) x"
      "\<forall>x. (\<forall>q \<in> set qs'. 16384 \<le> unat (x - q)) \<longrightarrow> mem h' x = mem h1 x"
    using Cons.IH [of ds qs' h1] Cons.prems(1-4) l by auto
  have len: "length (d_bytes d) = 16384" using e(1) by (simp add: dump_ok_def)
  have "placed h' q d p"
    by (rule placed_kept [OF _ _ _ len h1(3) h'(6) h1(4) h'(5)]) (use Cons.prems(3,4) l in auto)
  then have "\<forall>i < length (p # ps). placed h' (qs ! i) (data ! i) ((p # ps) ! i)"
    using h'(3) l by (simp add: All_less_Suc2)
  moreover have "mem h' x = mem h x" if "\<forall>q \<in> set qs. 16384 \<le> unat (x - q)" for x
    using that h'(6) h1(3) l len by (simp add: store_bytes_def)
  ultimately show ?case using h1 h' l by (intro exI [of _ h']) auto
qed

text \<open>The whole region.\<close>

lemma deserialize_pages_ok:
  assumes len: "length data = length ps" "length qs = length ps" "ps \<noteq> []" and dist: "distinct qs" and pages: "\<forall>q \<in> set qs. page_addr q"
    and each: "\<forall>i < length ps. dump_ok (ps ! i) (data ! i) \<and> t_map t (drop_bit RPAGELOG (ps ! i)) = qs ! i"
    and al: "l \<in> set ps" "j < 16384" "allocfrom (a_page (d_region (data ! 0))) = l + of_nat j"
  shows "\<exists>h' x. deserialize_pages fuel data (map Some (page_recs 1 ps)) t None h = Inr h'
     \<and> nxt (pg (sys h')) = nxt (pg (sys h)) \<and> (\<forall>i < length ps. placed h' (qs ! i) (data ! i) (ps ! i))
     \<and> translate_pointer t (allocfrom (a_page (d_region (data ! 0)))) = Inr x
     \<and> regs (sys h') (hd qs + 32) = (regs (sys h) (hd qs + 32))\<lparr>a_page := (a_page (regs (sys h) (hd qs + 32)))\<lparr>allocfrom := x\<rparr>\<rparr>"
proof -
  obtain p as d ds q qs' where l: "ps = p # as" "data = d # ds" "qs = q # qs'"
    using len by (cases ps; cases data; cases qs) auto
  have e: "dump_ok p d" "t_map t (drop_bit RPAGELOG p) = q" using each l by auto
  have low: "low_page l" using al(1) each by (auto simp: in_set_conv_nth dump_ok_def)
  have "\<exists>i < 16384. low_page l \<and> allocfrom (a_page (d_region d)) = l + of_nat i" using al low l by auto
  then obtain h1 x where h1: "deserialize_page fuel t (Some (page_rec 1 (if as = [] then 1 else 0) p)) (d # ds, None, h) = Inr (ds, None, h1)"
      "nxt (pg (sys h1)) = nxt (pg (sys h))" "mem h1 = store_bytes q (d_bytes d) (mem h)"
      "avail (pg (sys h1)) = (avail (pg (sys h)))(q := q + (available (d_header d) - p))"
      "translate_pointer t (allocfrom (a_page (d_region d))) = Inr x"
      "regs (sys h1) (q + 32) = (regs (sys h) (q + 32))\<lparr>a_page := (a_page (regs (sys h) (q + 32)))\<lparr>allocfrom := x\<rparr>\<rparr>"
    using deserialize_step [OF e, of 1 l fuel "if as = [] then 1 else 0" ds h] by auto
  have "\<forall>i < length as. dump_ok (as ! i) (ds ! i) \<and> t_map t (drop_bit RPAGELOG (as ! i)) = qs' ! i"
    using each l by (auto simp: nth_Cons split: nat.splits)
  then obtain h' where h': "efold (deserialize_page fuel t) (map Some (page_recs 0 as)) (ds, None, h1) = Inr ([], None, h')"
      "nxt (pg (sys h')) = nxt (pg (sys h1))" "\<forall>i < length as. placed h' (qs' ! i) (ds ! i) (as ! i)"
      "\<forall>x. x \<notin> (\<lambda>q. q + 32) ` set qs' \<longrightarrow> regs (sys h') x = regs (sys h1) x"
      "\<forall>x. x \<notin> set qs' \<longrightarrow> avail (pg (sys h')) x = avail (pg (sys h1)) x"
      "\<forall>x. (\<forall>q \<in> set qs'. 16384 \<le> unat (x - q)) \<longrightarrow> mem h' x = mem h1 x"
    using deserialize_rest [of ds as qs' t fuel h1] len dist pages l by auto
  have dl: "length (d_bytes d) = 16384" using e(1) by (simp add: dump_ok_def)
  have "placed h' q d p"
    by (rule placed_kept [OF _ _ _ dl h1(3) h'(6) h1(4) h'(5)]) (use dist pages l in auto)
  then have "\<forall>i < length ps. placed h' (qs ! i) (data ! i) (ps ! i)"
    using h'(3) l by (simp add: All_less_Suc2)
  moreover have "q + 32 \<notin> (\<lambda>q. q + 32) ` set qs'" using dist l by auto
  ultimately show ?thesis using h1 h' l
    by (intro exI [of _ h'] exI [of _ x]) (simp add: deserialize_pages_def)
qed

section \<open>The round trip\<close>

text \<open>
  The region at \<open>r'\<close> with the pages \<open>qs\<close> is the region at \<open>r\<close> with the pages \<open>ps\<close> (newest first): the
  table translates every address, every byte is in place, so is what the header needs to go on
  allocating, but for the start of the current page.
\<close>

definition same_region :: "heap \<Rightarrow> u64 \<Rightarrow> u64 list \<Rightarrow> translation \<Rightarrow> heap \<Rightarrow> u64 \<Rightarrow> u64 list \<Rightarrow> bool" where
  "same_region h r ps t h' r' qs \<longleftrightarrow>
     length qs = length ps \<and> distinct qs \<and> r' = last qs + 32
     \<and> chain (nxt (pg (sys h'))) (a_pages (regs (sys h') r')) qs
     \<and> (\<forall>i < length ps. avail (pg (sys h')) (qs ! i) - qs ! i = avail (pg (sys h)) (ps ! i) - ps ! i)
     \<and> (\<forall>i < length ps. \<forall>j < 16384. translate_pointer t (ps ! i + of_nat j) = Inr (qs ! i + of_nat j)
          \<and> mem h' (qs ! i + of_nat j) = mem h (ps ! i + of_nat j))
     \<and> translate_pointer t (allocfrom (a_page (regs (sys h) r))) = Inr (allocfrom (a_page (regs (sys h') r')))
     \<and> base (a_page (regs (sys h') r')) = last qs"

lemma low_pages:
  assumes inv: "pages_inv U s" and p: "p \<in> U" and low: "\<forall>b \<in> set (blocks s). unat (fst b) + unat (snd b) \<le> 2 ^ 32"
  shows "low_page p"
proof -
  have "page_ok s p" using inv p by (auto simp: pages_inv_def lists_inv_def)
  then obtain b where b: "b \<in> set (blocks s)" "run_in p 1 b" by (auto simp: page_ok_def)
  then have "unat p + 16384 \<le> 2 ^ 32" using low by (fastforce simp: run_in_def)
  then show ?thesis using b(2) by (simp add: low_page_def run_in_def)
qed

lemma offset_of: "unat p \<le> unat a \<Longrightarrow> a = p + of_nat (unat a - unat (p :: u64))"
  by (simp add: of_nat_diff)

lemma all_rev: "length xs = length ys \<Longrightarrow>
    (\<forall>i < length ys. P (rev xs ! i) (rev ys ! i)) \<longleftrightarrow> (\<forall>i < length ys. P (xs ! i) (ys ! i))"
  using list_all2_rev [of P xs ys] by (simp add: list_all2_conv_all_nth)

lemma read_back:
  assumes life: "life_inv U (sys h) r objs ps" and used: "used_ok (sys h) r ps"
    and low: "\<forall>b \<in> set (blocks (pg (sys h))). unat (fst b) + unat (snd b) \<le> 2 ^ 32" and data: "written h r (rev ps) data"
    and plat: "platform_ok plat" "mem_bounded (p_malloc plat)" and inv: "pages_inv V (pg (sys g))" "accounted (pg (sys g))"
  shows "allocate_regions plat fuel (map Some (page_recs 1 (rev ps))) t (sys g) = Inl Aborted
    \<or> (\<exists>t' st h' qs. allocate_regions plat fuel (map Some (page_recs 1 (rev ps))) t (sys g) = Inr (t', st)
        \<and> deserialize_pages fuel data (map Some (page_recs 1 (rev ps))) t' None (g\<lparr>sys := st\<rparr>) = Inr h'
        \<and> same_region h r ps t' h' (last qs + 32) qs \<and> set qs \<inter> V = {})"
proof -
  have pages: "pages_inv (U \<union> set ps) (pg (sys h))" "distinct ps" "ps \<noteq> []"
    using life used by (auto simp: life_inv_def region_ok_def used_ok_def)
  have lowp: "\<forall>p \<in> set (rev ps). low_page p" using low_pages [OF pages(1) _ low] by auto
  note al = allocate_regions_ok [OF plat inv _ lowp, of fuel t]
  show ?thesis
  proof (cases "allocate_regions plat fuel (map Some (page_recs 1 (rev ps))) t (sys g) = Inl Aborted")
    case True
    then show ?thesis by blast
  next
    case False
    with al pages obtain t' st qs where s: "allocate_regions plat fuel (map Some (page_recs 1 (rev ps))) t (sys g) = Inr (t', st)"
        "read_inv V st (hd qs + 32) (rev qs)" "length qs = length ps"
        "\<forall>i < length ps. t_map t' (drop_bit RPAGELOG (rev ps ! i)) = qs ! i"
      by auto
    have q: "distinct qs" "set qs \<inter> V = {}" "qs \<noteq> []" "pages_inv (V \<union> set qs) (pg st)"
        "chain (nxt (pg st)) (a_pages (regs st (hd qs + 32))) (rev qs)" "base (a_page (regs st (hd qs + 32))) = hd qs"
      using s(2) by (simp_all add: read_inv_def last_rev)
    have qp: "\<forall>q \<in> set qs. page_addr q" using page_end [OF q(4)] by (auto simp: page_addr_def)
    have dump: "dump_ok (rev ps ! i) (data ! i)" if "i < length ps" for i
    proof -
      have p: "rev ps ! i \<in> set ps" using that nth_mem [of i "rev ps"] by simp
      then have a: "unat (rev ps ! i) \<le> unat (avail (pg (sys h)) (rev ps ! i))"
          "unat (avail (pg (sys h)) (rev ps ! i)) - unat (rev ps ! i) < 16384"
        using used by (fastforce simp: used_ok_def)+
      from offset_of [OF a(1)] a(2) show ?thesis
        using data that p lowp by (auto simp: dump_ok_def written_def)
    qed
    have l: "hd ps \<in> set (rev ps)" using pages(3) by simp
    have al: "unat (hd ps) \<le> unat (allocfrom (a_page (regs (sys h) r)))"
        "unat (allocfrom (a_page (regs (sys h) r))) - unat (hd ps) < 16384"
    proof -
      have "hd ps \<in> set ps" "avail (pg (sys h)) (hd ps) = allocfrom (a_page (regs (sys h) r))"
        using used by (simp_all add: used_ok_def)
      then have "unat (hd ps) + 32 \<le> unat (allocfrom (a_page (regs (sys h) r)))"
          "unat (allocfrom (a_page (regs (sys h) r))) < unat (hd ps) + 16384"
        using used unfolding used_ok_def by metis+
      then show "unat (hd ps) \<le> unat (allocfrom (a_page (regs (sys h) r)))"
          "unat (allocfrom (a_page (regs (sys h) r))) - unat (hd ps) < 16384" by linarith+
    qed
    have dreg: "d_region (data ! 0) = regs (sys h) r" "length data = length ps" using data by (simp_all add: written_def)
    let ?g = "g\<lparr>sys := st\<rparr>"
    obtain h' x where h': "deserialize_pages fuel data (map Some (page_recs 1 (rev ps))) t' None ?g = Inr h'"
        "nxt (pg (sys h')) = nxt (pg st)" "\<forall>i < length ps. placed h' (qs ! i) (data ! i) (rev ps ! i)"
        "translate_pointer t' (allocfrom (a_page (regs (sys h) r))) = Inr x"
        "regs (sys h') (hd qs + 32) = (regs st (hd qs + 32))\<lparr>a_page := (a_page (regs st (hd qs + 32)))\<lparr>allocfrom := x\<rparr>\<rparr>"
      using deserialize_pages_ok [of data "rev ps" qs t' "hd ps" "unat (allocfrom (a_page (regs (sys h) r))) - unat (hd ps)" fuel ?g]
        dump s(3,4) q(1) qp l al(2) offset_of [OF al(1)] dreg pages(3) by auto
    have lp: "low_page (rev ps ! i)" if "i < length ps" for i using that lowp nth_mem [of i "rev ps"] by auto
    have fields: "avail (pg (sys h')) (qs ! i) - qs ! i = avail (pg (sys h)) (rev ps ! i) - rev ps ! i
        \<and> (\<forall>j < 16384. translate_pointer t' (rev ps ! i + of_nat j) = Inr (qs ! i + of_nat j)
            \<and> mem h' (qs ! i + of_nat j) = mem h (rev ps ! i + of_nat j))" if i: "i < length ps" for i
    proof -
      have "placed h' (qs ! i) (data ! i) (rev ps ! i)" using h'(3) i by blast
      moreover have "available (d_header (data ! i)) = avail (pg (sys h)) (rev ps ! i)"
          "d_bytes (data ! i) = load_bytes (rev ps ! i) 16384 (mem h)" using data i by (simp_all add: written_def)
      ultimately show ?thesis using translate_ok [OF lp [OF i]] s(4) i by (simp add: placed_def load_bytes_def)
    qed
    let ?P = "\<lambda>q p. avail (pg (sys h')) q - q = avail (pg (sys h)) p - p
        \<and> (\<forall>j < 16384. translate_pointer t' (p + of_nat j) = Inr (q + of_nat j) \<and> mem h' (q + of_nat j) = mem h (p + of_nat j))"
    have "\<forall>i < length ps. ?P (rev qs ! i) (ps ! i)"
      using all_rev [of "rev qs" ps ?P] s(3) fields by simp
    moreover have "last (rev qs) = hd qs" using q(3) by (simp add: last_rev)
    ultimately have "same_region h r ps t' h' (last (rev qs) + 32) (rev qs)"
      using h' q s(3) by (simp add: same_region_def)
    then show ?thesis using s(1) h'(1) q(2)
      by (intro disjI2 exI [of _ t'] exI [of _ st] exI [of _ h'] exI [of _ "rev qs"]) simp
  qed
qed

section \<open>Properties\<close>


text \<open>The first regions of a process.\<close>

lemma small_process:
  "\<exists>st1 st2 st3 x. newsubregion plat_small n 0 regions_start = Inr (0x14020, st1)
     \<and> newsubregion plat_small (Suc (Suc k)) 0 st1 = Inr (0x1c020, st2)
     \<and> make_page_list plat_small (Suc (Suc k)) (a_pages (regs st2 0x14020)) 0x1c020 [] st2 = Inr (x, st3)
     \<and> blocks (pg st1) = [(0x10000, 0x8000)] \<and> chain (nxt (pg st1)) (a_pages (regs st1 0x14020)) [0x14000]"
  by (simp add: region_eval rc_rstralloc_def qalloc_def ALIGN_def RALIGNMENT_def PAGE_LIST_SIZE_def nxt_def)

lemma small_allocate:
  "allocate_regions plat_small fuel [Some (page_rec 1 1 0x14000)] t regions_start \<noteq> Inl Aborted"
proof -
  obtain st where st: "newsubregion plat_small fuel 0 regions_start = Inr (0x14020, st)" using small_process [of fuel 0] by blast
  obtain f where "mark_region plat_small p 1 r st = Inr (st\<lparr>rmap := f p r st\<rparr>)" for p r st
    using mark_region_ok [OF plat_small_ok(1)] by metis
  moreover have low: "low_page 0x14000" by (simp add: low_page_def)
  ultimately show ?thesis using st low_page_aligned [OF low] map_unit_one [OF low]
    by (simp add: allocate_regions_def allocate_page_def page_for_def page_rec_def)
qed

definition fresh_table :: translation where
  "fresh_table = \<lparr>t_reg = 0, t_map = (\<lambda>_. 0)\<rparr>"


text \<open>
  C30: The table has an entry for every page of the first 4 GiB only.  A page above, aligned as it is,
  ends the first pass outside the table (unless memory runs out before), and a pointer into it has no
  translation.
\<close>

theorem high_pages_out_of_table:
  assumes "platform_ok plat" and "pages_inv V (pg st)" and "accounted (pg st)"
    and "16384 dvd unat p" and "2 ^ 32 \<le> unat p"
  shows "allocate_regions plat fuel (Some (page_rec 1 lp p) # recs) t st \<in> {Inl Aborted, Inl OutOfBounds}
    \<and> translate_pointer t p = Inl OutOfBounds"
proof
  have high: "\<not> drop_bit RPAGELOG p < TRANSLATIONS"
  proof -
    have "2 ^ 32 div 2 ^ 14 \<le> unat p div 2 ^ 14" using assms(5) by (rule div_le_mono)
    moreover have "unat TRANSLATIONS = 262144" by (simp add: TRANSLATIONS_def RPAGELOG_def push_bit_eq_mult)
    ultimately show ?thesis by (simp add: word_less_nat_alt unat_drop RPAGELOG_def)
  qed
  then show "translate_pointer t p = Inl OutOfBounds" by (simp add: translate_pointer_def map_read_def)
  have unit: "map_unit (nat (sint (1 :: u32))) p q t = Inl OutOfBounds" for q using high by (simp add: map_write_def)
  show "allocate_regions plat fuel (Some (page_rec 1 lp p) # recs) t st \<in> {Inl Aborted, Inl OutOfBounds}"
  proof (cases "newsubregion plat fuel 0 st = Inl Aborted")
    case True
    then show ?thesis by (simp add: allocate_regions_def allocate_page_def page_for_def page_rec_def)
  next
    case False
    then obtain q st1 where s: "newsubregion plat fuel 0 st = Inr (q + 32, st1)" "a_pages (regs st1 (q + 32)) = q"
      using newregion_ok [OF assms(1,2) accounted_room [OF assms(3)], of fuel] by blast
    obtain m where "mark_region plat q 1 (q + 32) st1 = Inr (st1\<lparr>rmap := m\<rparr>)" using mark_region_ok [OF assms(1)] by blast
    then show ?thesis using s unit page_aligned [OF assms(4)]
      by (simp add: allocate_regions_def allocate_page_def page_for_def page_rec_def)
  qed
qed



theorem high_pages_out_of_table_witness:
  "allocate_regions plat_small 1 [Some (page_rec 1 1 0x100000000)] fresh_table regions_start \<in> {Inl Aborted, Inl OutOfBounds}
    \<and> translate_pointer fresh_table 0x100000000 = Inl OutOfBounds"
  using high_pages_out_of_table [OF plat_small_ok(1) regions_start_inv(1) accounted_start, of "0x100000000" 1 1 "[]" fresh_table]
  by simp

end
