(* ===== verification/Profile.thy ===== *)
theory Profile
  imports Serialize
begin

text \<open>
  \<open>src/profile.c\<close>: every allocation is logged under its place in the program and its region, and a
  report is printed when asked for.  The log entries are objects of a region of their own, the
  profile region, chained from the latest to the earliest; here a chain is the list of its entries,
  their allocation is a step of the region library as in the code.  \<open>registered_exit\<close> is 1 from
  the start, so nothing is registered; \<open>REGION_PROFILE_DEPTH\<close> is 0, so call chains are not traced.
\<close>

section \<open>Data\<close>

record alloc_info =
  a_file :: string
  a_line :: u32
  a_region :: u64
  a_size :: u64
  a_calls :: u64

record region_info =
  ri_region :: u64
  ri_file :: string
  ri_line :: u32

record file_info =
  f_file :: string
  f_size :: u64
  f_calls :: u64
  f_sites :: u64

record profile =
  ainfos :: "alloc_info list"
  rinfos :: "region_info list"
  finfos :: "file_info list"
  profile_region :: u64
  heap_of :: heap

text \<open>The sizes of the three structures on x86-64.\<close>

definition ALLOC_INFO_SIZE :: u64 where "ALLOC_INFO_SIZE = 48"
definition REGION_INFO_SIZE :: u64 where "REGION_INFO_SIZE = 32"
definition FILE_INFO_SIZE :: u64 where "FILE_INFO_SIZE = 40"

section \<open>The region library on the heap\<close>

text \<open>
  An allocation that clears; \<open>n\<close> is the size of the object with what precedes it.  An
  extension copies the old object behind the clearing of the new one.
\<close>

definition alloc_in :: "u64 \<Rightarrow> u32 \<Rightarrow> (region_sys \<Rightarrow> ((u64 \<times> nat list) \<times> region_sys) res) \<Rightarrow> heap \<Rightarrow> (u64 \<times> heap) res" where
  "alloc_in r n f h =
     ebind (f (sys h)) (\<lambda>((p, zs), st).
     Inr (p, h\<lparr>sys := st, mem := clear_mem (fresh_clears r p n (sys h) st @ zs) (mem h)\<rparr>))"

definition extend_in :: "u64 \<Rightarrow> u64 \<Rightarrow> u64 \<Rightarrow> (region_sys \<Rightarrow> ((u64 \<times> u64 \<times> nat list) \<times> region_sys) res) \<Rightarrow> heap \<Rightarrow>
    (u64 \<times> heap) res" where
  "extend_in r old newsize f h =
     ebind (f (sys h)) (\<lambda>((p, oldsize, zs), st).
     let m = clear_mem (fresh_clears r p (ALIGN 8 RALIGNMENT + ucast newsize) (sys h) st @ zs) (mem h)
     in Inr (p, h\<lparr>sys := st, mem := store_bytes p (load_bytes old (unat oldsize) m) m\<rparr>))"

definition on_heap :: "(heap \<Rightarrow> ('a \<times> heap) res) \<Rightarrow> profile \<Rightarrow> ('a \<times> profile) res" where
  "on_heap f p = ebind (f (heap_of p)) (\<lambda>(x, h). Inr (x, p\<lparr>heap_of := h\<rparr>))"

section \<open>Logging\<close>

text \<open>\<open>if (!profile_region) profile_region = __newregion()\<close>\<close>

definition need_region :: "platform \<Rightarrow> nat \<Rightarrow> profile \<Rightarrow> profile res" where
  "need_region plat fuel p =
     (if profile_region p = 0 then
        ebind (on_heap (on_sys (newsubregion plat fuel 0)) p) (\<lambda>(r, p). Inr (p\<lparr>profile_region := r\<rparr>))
      else Inr p)"

text \<open>\<open>ralloc\<close> in the profile region, of an object below the size for \<open>__rcralloc_small0\<close>.\<close>

definition new_entry :: "platform \<Rightarrow> u64 \<Rightarrow> profile \<Rightarrow> (u64 \<times> profile) res" where
  "new_entry plat sz p =
     on_heap (alloc_in (profile_region p) (ucast sz) (rc_ralloc_small0 plat (profile_region p) sz)) p"

text \<open>The position in the chain of the entry for a place and a region.\<close>

primrec site_index :: "string \<Rightarrow> u32 \<Rightarrow> u64 \<Rightarrow> alloc_info list \<Rightarrow> nat option" where
  "site_index file line r [] = None"
| "site_index file line r (ai # ais) =
     (if line = a_line ai \<and> file = a_file ai \<and> a_region ai = r then Some 0
      else map_option Suc (site_index file line r ais))"

definition find_ainfo :: "platform \<Rightarrow> nat \<Rightarrow> string \<Rightarrow> u32 \<Rightarrow> u64 \<Rightarrow> profile \<Rightarrow> (nat \<times> profile) res" where
  "find_ainfo plat fuel file line r p =
     (case site_index file line r (ainfos p) of
        Some i \<Rightarrow> Inr (i, p)
      | None \<Rightarrow>
          ebind (need_region plat fuel p) (\<lambda>p.
          ebind (new_entry plat ALLOC_INFO_SIZE p) (\<lambda>(_, p).
          Inr (0, p\<lparr>ainfos := \<lparr>a_file = file, a_line = line, a_region = r, a_size = 0, a_calls = 0\<rparr> # ainfos p\<rparr>))))"

text \<open>\<open>size\<close> is an \<open>int\<close>, added to an \<open>unsigned long\<close>.\<close>

definition count_alloc :: "u32 \<Rightarrow> alloc_info \<Rightarrow> alloc_info" where
  "count_alloc sz ai = ai\<lparr>a_calls := a_calls ai + 1, a_size := a_size ai + scast sz\<rparr>"

definition add_alloc :: "platform \<Rightarrow> nat \<Rightarrow> string \<Rightarrow> u32 \<Rightarrow> u64 \<Rightarrow> u32 \<Rightarrow> profile \<Rightarrow> profile res" where
  "add_alloc plat fuel file line r sz p =
     ebind (find_ainfo plat fuel file line r p) (\<lambda>(i, p).
     Inr (p\<lparr>ainfos := (ainfos p)[i := count_alloc sz (ainfos p ! i)]\<rparr>))"

primrec del_sites :: "u64 \<Rightarrow> alloc_info list \<Rightarrow> alloc_info list" where
  "del_sites r [] = []"
| "del_sites r (ai # ais) = (if a_region ai = r then del_sites r ais else ai # del_sites r ais)"

primrec del_region :: "u64 \<Rightarrow> region_info list \<Rightarrow> region_info list" where
  "del_region r [] = []"
| "del_region r (ri # ris) = (if ri_region ri = r then ris else ri # del_region r ris)"

definition del_allocs :: "u64 \<Rightarrow> profile \<Rightarrow> profile" where
  "del_allocs r p = p\<lparr>ainfos := del_sites r (ainfos p), rinfos := del_region r (rinfos p)\<rparr>"

section \<open>Intercepted calls\<close>

definition profile_typed_ralloc :: "platform \<Rightarrow> nat \<Rightarrow> u64 \<Rightarrow> u64 \<Rightarrow> string \<Rightarrow> u32 \<Rightarrow> profile \<Rightarrow> (u64 \<times> profile) res" where
  "profile_typed_ralloc plat fuel r sz file line p =
     ebind (add_alloc plat fuel file line r (ucast sz) p)
       (on_heap (alloc_in r (ucast sz) (rc_typed_ralloc plat r sz)))"

definition profile_typed_rarrayalloc :: "platform \<Rightarrow> nat \<Rightarrow> u64 \<Rightarrow> u64 \<Rightarrow> u64 \<Rightarrow> string \<Rightarrow> u32 \<Rightarrow> profile \<Rightarrow> (u64 \<times> profile) res" where
  "profile_typed_rarrayalloc plat fuel r n sz file line p =
     ebind (add_alloc plat fuel file line r (ucast (n * sz)) p)
       (on_heap (alloc_in r (ucast (n * sz)) (rc_typed_rarrayalloc plat r n sz)))"

definition profile_typed_rarrayextend :: "platform \<Rightarrow> nat \<Rightarrow> u64 \<Rightarrow> u64 \<Rightarrow> u64 \<Rightarrow> u64 \<Rightarrow> string \<Rightarrow> u32 \<Rightarrow> profile \<Rightarrow>
    (u64 \<times> profile) res" where
  "profile_typed_rarrayextend plat fuel r old n sz file line p =
     ebind (add_alloc plat fuel file line r (ucast (n * sz)) p)
       (on_heap (extend_in r old (n * sz) (rc_typed_rarrayextend plat r old n sz)))"

definition profile_rstralloc :: "platform \<Rightarrow> nat \<Rightarrow> u64 \<Rightarrow> u64 \<Rightarrow> string \<Rightarrow> u32 \<Rightarrow> profile \<Rightarrow> (u64 \<times> profile) res" where
  "profile_rstralloc plat fuel r sz file line p =
     ebind (add_alloc plat fuel file line r (ucast sz) p) (on_heap (heap_rstralloc plat r sz))"

definition profile_rstralloc0 :: "platform \<Rightarrow> nat \<Rightarrow> u64 \<Rightarrow> u64 \<Rightarrow> string \<Rightarrow> u32 \<Rightarrow> profile \<Rightarrow> (u64 \<times> profile) res" where
  "profile_rstralloc0 plat fuel r sz file line p =
     ebind (add_alloc plat fuel file line r (ucast sz) p) (on_heap (alloc_in r (ucast sz) (rc_rstralloc0 plat r sz)))"

definition profile_rstrdup :: "platform \<Rightarrow> nat \<Rightarrow> u64 \<Rightarrow> u64 \<Rightarrow> string \<Rightarrow> u32 \<Rightarrow> profile \<Rightarrow> (u64 \<times> profile) res" where
  "profile_rstrdup plat fuel r s file line p =
     ebind (strlen fuel (mem (heap_of p)) s) (\<lambda>n.
     ebind (add_alloc plat fuel file line r (of_nat n) p) (on_heap (rc_rstrdup plat fuel r s)))"

definition profile_rstrextend :: "platform \<Rightarrow> nat \<Rightarrow> u64 \<Rightarrow> u64 \<Rightarrow> u64 \<Rightarrow> string \<Rightarrow> u32 \<Rightarrow> profile \<Rightarrow> (u64 \<times> profile) res" where
  "profile_rstrextend plat fuel r old newsize file line p =
     ebind (add_alloc plat fuel file line r (ucast newsize) p)
       (on_heap (extend_in r old newsize (rc_rstrextend plat r old newsize)))"

definition profile_rstrextend0 :: "platform \<Rightarrow> nat \<Rightarrow> u64 \<Rightarrow> u64 \<Rightarrow> u64 \<Rightarrow> string \<Rightarrow> u32 \<Rightarrow> profile \<Rightarrow> (u64 \<times> profile) res" where
  "profile_rstrextend0 plat fuel r old newsize file line p =
     ebind (add_alloc plat fuel file line r (ucast newsize) p)
       (on_heap (extend_in r old newsize (rc_rstrextend0 plat r old newsize)))"

definition profile_rcralloc_small0 :: "platform \<Rightarrow> nat \<Rightarrow> u64 \<Rightarrow> u64 \<Rightarrow> string \<Rightarrow> u32 \<Rightarrow> profile \<Rightarrow> (u64 \<times> profile) res" where
  "profile_rcralloc_small0 plat fuel r sz file line p =
     ebind (add_alloc plat fuel file line r (ucast sz) p) (on_heap (alloc_in r (ucast sz) (rc_ralloc_small0 plat r sz)))"

definition profile_deleteregion :: "platform \<Rightarrow> nat \<Rightarrow> u64 \<Rightarrow> profile \<Rightarrow> profile res" where
  "profile_deleteregion plat fuel r p =
     (let p = del_allocs r p; h = heap_of p
      in ebind (deleteregion plat fuel r (sys h)) (\<lambda>st. Inr (p\<lparr>heap_of := h\<lparr>sys := st\<rparr>\<rparr>)))"

text \<open>The result is the pointer the caller is left with.\<close>

definition profile_deleteregion_ptr :: "platform \<Rightarrow> nat \<Rightarrow> u64 \<Rightarrow> profile \<Rightarrow> (u64 \<times> profile) res" where
  "profile_deleteregion_ptr plat fuel r p =
     on_heap (on_sys (deleteregion_ptr plat fuel r)) (del_allocs r p)"

definition profile_deleteregion_array :: "platform \<Rightarrow> nat \<Rightarrow> u64 list \<Rightarrow> profile \<Rightarrow> profile res" where
  "profile_deleteregion_array plat fuel regions p =
     (let p = fold del_allocs regions p; h = heap_of p
      in ebind (deleteregion_array plat fuel regions (sys h)) (\<lambda>st. Inr (p\<lparr>heap_of := h\<lparr>sys := st\<rparr>\<rparr>)))"

definition profile_newregion :: "platform \<Rightarrow> nat \<Rightarrow> string \<Rightarrow> u32 \<Rightarrow> profile \<Rightarrow> (u64 \<times> profile) res" where
  "profile_newregion plat fuel file line p =
     ebind (on_heap (on_sys (newsubregion plat fuel 0)) p) (\<lambda>(r, p).
     ebind (need_region plat fuel p) (\<lambda>p.
     ebind (new_entry plat REGION_INFO_SIZE p) (\<lambda>(_, p).
     Inr (r, p\<lparr>rinfos := \<lparr>ri_region = r, ri_file = file, ri_line = line\<rparr> # rinfos p\<rparr>))))"

section \<open>The report\<close>

text \<open>
  \<open>qsort\<close> sorts an array of pointers; a pointer stands for the position of its entry in the chain.
  The sorted array is relinked from its first element on, which reverses it.
\<close>

type_synonym sort_fun = "(nat \<Rightarrow> nat \<Rightarrow> u32) \<Rightarrow> nat list \<Rightarrow> nat list"

definition sort_list :: "platform \<Rightarrow> nat \<Rightarrow> sort_fun \<Rightarrow> ('a \<Rightarrow> 'a \<Rightarrow> u32) \<Rightarrow> 'a list \<Rightarrow> heap \<Rightarrow> ('a list \<times> heap) res" where
  "sort_list plat fuel qsort cmp l h =
     (let len = length l
      in ebind (on_sys (newsubregion plat fuel 0) h) (\<lambda>(temp_region, h).
         ebind (alloc_in temp_region (of_nat (8 * len)) (rc_typed_rarrayalloc plat temp_region (of_nat len) 8) h) (\<lambda>(_, h).
         let sorted_ptrs = qsort (\<lambda>i j. cmp (l ! i) (l ! j)) [0..<len];
             result = fold (\<lambda>i result. l ! i # result) sorted_ptrs []
         in ebind (deleteregion plat fuel temp_region (sys h)) (\<lambda>st. Inr (result, h\<lparr>sys := st\<rparr>)))))"

definition finfo_cmp :: "file_info \<Rightarrow> file_info \<Rightarrow> u32" where
  "finfo_cmp a b = ucast (f_size a - f_size b)"

definition ainfo_cmp :: "alloc_info \<Rightarrow> alloc_info \<Rightarrow> u32" where
  "ainfo_cmp a b = ucast (a_size a - a_size b)"

definition region_profile_total_mem :: "profile \<Rightarrow> u64" where
  "region_profile_total_mem p = fold (\<lambda>ai sz. sz + a_size ai) (ainfos p) 0"

text \<open>A line of the report: the columns of its format.\<close>

datatype row =
    Text string
  | FileRow u64 u64 u64 string
  | FileTotal u64 u64 u64
  | SiteRow u64 u64 string u32 u64
  | SiteTotal u64 u64
  | RegionRow u64 string u32

definition print_finfos :: "platform \<Rightarrow> nat \<Rightarrow> sort_fun \<Rightarrow> profile \<Rightarrow> (row list \<times> profile) res" where
  "print_finfos plat fuel qsort p =
     ebind (sort_list plat fuel qsort finfo_cmp (finfos p) (heap_of p)) (\<lambda>(l, h).
     let p = p\<lparr>finfos := l, heap_of := h\<rparr>;
         (sz, sites, calls, rows) = fold (\<lambda>fi (sz, sites, calls, rows).
            (sz + f_size fi, sites + f_sites fi, calls + f_calls fi,
             rows @ [FileRow (f_size fi) (f_sites fi) (f_calls fi) (f_file fi)])) l (0, 0, 0, [])
     in Inr ([Text ''        Bytes | Sites |    Calls | File'',
              Text ''  ------------+-------+----------+---------------------''] @ rows @
             [Text ''  ------------+-------+----------+---------------------'', FileTotal sz sites calls], p))"

definition print_ainfos :: "platform \<Rightarrow> nat \<Rightarrow> sort_fun \<Rightarrow> profile \<Rightarrow> (row list \<times> profile) res" where
  "print_ainfos plat fuel qsort p =
     ebind (sort_list plat fuel qsort ainfo_cmp (ainfos p) (heap_of p)) (\<lambda>(l, h).
     let p = p\<lparr>ainfos := l, heap_of := h\<rparr>;
         (sz, calls, rows) = fold (\<lambda>ai (sz, calls, rows).
            (sz + a_size ai, calls + a_calls ai,
             rows @ [SiteRow (a_size ai) (a_calls ai) (a_file ai) (a_line ai) (a_region ai)])) l (0, 0, [])
     in Inr ([Text ''        Bytes |    Calls | Site'', Text ''  ------------+----------+---------------------''] @ rows @
             [Text ''  ------------+----------+---------------------'', SiteTotal sz calls], p))"

definition print_rinfos :: "profile \<Rightarrow> row list" where
  "print_rinfos p =
     [Text [], Text [], Text ''Regions'', Text ''----------------------------------------''] @
     map (\<lambda>ri. RegionRow (ri_region ri) (ri_file ri) (ri_line ri)) (rinfos p) @ [Text []]"

primrec file_index :: "string \<Rightarrow> file_info list \<Rightarrow> nat option" where
  "file_index file [] = None"
| "file_index file (fi # fis) = (if file = f_file fi then Some 0 else map_option Suc (file_index file fis))"

definition find_finfo :: "platform \<Rightarrow> string \<Rightarrow> profile \<Rightarrow> (nat \<times> profile) res" where
  "find_finfo plat file p =
     (case file_index file (finfos p) of
        Some i \<Rightarrow> Inr (i, p)
      | None \<Rightarrow>
          ebind (new_entry plat FILE_INFO_SIZE p) (\<lambda>(_, p).
          Inr (0, p\<lparr>finfos := \<lparr>f_file = file, f_size = 0, f_calls = 0, f_sites = 0\<rparr> # finfos p\<rparr>)))"

definition count_site :: "alloc_info \<Rightarrow> file_info \<Rightarrow> file_info" where
  "count_site ai fi = fi\<lparr>f_size := f_size fi + a_size ai, f_calls := f_calls fi + a_calls ai, f_sites := f_sites fi + 1\<rparr>"

definition gather_site :: "platform \<Rightarrow> alloc_info \<Rightarrow> profile \<Rightarrow> profile res" where
  "gather_site plat ai p =
     ebind (find_finfo plat (a_file ai) p) (\<lambda>(i, p).
     Inr (p\<lparr>finfos := (finfos p)[i := count_site ai (finfos p ! i)]\<rparr>))"

definition gather_finfo :: "platform \<Rightarrow> profile \<Rightarrow> profile res" where
  "gather_finfo plat p = (let p = p\<lparr>finfos := []\<rparr> in efold (gather_site plat) (ainfos p) p)"

text \<open>
  What is printed on the terminal, and the report when one is written; \<open>opened\<close> says whether the
  file could be opened, otherwise the program exits.
\<close>

definition regprofile :: "platform \<Rightarrow> nat \<Rightarrow> sort_fun \<Rightarrow> bool \<Rightarrow> profile \<Rightarrow> ((string list \<times> row list option) \<times> profile) res" where
  "regprofile plat fuel qsort opened p =
     (if profile_region p = 0 then Inr (([''Profiling'', ''Profile region is null!''], None), p)
      else
        ebind (gather_finfo plat p) (\<lambda>p.
        if \<not> opened then Inl Aborted
        else
          ebind (print_finfos plat fuel qsort p) (\<lambda>(files, p).
          ebind (print_ainfos plat fuel qsort p) (\<lambda>(sites, p).
          Inr (([''Profiling''], Some
            ([Text ''---------------------------'', Text ''Region Library Memory Usage'',
              Text ''---------------------------'', Text []] @
             files @ [Text []] @ sites @ print_rinfos p)), p)))))"

end
