(* ===== verification/Region_Alloc.thy ===== *)
theory Region_Alloc
  imports Region_World Region_Data
begin

text \<open>
  Every way to allocate a small object is \<open>rc_rstralloc\<close> in disguise: the fast path of
  \<open>__rc_ralloc_small0\<close> takes the same decision as the general one, and \<open>rstrextend\<close> allocates eight
  bytes more for the size it stores.
\<close>

lemma int_of_size: "unat sz < 2 ^ 31 \<Longrightarrow> scast (ucast (sz :: u64) :: u32) = (sz :: u64)"
  by (rule unsigned_word_eqI) (subst scast_small, simp_all add: unsigned_ucast_eq take_bit_nat_eq_self)

lemma align_consts: "scast RALIGNMENT = (8 :: u64)" "scast ALIGNMENT_LONG = (8 :: u64)"
  by (simp_all add: RALIGNMENT_def ALIGNMENT_LONG_def)

lemma unat_palign8: "unat (PALIGN m 8) = unat (m + 7) div 8 * 8"
  using unat_and_not_mask [of "m + 7" 3] by (simp add: PALIGN_def mask_eq_exp_minus_1)

lemma palign_again: "PALIGN (PALIGN m 8 + 8) 8 = PALIGN m 8 + (8 :: u64)"
proof -
  define c where "c = unat (m + 7) div 8"
  have Y: "unat (PALIGN m 8) = 8 * c" by (simp add: unat_palign8 c_def)
  have "8 * c < 2 ^ 64" using unat_lt2p64 [of "PALIGN m 8"] Y by simp
  then have c: "c + 1 \<le> 2 ^ 61" by simp
  show ?thesis
  proof (cases "c + 1 = 2 ^ 61")
    case True
    then have "unat (PALIGN m 8 + 8) = 0" using Y by (simp add: unat_word_ariths)
    then have "PALIGN m 8 + 8 = 0" by (intro unsigned_word_eqI) simp
    then show ?thesis by (simp add: PALIGN_def)
  next
    case False
    then have "8 * c + 15 < 2 ^ 64" using c by simp
    then have "unat (PALIGN m 8 + 8 + 7) = 8 * c + 15" "unat (PALIGN m 8 + 8) = 8 * c + 8"
      using Y by (simp_all add: unat_word_ariths)
    moreover have "(8 * c + 15) div 8 * 8 = 8 * c + 8" by presburger
    ultimately have "unat (PALIGN (PALIGN m 8 + 8) 8) = unat (PALIGN m 8 + 8)"
      unfolding unat_palign8 [of "PALIGN m 8 + 8"] by (simp only:)
    then show ?thesis by (rule unsigned_word_eqI)
  qed
qed

lemma palign_previous: "PALIGN 32 8 = 32" "PAGE_PREVIOUS = 32"
  by (simp_all add: PAGE_PREVIOUS_def PALIGN_def)

lemma ebind_assoc: "ebind (ebind m f) g = ebind m (\<lambda>x. ebind (f x) g)"
  by (simp add: ebind_def split: sum.splits)

lemma small0_eq:
  assumes "unat sz < 2 ^ 31"
  shows "rc_ralloc_small0 plat r sz st = rc_rstralloc0 plat r sz st"
  using int_of_size [OF assms]
  by (simp add: rc_ralloc_small0_def rc_rstralloc0_def rc_rstralloc_def qalloc_def Let_def align_consts not_le not_less)

lemma extend_size:
  fixes sz :: u64
  assumes "unat sz + 8 < 2 ^ 31"
  shows "ucast (sz + 8) = (ucast sz + 8 :: u32)" "scast (ucast sz + 8 :: u32) = (sz + 8 :: u64)"
    "ALIGN 8 RALIGNMENT + ucast sz = ALIGN 0 RALIGNMENT + (ucast sz + 8)"
proof -
  have u: "unat (sz + 8) = unat sz + 8" using assms by (simp add: unat_plus_if')
  show e: "ucast (sz + 8) = (ucast sz + 8 :: u32)"
  proof -
    have "(of_nat (unat (sz + 8)) :: u32) = of_nat (unat sz) + 8" by (simp add: u)
    then show ?thesis by (simp only: of_nat_unat)
  qed
  show "scast (ucast sz + 8 :: u32) = (sz + 8 :: u64)" unfolding e [symmetric] using u assms by (intro int_of_size) simp
  show "ALIGN 8 RALIGNMENT + ucast sz = ALIGN 0 RALIGNMENT + (ucast sz + 8)" by (simp add: ALIGN_def RALIGNMENT_def)
qed

lemma extend_block:
  fixes sz :: u64
  assumes "unat sz + 8 < 2 ^ 31"
  shows "alloc_block plat r 8 ALIGNMENT_LONG (ucast sz) RALIGNMENT RPAGESIZE st
    = ebind (alloc_block plat r 0 1 (ucast sz + 8) RALIGNMENT RPAGESIZE st) (\<lambda>((_, m), st). Inr ((m, m + 8), st))"
proof -
  have sz: "unat sz < 2 ^ 31" using assms by simp
  have sum: "PALIGN m 8 + 8 + sz = PALIGN m 8 + (sz + 8)" for m by (simp add: algebra_simps)
  then show ?thesis
    by (simp add: alloc_block_def Let_def align_consts palign_again int_of_size [OF sz] extend_size(2) [OF assms] sum)
      (auto simp: ebind_def split: sum.splits prod.splits)
qed

lemma extend_qalloc:
  fixes sz :: u64
  assumes "unat sz + 8 < 2 ^ 31"
  shows "qalloc plat r 8 ALIGNMENT_LONG (ucast sz) RALIGNMENT st
    = ebind (rc_rstralloc plat r (sz + 8) st) (\<lambda>(m, st). Inr ((m, m + 8), st))"
proof -
  have sz: "unat sz < 2 ^ 31" using assms by simp
  have sum: "PALIGN m 8 + 8 + sz = PALIGN m 8 + (sz + 8)" for m by (simp add: algebra_simps)
  then show ?thesis
    by (simp add: rc_rstralloc_def qalloc_def Let_def align_consts palign_again int_of_size [OF sz] extend_size [OF assms]
        extend_block [OF assms] palign_previous sum)
      (simp add: ebind_assoc case_prod_unfold Let_def if_distrib [of "\<lambda>m. ebind m _"] cong: if_cong)
qed



end
