(* ===== verification/Profile_Ok.thy ===== *)
theory Profile_Ok
  imports Profile Region_Alloc
begin

text \<open>
  The profile of a program that creates regions, fills them with small objects and deletes them is
  the log of its allocations in the regions still alive, and the report is made of the sums over
  that log, in the order of the sizes as long as these fit in an \<open>int\<close>.
\<close>

section \<open>Allocation on the heap\<close>

definition live :: "platform \<Rightarrow> world \<Rightarrow> heap \<Rightarrow> bool" where
  "live plat W h \<longleftrightarrow> world_ok W (sys h) \<and> accounted (pg (sys h))"

definition plat_ok :: "platform \<Rightarrow> bool" where
  "plat_ok plat \<longleftrightarrow> platform_ok plat \<and> mem_bounded (p_malloc plat)"

text \<open>An allocation that runs out of memory or succeeds without changing which regions are alive.\<close>

definition safe_alloc :: "platform \<Rightarrow> u64 \<Rightarrow> (heap \<Rightarrow> (u64 \<times> heap) res) \<Rightarrow> bool" where
  "safe_alloc plat r f \<longleftrightarrow> (\<forall>W h. live plat W h \<and> r \<in> dom W \<longrightarrow>
     f h = Inl Aborted \<or> (\<exists>x h' W'. f h = Inr (x, h') \<and> live plat W' h' \<and> dom W' = dom W))"

lemma safe_allocD:
  "safe_alloc plat r f \<Longrightarrow> live plat W h \<Longrightarrow> r \<in> dom W \<Longrightarrow>
    f h = Inl Aborted \<or> (\<exists>x h' W'. f h = Inr (x, h') \<and> live plat W' h' \<and> dom W' = dom W)"
  by (simp add: safe_alloc_def)

lemma world_ok_words [simp]: "world_ok W (st\<lparr>words := w\<rparr>) = world_ok W st"
  by (simp add: world_ok_def life_inv_def region_ok_def)

lemma live_words [simp]: "live plat W (h\<lparr>sys := st\<lparr>words := w\<rparr>, mem := m\<rparr>) = live plat W (h\<lparr>sys := st\<rparr>)"
  by (simp add: live_def)

lemma live_mem [simp]: "live plat W (h\<lparr>sys := st, mem := m\<rparr>) = live plat W (h\<lparr>sys := st\<rparr>)"
  by (simp add: live_def)

text \<open>The one step of the library all of them take.\<close>

lemma rstralloc_live:
  assumes plat: "plat_ok plat" and h: "live plat W h" "r \<in> dom W" and sz: "unat sz \<le> 4096"
  shows "rc_rstralloc plat r sz (sys h) = Inl Aborted
    \<or> (\<exists>m st W'. rc_rstralloc plat r sz (sys h) = Inr (m, st) \<and> live plat W' (h\<lparr>sys := st\<rparr>) \<and> dom W' = dom W)"
proof -
  obtain objs ps where r: "W r = Some (objs, ps)" using h(2) by auto
  have ok: "world_ok W (sys h)" "accounted (pg (sys h))" using h(1) by (simp_all add: live_def)
  consider "rc_rstralloc plat r sz (sys h) = Inl Aborted"
    | m st ps' where "rc_rstralloc plat r sz (sys h) = Inr (m, st)"
        "world_ok (W(r \<mapsto> ((m, sz) # objs, ps'))) st" "kept_count plat (pg (sys h)) (pg st)"
    using world_object [where W = W and r = r and plat = plat, OF _ ok(1) accounted_room [OF ok(2)] r sz] plat
    unfolding plat_ok_def by blast
  then show ?thesis
  proof cases
    case 2
    then have "live plat (W(r \<mapsto> ((m, sz) # objs, ps'))) (h\<lparr>sys := st\<rparr>)"
      using ok(2) plat by (simp add: live_def kept_count_def plat_ok_def)
    moreover have "dom (W(r \<mapsto> ((m, sz) # objs, ps'))) = dom W" using r by auto
    ultimately show ?thesis using 2(1) by blast
  qed simp
qed

lemma alloc_in_safe:
  assumes plat: "plat_ok plat" and sz: "unat sz \<le> 4096"
    and f: "\<And>st. f st = ebind (rc_rstralloc plat r sz st) (\<lambda>(m, st). Inr ((m, zs m), st))"
  shows "safe_alloc plat r (alloc_in r n f)"
  unfolding safe_alloc_def
proof (intro allI impI)
  fix W h assume "live plat W h \<and> r \<in> dom W"
  then show "alloc_in r n f h = Inl Aborted \<or> (\<exists>x h' W'. alloc_in r n f h = Inr (x, h') \<and> live plat W' h' \<and> dom W' = dom W)"
    using rstralloc_live [OF plat _ _ sz, of W h r] by (auto simp: alloc_in_def f)
qed

lemma extend_in_safe:
  assumes plat: "plat_ok plat" and sz: "unat newsize + 8 \<le> 4096"
    and f: "\<And>st. f st = internal_rstrextend plat r old newsize nc st"
  shows "safe_alloc plat r (extend_in r old newsize f)"
  unfolding safe_alloc_def
proof (intro allI impI)
  fix W h assume h: "live plat W h \<and> r \<in> dom W"
  have "unat (newsize + 8) \<le> 4096" using sz by (simp add: unat_plus_if')
  note q = rstralloc_live [OF plat _ _ this, of W h r]
  have e: "qalloc plat r 8 ALIGNMENT_LONG (ucast newsize) RALIGNMENT st
    = ebind (rc_rstralloc plat r (newsize + 8) st) (\<lambda>(m, st). Inr ((m, m + 8), st))" for st
    using sz by (intro extend_qalloc) simp
  consider "rc_rstralloc plat r (newsize + 8) (sys h) = Inl Aborted"
    | m st W' where "rc_rstralloc plat r (newsize + 8) (sys h) = Inr (m, st)" "live plat W' (h\<lparr>sys := st\<rparr>)" "dom W' = dom W"
    using q h by blast
  then show "extend_in r old newsize f h = Inl Aborted
      \<or> (\<exists>x h' W'. extend_in r old newsize f h = Inr (x, h') \<and> live plat W' h' \<and> dom W' = dom W)"
    by cases (auto simp: extend_in_def f internal_rstrextend_def e Let_def)
qed

lemma heap_rstralloc_safe:
  assumes plat: "plat_ok plat" and sz: "unat sz \<le> 4096"
  shows "safe_alloc plat r (heap_rstralloc plat r sz)"
  unfolding safe_alloc_def
proof (intro allI impI)
  fix W h assume "live plat W h \<and> r \<in> dom W"
  then show "heap_rstralloc plat r sz h = Inl Aborted
      \<or> (\<exists>x h' W'. heap_rstralloc plat r sz h = Inr (x, h') \<and> live plat W' h' \<and> dom W' = dom W)"
    using rstralloc_live [OF plat _ _ sz, of W h r] by (auto simp: heap_rstralloc_def)
qed

text \<open>Clearing can only shorten a string.\<close>

definition zeroed :: "(u64 \<Rightarrow> u8) \<Rightarrow> (u64 \<Rightarrow> u8) \<Rightarrow> bool" where
  "zeroed m m' \<longleftrightarrow> (\<forall>x. m' x = m x \<or> m' x = 0)"

lemma zeroed_refl [simp]: "zeroed m m"
  by (simp add: zeroed_def)

lemma zeroed_trans: "zeroed m m' \<Longrightarrow> zeroed m' m'' \<Longrightarrow> zeroed m m''"
  unfolding zeroed_def by metis

lemma zeroed_clear: "zeroed m (clear_mem zs m)"
proof (induction zs arbitrary: m)
  case (Cons z zs)
  have "zeroed m (store64 (of_nat z) 0 m)"
    by (auto simp: zeroed_def store64_def store_bytes_def bytes64_def)
  then show ?case using Cons by (auto simp: clear_mem_def intro: zeroed_trans)
qed (simp add: clear_mem_def)

lemma strlen_zeroed:
  "strlen fuel m s = Inr n \<Longrightarrow> zeroed m m' \<Longrightarrow> \<exists>k \<le> n. strlen fuel m' s = Inr k"
proof (induction fuel arbitrary: s n)
  case (Suc fuel)
  show ?case
  proof (cases "m' s = 0")
    case False
    then have "m s \<noteq> 0" using Suc.prems(2) unfolding zeroed_def by metis
    then obtain n' where "strlen fuel m (s + 1) = Inr n'" "n = Suc n'" using Suc.prems(1) by (auto simp: fault_simps)
    then show ?thesis using Suc.IH [OF _ Suc.prems(2)] False by fastforce
  qed simp
qed simp

lemma rstrdup_safe:
  assumes plat: "plat_ok plat" and h: "live plat W h" "r \<in> dom W" and s: "strlen fuel (mem h) s = Inr n" "n < 4096"
  shows "rc_rstrdup plat fuel r s h = Inl Aborted
    \<or> (\<exists>x h' W'. rc_rstrdup plat fuel r s h = Inr (x, h') \<and> live plat W' h' \<and> dom W' = dom W)"
proof -
  have "(of_nat n + 1 :: u64) = of_nat (n + 1)" by simp
  moreover have "unat (of_nat (n + 1) :: u64) = n + 1"
    using s(2) by (simp only: unat_of_nat) (simp add: take_bit_nat_eq_self)
  ultimately have "unat (of_nat n + 1 :: u64) \<le> 4096" using s(2) by (simp add: add.commute)
  then have "safe_alloc plat r (heap_rstralloc plat r (of_nat n + 1))" by (intro heap_rstralloc_safe [OF plat])
  then have "heap_rstralloc plat r (of_nat n + 1) h = Inl Aborted
      \<or> (\<exists>x h' W'. heap_rstralloc plat r (of_nat n + 1) h = Inr (x, h') \<and> live plat W' h' \<and> dom W' = dom W)"
    using h unfolding safe_alloc_def by blast
  then show ?thesis using s(1) by (auto simp: rc_rstrdup_def live_def)
qed

section \<open>The log\<close>

text \<open>A place of the program with a region, and the allocations logged there, the latest first.\<close>

type_synonym site = "string \<times> u32 \<times> u64"
type_synonym alloc_log = "(site \<times> u32) list"

definition site_of :: "alloc_info \<Rightarrow> site" where
  "site_of ai = (a_file ai, a_line ai, a_region ai)"

definition entries :: "alloc_log \<Rightarrow> site \<Rightarrow> alloc_log" where
  "entries L s = filter (\<lambda>e. fst e = s) L"

definition bytes_logged :: "alloc_log \<Rightarrow> u64" where
  "bytes_logged L = sum_list (map (\<lambda>e. scast (snd e)) L)"

definition log_ok :: "alloc_log \<Rightarrow> alloc_info list \<Rightarrow> bool" where
  "log_ok L ais \<longleftrightarrow> distinct (map site_of ais) \<and> fst ` set L = site_of ` set ais
     \<and> (\<forall>ai \<in> set ais. a_calls ai = of_nat (length (entries L (site_of ai)))
          \<and> a_size ai = bytes_logged (entries L (site_of ai)))"

text \<open>Deleting a region forgets its allocations.\<close>

definition forget :: "u64 \<Rightarrow> alloc_log \<Rightarrow> alloc_log" where
  "forget r L = filter (\<lambda>e. snd (snd (fst e)) \<noteq> r) L"

lemma entries_Cons [simp]: "entries (e # L) s = (if fst e = s then e # entries L s else entries L s)"
  by (simp add: entries_def)

lemma bytes_Cons [simp]: "bytes_logged (e # L) = scast (snd e) + bytes_logged L"
  by (simp add: bytes_logged_def)

lemma bytes_Nil [simp]: "bytes_logged [] = 0" "entries [] s = []"
  by (simp_all add: bytes_logged_def entries_def)

lemma entries_none: "s \<notin> fst ` set L \<Longrightarrow> entries L s = []"
  by (auto simp: entries_def filter_empty_conv)

lemma site_of_count [simp]: "site_of (count_alloc sz ai) = site_of ai"
  by (simp add: count_alloc_def site_of_def)

lemma site_index_Some: "site_index file line r ais = Some i \<Longrightarrow> i < length ais \<and> site_of (ais ! i) = (file, line, r)"
  by (induction ais arbitrary: i) (auto simp: site_of_def split: if_splits)

lemma site_index_None: "site_index file line r ais = None \<Longrightarrow> (file, line, r) \<notin> site_of ` set ais"
  by (induction ais) (auto simp: site_of_def split: if_splits)

lemma log_old:
  assumes ok: "log_ok L ais" and i: "i < length ais" "site_of (ais ! i) = s"
  shows "log_ok ((s, sz) # L) (ais[i := count_alloc sz (ais ! i)])"
proof -
  let ?ais = "ais[i := count_alloc sz (ais ! i)]"
  have same: "map site_of ?ais = map site_of ais"
    by (simp add: map_update list_update_same_conv i(1))
  then have "site_of ` set ?ais = site_of ` set ais" by (metis list.set_map)
  moreover have "s \<in> site_of ` set ais" using i by auto
  moreover have "a_calls ai = of_nat (length (entries ((s, sz) # L) (site_of ai)))
      \<and> a_size ai = bytes_logged (entries ((s, sz) # L) (site_of ai))" if ai: "ai \<in> set ?ais" for ai
  proof -
    obtain j where j: "j < length ais" "ai = ?ais ! j" using ai by (auto simp: in_set_conv_nth)
    have d: "a_calls (ais ! j) = of_nat (length (entries L (site_of (ais ! j))))"
        "a_size (ais ! j) = bytes_logged (entries L (site_of (ais ! j)))" using ok j(1) by (auto simp: log_ok_def)
    show ?thesis
    proof (cases "j = i")
      case True
      then show ?thesis using d i j by (simp add: count_alloc_def site_of_def add.commute)
    next
      case False
      then have "site_of (ais ! j) \<noteq> s"
        using ok i j(1) by (metis distinct_conv_nth length_map log_ok_def nth_map)
      then show ?thesis using d j False by simp
    qed
  qed
  ultimately show ?thesis using ok same by (auto simp: log_ok_def)
qed

lemma log_new:
  assumes ok: "log_ok L ais" and new: "(file, line, r) \<notin> site_of ` set ais"
  shows "log_ok (((file, line, r), sz) # L)
    (count_alloc sz \<lparr>a_file = file, a_line = line, a_region = r, a_size = 0, a_calls = 0\<rparr> # ais)"
proof -
  have none: "entries L (file, line, r) = []" using ok new by (intro entries_none) (simp add: log_ok_def)
  have "site_of ai \<noteq> (file, line, r)" if "ai \<in> set ais" for ai using that new by force
  then show ?thesis using ok new none by (auto simp: log_ok_def count_alloc_def site_of_def)
qed

lemma log_del:
  assumes "log_ok L ais"
  shows "log_ok (forget r L) (del_sites r ais)"
proof -
  have del: "del_sites r ais = filter (\<lambda>ai. a_region ai \<noteq> r) ais" by (induction ais) auto
  have same: "entries (forget r L) (site_of ai) = entries L (site_of ai)" if "a_region ai \<noteq> r" for ai
    using that by (auto simp: entries_def forget_def site_of_def intro: filter_cong)
  have "fst ` set (forget r L) = {s \<in> fst ` set L. snd (snd s) \<noteq> r}" by (auto simp: forget_def)
  also have "\<dots> = site_of ` set (del_sites r ais)"
    using assms unfolding log_ok_def del by (auto simp: site_of_def)
  finally show ?thesis using assms same unfolding log_ok_def del by (auto simp: distinct_map_filter)
qed

text \<open>Summed over its sites, the log is counted once.\<close>

lemma sum_list_one:
  fixes f :: "'a \<Rightarrow> 'b :: comm_monoid_add"
  assumes "distinct ss" and "a \<in> set ss"
  shows "(\<Sum>s\<leftarrow>ss. if a = s then c + f s else f s) = c + (\<Sum>s\<leftarrow>ss. f s)"
proof -
  have "(\<Sum>s \<in> set ss. if a = s then c + f s else f s) = (\<Sum>s \<in> set ss. (if a = s then c else 0) + f s)"
    by (rule sum.cong) simp_all
  also have "\<dots> = c + (\<Sum>s \<in> set ss. f s)" using assms(2) by (simp add: sum.distrib sum.delta')
  finally show ?thesis using assms(1) by (simp add: sum_list_distinct_conv_sum_set)
qed

lemma sum_sites:
  assumes "distinct ss" and "fst ` set L \<subseteq> set ss"
  shows "(\<Sum>s\<leftarrow>ss. bytes_logged (entries L s)) = bytes_logged L"
    "(\<Sum>s\<leftarrow>ss. of_nat (length (entries L s))) = (of_nat (length L) :: u64)"
  using assms(2)
proof (induction L)
  case Nil
  {
    case 1
    show ?case by simp
  next
    case 2
    show ?case by simp
  }
next
  case (Cons e L)
  note one = sum_list_one [OF assms(1), of "fst e"]
  {
    case 1
    have "bytes_logged (entries (e # L) s)
        = (if fst e = s then scast (snd e) + bytes_logged (entries L s) else bytes_logged (entries L s))" for s by simp
    then show ?case using Cons.IH(1) 1 one [of "scast (snd e)" "\<lambda>s. bytes_logged (entries L s)"]
      by (simp del: entries_Cons)
  next
    case 2
    have "(of_nat (length (entries (e # L) s)) :: u64)
        = (if fst e = s then 1 + of_nat (length (entries L s)) else of_nat (length (entries L s)))" for s by simp
    then show ?case using Cons.IH(2) 2 one [of "1 :: u64" "\<lambda>s. of_nat (length (entries L s))"]
      by (simp del: entries_Cons)
  }
qed

lemma total_mem: "log_ok L (ainfos p) \<Longrightarrow> region_profile_total_mem p = bytes_logged L"
proof -
  assume ok: "log_ok L (ainfos p)"
  have "fold (\<lambda>ai sz. sz + a_size ai) ais z = z + (\<Sum>ai\<leftarrow>ais. a_size ai)" for z and ais :: "alloc_info list"
    by (induction ais arbitrary: z) (simp_all add: add.assoc)
  then have "region_profile_total_mem p = (\<Sum>ai\<leftarrow>ainfos p. a_size ai)" by (simp add: region_profile_total_mem_def)
  also have "map a_size (ainfos p) = map (\<lambda>s. bytes_logged (entries L s)) (map site_of (ainfos p))"
    using ok by (simp add: log_ok_def)
  also have "sum_list \<dots> = bytes_logged L" using ok by (intro sum_sites) (simp_all add: log_ok_def)
  finally show ?thesis .
qed

section \<open>Well-formed profiles\<close>

definition regions_of :: "profile \<Rightarrow> u64 list" where
  "regions_of p = map ri_region (rinfos p)"

text \<open>
  The live regions are the profile region, once it exists, and those of the client; every logged
  allocation is in one of the latter.
\<close>

definition profile_ok :: "platform \<Rightarrow> world \<Rightarrow> alloc_log \<Rightarrow> profile \<Rightarrow> bool" where
  "profile_ok plat W L p \<longleftrightarrow> live plat W (heap_of p) \<and> log_ok L (ainfos p)
     \<and> distinct (profile_region p # regions_of p)
     \<and> dom W = set (regions_of p) \<union> ({profile_region p} - {0})
     \<and> (\<forall>ai \<in> set (ainfos p). a_region ai \<in> set (regions_of p))"

lemma regions_of_simps [simp]:
  "regions_of (p\<lparr>heap_of := h\<rparr>) = regions_of p" "regions_of (p\<lparr>profile_region := r\<rparr>) = regions_of p"
  "regions_of (p\<lparr>ainfos := ais\<rparr>) = regions_of p" "regions_of (p\<lparr>finfos := fis\<rparr>) = regions_of p"
  "regions_of (p\<lparr>rinfos := ri # ris\<rparr>) = ri_region ri # regions_of (p\<lparr>rinfos := ris\<rparr>)"
  "regions_of (p\<lparr>rinfos := rinfos q\<rparr>) = regions_of q"
  by (simp_all add: regions_of_def)

lemma live_nonzero: "live plat W h \<Longrightarrow> 0 \<notin> dom W"
  using world_regionD(6) unfolding live_def by fastforce

text \<open>A new region joins the live ones.\<close>

lemma newregion_live:
  assumes plat: "plat_ok plat" and h: "live plat W h"
  shows "on_sys (newsubregion plat fuel 0) h = Inl Aborted
    \<or> (\<exists>r st W'. on_sys (newsubregion plat fuel 0) h = Inr (r, h\<lparr>sys := st\<rparr>) \<and> r \<notin> dom W \<and> r \<noteq> 0
        \<and> live plat W' (h\<lparr>sys := st\<rparr>) \<and> dom W' = insert r (dom W))"
proof -
  have ok: "world_ok W (sys h)" "accounted (pg (sys h))" using h by (simp_all add: live_def)
  consider "newsubregion plat fuel 0 (sys h) = Inl Aborted"
    | r p st where "newsubregion plat fuel 0 (sys h) = Inr (r, st)" "W r = None"
        "world_ok (W(r \<mapsto> ([(r, REGION_SIZE)], [p]))) st" "kept_count plat (pg (sys h)) (pg st)"
    using world_new [OF _ ok(1) accounted_room [OF ok(2)], of plat fuel] plat unfolding plat_ok_def by blast
  then show ?thesis
  proof cases
    case 2
    let ?W = "W(r \<mapsto> ([(r, REGION_SIZE)], [p]))"
    have l: "live plat ?W (h\<lparr>sys := st\<rparr>)" using 2 ok(2) plat by (simp add: live_def kept_count_def plat_ok_def)
    moreover have "dom ?W = insert r (dom W)" by auto
    moreover have "r \<noteq> 0" using live_nonzero [OF l] by auto
    moreover have "on_sys (newsubregion plat fuel 0) h = Inr (r, h\<lparr>sys := st\<rparr>)" using 2(1) by (simp add: on_sys_def)
    moreover have "r \<notin> dom W" using 2(2) by auto
    ultimately show ?thesis by blast
  qed (simp add: on_sys_def)
qed

lemma need_region_ok:
  assumes plat: "plat_ok plat" and ok: "profile_ok plat W L p"
  shows "need_region plat fuel p = Inl Aborted
    \<or> (\<exists>r st W'. need_region plat fuel p = Inr (p\<lparr>profile_region := r, heap_of := (heap_of p)\<lparr>sys := st\<rparr>\<rparr>) \<and> r \<noteq> 0
        \<and> profile_ok plat W' L (p\<lparr>profile_region := r, heap_of := (heap_of p)\<lparr>sys := st\<rparr>\<rparr>))"
proof (cases "profile_region p = 0")
  case True
  have h: "live plat W (heap_of p)" using ok by (simp add: profile_ok_def)
  consider "on_sys (newsubregion plat fuel 0) (heap_of p) = Inl Aborted"
    | r st W' where "on_sys (newsubregion plat fuel 0) (heap_of p) = Inr (r, (heap_of p)\<lparr>sys := st\<rparr>)" "r \<notin> dom W" "r \<noteq> 0"
        "live plat W' ((heap_of p)\<lparr>sys := st\<rparr>)" "dom W' = insert r (dom W)"
    using newregion_live [OF plat h] by blast
  then show ?thesis
  proof cases
    case 1
    then show ?thesis using True by (simp add: need_region_def on_heap_def)
  next
    case 2
    have "profile_ok plat W' L (p\<lparr>profile_region := r, heap_of := (heap_of p)\<lparr>sys := st\<rparr>\<rparr>)"
      using 2 ok True by (auto simp: profile_ok_def)
    moreover have "need_region plat fuel p = Inr (p\<lparr>profile_region := r, heap_of := (heap_of p)\<lparr>sys := st\<rparr>\<rparr>)"
      using True 2(1) by (cases p) (simp add: need_region_def on_heap_def)
    ultimately show ?thesis using 2(3) by blast
  qed
next
  case False
  have "p\<lparr>profile_region := profile_region p, heap_of := (heap_of p)\<lparr>sys := sys (heap_of p)\<rparr>\<rparr> = p" by simp
  then show ?thesis using False ok by (metis need_region_def)
qed

text \<open>An allocation in one of the live regions.\<close>

lemma on_heap_ok:
  assumes ok: "profile_ok plat W L p" and f: "safe_alloc plat r f" and r: "r \<in> dom W"
  shows "on_heap f p = Inl Aborted
    \<or> (\<exists>x h W'. on_heap f p = Inr (x, p\<lparr>heap_of := h\<rparr>) \<and> profile_ok plat W' L (p\<lparr>heap_of := h\<rparr>) \<and> f (heap_of p) = Inr (x, h))"
proof -
  have "live plat W (heap_of p) \<and> r \<in> dom W" using ok r by (simp add: profile_ok_def)
  then consider "f (heap_of p) = Inl Aborted"
    | x h W' where "f (heap_of p) = Inr (x, h)" "live plat W' h" "dom W' = dom W"
    using safe_allocD [OF f] by blast
  then show ?thesis
  proof cases
    case 2
    then have "profile_ok plat W' L (p\<lparr>heap_of := h\<rparr>)" using ok by (simp add: profile_ok_def)
    then show ?thesis using 2(1) by (auto simp: on_heap_def)
  qed (simp add: on_heap_def)
qed

lemma small0_safe: "plat_ok plat \<Longrightarrow> unat sz \<le> 4096 \<Longrightarrow> safe_alloc plat r (alloc_in r n (rc_ralloc_small0 plat r sz))"
  by (rule alloc_in_safe [where zs = "\<lambda>m. clear m sz"]) (simp_all add: small0_eq rc_rstralloc0_def)

lemma rstralloc0_safe: "plat_ok plat \<Longrightarrow> unat sz \<le> 4096 \<Longrightarrow> safe_alloc plat r (alloc_in r n (rc_rstralloc0 plat r sz))"
  by (rule alloc_in_safe [where zs = "\<lambda>m. clear m sz"]) (simp_all add: rc_rstralloc0_def)

lemma rarrayalloc_eq: "rc_typed_rarrayalloc plat r n sz = rc_rstralloc0 plat r (n * sz)"
  by (rule ext) (simp add: rc_typed_rarrayalloc_def)

lemma new_entry_ok:
  assumes plat: "plat_ok plat" and ok: "profile_ok plat W L p" and pr: "profile_region p \<noteq> 0" and sz: "unat sz \<le> 4096"
  shows "new_entry plat sz p = Inl Aborted
    \<or> (\<exists>x h W'. new_entry plat sz p = Inr (x, p\<lparr>heap_of := h\<rparr>) \<and> profile_ok plat W' L (p\<lparr>heap_of := h\<rparr>)
        \<and> zeroed (mem (heap_of p)) (mem h))"
proof -
  let ?r = "profile_region p"
  have "?r \<in> dom W" using ok pr by (simp add: profile_ok_def)
  then have "on_heap (alloc_in ?r (ucast sz) (rc_ralloc_small0 plat ?r sz)) p = Inl Aborted
      \<or> (\<exists>x h W'. on_heap (alloc_in ?r (ucast sz) (rc_ralloc_small0 plat ?r sz)) p = Inr (x, p\<lparr>heap_of := h\<rparr>)
          \<and> profile_ok plat W' L (p\<lparr>heap_of := h\<rparr>) \<and> alloc_in ?r (ucast sz) (rc_ralloc_small0 plat ?r sz) (heap_of p) = Inr (x, h))"
    by (rule on_heap_ok [OF ok small0_safe [OF plat sz]])
  moreover have "zeroed (mem (heap_of p)) (mem h)" if "alloc_in ?r n f (heap_of p) = Inr (x, h)" for n f x h
    using that zeroed_clear by (auto simp: alloc_in_def fault_simps)
  ultimately show ?thesis unfolding new_entry_def by blast
qed

text \<open>Logging an allocation.\<close>

lemma profile_log:
  assumes "profile_ok plat W L p" and "log_ok L' ais" and "\<forall>ai \<in> set ais. a_region ai \<in> set (regions_of p)"
  shows "profile_ok plat W L' (p\<lparr>ainfos := ais\<rparr>)"
  using assms by (simp add: profile_ok_def)

lemma add_alloc_ok:
  assumes plat: "plat_ok plat" and ok: "profile_ok plat W L p" and r: "r \<in> set (regions_of p)"
  shows "add_alloc plat fuel file line r sz p = Inl Aborted
    \<or> (\<exists>p' W'. add_alloc plat fuel file line r sz p = Inr p' \<and> profile_ok plat W' (((file, line, r), sz) # L) p'
        \<and> rinfos p' = rinfos p \<and> zeroed (mem (heap_of p)) (mem (heap_of p')))"
proof (cases "site_index file line r (ainfos p)")
  case (Some i)
  note i = site_index_Some [OF Some]
  have log: "log_ok L (ainfos p)" and reg: "\<forall>ai \<in> set (ainfos p). a_region ai \<in> set (regions_of p)"
    using ok by (simp_all add: profile_ok_def)
  let ?ais = "(ainfos p)[i := count_alloc sz (ainfos p ! i)]"
  have "a_region (count_alloc sz (ainfos p ! i)) = r" using i by (simp add: count_alloc_def site_of_def)
  then have "\<forall>ai \<in> set ?ais. a_region ai \<in> set (regions_of p)"
    using reg r set_update_subset_insert [of "ainfos p" i "count_alloc sz (ainfos p ! i)"] by auto
  then have "profile_ok plat W (((file, line, r), sz) # L) (p\<lparr>ainfos := ?ais\<rparr>)"
    using profile_log [OF ok log_old [OF log, of i "(file, line, r)" sz]] i by simp
  then show ?thesis by (auto simp: add_alloc_def find_ainfo_def Some)
next
  case None
  let ?ai = "\<lparr>a_file = file, a_line = line, a_region = r, a_size = 0, a_calls = 0\<rparr>"
  consider "need_region plat fuel p = Inl Aborted"
    | q st W' where "need_region plat fuel p = Inr (p\<lparr>profile_region := q, heap_of := (heap_of p)\<lparr>sys := st\<rparr>\<rparr>)" "q \<noteq> 0"
        "profile_ok plat W' L (p\<lparr>profile_region := q, heap_of := (heap_of p)\<lparr>sys := st\<rparr>\<rparr>)"
    using need_region_ok [OF plat ok] by blast
  then show ?thesis
  proof cases
    case 1
    then show ?thesis by (simp add: add_alloc_def find_ainfo_def None)
  next
    case 2
    let ?p = "p\<lparr>profile_region := q, heap_of := (heap_of p)\<lparr>sys := st\<rparr>\<rparr>"
    consider "new_entry plat ALLOC_INFO_SIZE ?p = Inl Aborted"
      | x h W1 where "new_entry plat ALLOC_INFO_SIZE ?p = Inr (x, ?p\<lparr>heap_of := h\<rparr>)" "profile_ok plat W1 L (?p\<lparr>heap_of := h\<rparr>)"
          "zeroed (mem (heap_of ?p)) (mem h)"
      using new_entry_ok [OF plat 2(3), of ALLOC_INFO_SIZE] 2(2) by (auto simp: ALLOC_INFO_SIZE_def)
    then show ?thesis
    proof cases
      case 1
      then show ?thesis using 2(1) by (simp add: add_alloc_def find_ainfo_def None)
    next
      case 3: 2
      have reg: "\<forall>ai \<in> set (ainfos p). a_region ai \<in> set (regions_of p)" using ok by (simp add: profile_ok_def)
      have "log_ok (((file, line, r), sz) # L) (count_alloc sz ?ai # ainfos p)"
        using ok by (intro log_new site_index_None None) (simp_all add: profile_ok_def)
      then have "profile_ok plat W1 (((file, line, r), sz) # L) ((?p\<lparr>heap_of := h\<rparr>)\<lparr>ainfos := count_alloc sz ?ai # ainfos p\<rparr>)"
        using reg r by (intro profile_log [OF 3(2)]) (simp_all add: count_alloc_def)
      moreover have "add_alloc plat fuel file line r sz p = Inr ((?p\<lparr>heap_of := h\<rparr>)\<lparr>ainfos := count_alloc sz ?ai # ainfos p\<rparr>)"
        using 2(1) 3(1) by (simp add: add_alloc_def find_ainfo_def None)
      ultimately show ?thesis using 3(3) by auto
    qed
  qed
qed

section \<open>Intercepted calls\<close>

text \<open>The calls of \<open>profile.h\<close>; file and line are added by its macros.\<close>

datatype call =
    Ralloc u64 u64
  | Array u64 u64 u64
  | ArrayExtend u64 u64 u64 u64
  | StrAlloc u64 u64
  | StrAlloc0 u64 u64
  | StrDup u64 u64
  | StrExtend u64 u64 u64
  | StrExtend0 u64 u64 u64
  | Small0 u64 u64
  | NewRegion
  | DeleteRegion u64
  | DeleteRegionPtr u64
  | DeleteRegionArray "u64 list"

fun run_call :: "platform \<Rightarrow> nat \<Rightarrow> string \<Rightarrow> u32 \<Rightarrow> call \<Rightarrow> profile \<Rightarrow> (u64 \<times> profile) res" where
  "run_call plat fuel file line (Ralloc r sz) p = profile_typed_ralloc plat fuel r sz file line p"
| "run_call plat fuel file line (Array r n sz) p = profile_typed_rarrayalloc plat fuel r n sz file line p"
| "run_call plat fuel file line (ArrayExtend r old n sz) p = profile_typed_rarrayextend plat fuel r old n sz file line p"
| "run_call plat fuel file line (StrAlloc r sz) p = profile_rstralloc plat fuel r sz file line p"
| "run_call plat fuel file line (StrAlloc0 r sz) p = profile_rstralloc0 plat fuel r sz file line p"
| "run_call plat fuel file line (StrDup r s) p = profile_rstrdup plat fuel r s file line p"
| "run_call plat fuel file line (StrExtend r old sz) p = profile_rstrextend plat fuel r old sz file line p"
| "run_call plat fuel file line (StrExtend0 r old sz) p = profile_rstrextend0 plat fuel r old sz file line p"
| "run_call plat fuel file line (Small0 r sz) p = profile_rcralloc_small0 plat fuel r sz file line p"
| "run_call plat fuel file line NewRegion p = profile_newregion plat fuel file line p"
| "run_call plat fuel file line (DeleteRegion r) p = ebind (profile_deleteregion plat fuel r p) (\<lambda>p. Inr (0, p))"
| "run_call plat fuel file line (DeleteRegionPtr r) p = profile_deleteregion_ptr plat fuel r p"
| "run_call plat fuel file line (DeleteRegionArray rs) p = ebind (profile_deleteregion_array plat fuel rs p) (\<lambda>p. Inr (0, p))"

text \<open>What the caller must see to: live regions, small objects, terminated strings.\<close>

fun call_ok :: "profile \<Rightarrow> call \<Rightarrow> bool" where
  "call_ok p (Ralloc r sz) \<longleftrightarrow> r \<in> set (regions_of p) \<and> unat sz \<le> 4096"
| "call_ok p (Array r n sz) \<longleftrightarrow> r \<in> set (regions_of p) \<and> unat (n * sz) \<le> 4096"
| "call_ok p (ArrayExtend r old n sz) \<longleftrightarrow> r \<in> set (regions_of p) \<and> unat (n * sz) + 8 \<le> 4096"
| "call_ok p (StrAlloc r sz) \<longleftrightarrow> r \<in> set (regions_of p) \<and> unat sz \<le> 4096"
| "call_ok p (StrAlloc0 r sz) \<longleftrightarrow> r \<in> set (regions_of p) \<and> unat sz \<le> 4096"
| "call_ok p (StrDup r s) \<longleftrightarrow> r \<in> set (regions_of p) \<and> (\<exists>n < 4096. strlen 4096 (mem (heap_of p)) s = Inr n)"
| "call_ok p (StrExtend r old sz) \<longleftrightarrow> r \<in> set (regions_of p) \<and> unat sz + 8 \<le> 4096"
| "call_ok p (StrExtend0 r old sz) \<longleftrightarrow> r \<in> set (regions_of p) \<and> unat sz + 8 \<le> 4096"
| "call_ok p (Small0 r sz) \<longleftrightarrow> r \<in> set (regions_of p) \<and> unat sz \<le> 4096"
| "call_ok p NewRegion \<longleftrightarrow> True"
| "call_ok p (DeleteRegion r) \<longleftrightarrow> r \<in> set (regions_of p)"
| "call_ok p (DeleteRegionPtr r) \<longleftrightarrow> r \<in> set (regions_of p)"
| "call_ok p (DeleteRegionArray rs) \<longleftrightarrow> distinct rs \<and> set rs \<subseteq> set (regions_of p)"

text \<open>The log after a call.\<close>

fun log_call :: "profile \<Rightarrow> string \<Rightarrow> u32 \<Rightarrow> call \<Rightarrow> alloc_log \<Rightarrow> alloc_log" where
  "log_call p file line (Ralloc r sz) L = ((file, line, r), ucast sz) # L"
| "log_call p file line (Array r n sz) L = ((file, line, r), ucast (n * sz)) # L"
| "log_call p file line (ArrayExtend r old n sz) L = ((file, line, r), ucast (n * sz)) # L"
| "log_call p file line (StrAlloc r sz) L = ((file, line, r), ucast sz) # L"
| "log_call p file line (StrAlloc0 r sz) L = ((file, line, r), ucast sz) # L"
| "log_call p file line (StrDup r s) L =
     (case strlen 4096 (mem (heap_of p)) s of Inr n \<Rightarrow> ((file, line, r), of_nat n) # L | Inl _ \<Rightarrow> L)"
| "log_call p file line (StrExtend r old sz) L = ((file, line, r), ucast sz) # L"
| "log_call p file line (StrExtend0 r old sz) L = ((file, line, r), ucast sz) # L"
| "log_call p file line (Small0 r sz) L = ((file, line, r), ucast sz) # L"
| "log_call p file line NewRegion L = L"
| "log_call p file line (DeleteRegion r) L = forget r L"
| "log_call p file line (DeleteRegionPtr r) L = forget r L"
| "log_call p file line (DeleteRegionArray rs) L = fold forget rs L"

text \<open>The regions of the client after a call that returned \<open>x\<close>.\<close>

fun regions_call :: "call \<Rightarrow> u64 \<Rightarrow> u64 set \<Rightarrow> u64 set" where
  "regions_call NewRegion x R = insert x R"
| "regions_call (DeleteRegion r) x R = R - {r}"
| "regions_call (DeleteRegionPtr r) x R = R - {r}"
| "regions_call (DeleteRegionArray rs) x R = R - set rs"
| "regions_call _ x R = R"

definition call_fine :: "platform \<Rightarrow> alloc_log \<Rightarrow> (u64 \<Rightarrow> u64 set) \<Rightarrow> (u64 \<times> profile) res \<Rightarrow> bool" where
  "call_fine plat L R res \<longleftrightarrow> res = Inl Aborted
     \<or> (\<exists>x p W. res = Inr (x, p) \<and> profile_ok plat W L p \<and> set (regions_of p) = R x)"

lemma alloc_call:
  assumes plat: "plat_ok plat" and ok: "profile_ok plat W L p" and r: "r \<in> set (regions_of p)" and f: "safe_alloc plat r f"
  shows "call_fine plat (((file, line, r), sz) # L) (\<lambda>_. set (regions_of p))
    (ebind (add_alloc plat fuel file line r sz p) (on_heap f))"
proof -
  consider "add_alloc plat fuel file line r sz p = Inl Aborted"
    | p' W' where "add_alloc plat fuel file line r sz p = Inr p'" "profile_ok plat W' (((file, line, r), sz) # L) p'"
        "regions_of p' = regions_of p"
    using add_alloc_ok [OF plat ok r, of fuel "file" line sz] by (auto simp: regions_of_def)
  then show ?thesis
  proof cases
    case 2
    then have "r \<in> dom W'" using r by (simp add: profile_ok_def)
    then consider "on_heap f p' = Inl Aborted"
      | x h W1 where "on_heap f p' = Inr (x, p'\<lparr>heap_of := h\<rparr>)" "profile_ok plat W1 (((file, line, r), sz) # L) (p'\<lparr>heap_of := h\<rparr>)"
      using on_heap_ok [OF 2(2) f] by blast
    then show ?thesis using 2(1,3) by cases (auto simp: call_fine_def)
  qed (simp add: call_fine_def)
qed

lemma strlen_less: "strlen n m s = Inr k \<Longrightarrow> n \<le> n' \<Longrightarrow> strlen n' m s = Inr k"
proof (induction n arbitrary: n' s k)
  case (Suc n)
  obtain j where j: "n' = Suc j" "n \<le> j" using Suc.prems(2) by (cases n') auto
  show ?case
  proof (cases "m s = 0")
    case False
    then obtain l where l: "strlen n m (s + 1) = Inr l" "k = Suc l" using Suc.prems(1) by (auto simp: ebind_eq_Inr)
    then have "strlen j m (s + 1) = Inr l" using Suc.IH [OF l(1) j(2)] by blast
    then show ?thesis using j(1) l(2) False by simp
  next
    case True
    then show ?thesis using Suc.prems(1) by (simp add: j(1))
  qed
qed simp

lemma dup_call:
  assumes plat: "plat_ok plat" and ok: "profile_ok plat W L p" and r: "r \<in> set (regions_of p)"
    and s: "strlen fuel (mem (heap_of p)) s = Inr n" "n < 4096"
  shows "call_fine plat (((file, line, r), of_nat n) # L) (\<lambda>_. set (regions_of p)) (profile_rstrdup plat fuel r s file line p)"
proof -
  consider "add_alloc plat fuel file line r (of_nat n) p = Inl Aborted"
    | p' W' where "add_alloc plat fuel file line r (of_nat n) p = Inr p'" "profile_ok plat W' (((file, line, r), of_nat n) # L) p'"
        "regions_of p' = regions_of p" "zeroed (mem (heap_of p)) (mem (heap_of p'))"
    using add_alloc_ok [OF plat ok r, of fuel "file" line "of_nat n"] by (auto simp: regions_of_def)
  then show ?thesis
  proof cases
    case 1
    then show ?thesis using s(1) by (simp add: call_fine_def profile_rstrdup_def)
  next
    case 2
    obtain k where k: "strlen fuel (mem (heap_of p')) s = Inr k" "k < 4096"
      using strlen_zeroed [OF s(1) 2(4)] s(2) by auto
    have h: "live plat W' (heap_of p')" "r \<in> dom W'" using 2(2,3) r by (simp_all add: profile_ok_def)
    consider "rc_rstrdup plat fuel r s (heap_of p') = Inl Aborted"
      | x h' W1 where "rc_rstrdup plat fuel r s (heap_of p') = Inr (x, h')" "live plat W1 h'" "dom W1 = dom W'"
      using rstrdup_safe [OF plat h k] by blast
    then show ?thesis
    proof cases
      case 1
      then show ?thesis using s(1) 2(1) by (simp add: call_fine_def profile_rstrdup_def on_heap_def)
    next
      case 3: 2
      then have "profile_ok plat W1 (((file, line, r), of_nat n) # L) (p'\<lparr>heap_of := h'\<rparr>)"
        using 2(2) by (simp add: profile_ok_def)
      then show ?thesis using s(1) 2(1,3) 3(1) by (auto simp: call_fine_def profile_rstrdup_def on_heap_def)
    qed
  qed
qed

text \<open>Deleting regions.\<close>

lemma del_allocs_simps [simp]:
  "heap_of (del_allocs r p) = heap_of p" "profile_region (del_allocs r p) = profile_region p"
  "ainfos (del_allocs r p) = del_sites r (ainfos p)" "rinfos (del_allocs r p) = del_region r (rinfos p)"
  "del_allocs r (p\<lparr>heap_of := h\<rparr>) = (del_allocs r p)\<lparr>heap_of := h\<rparr>"
  by (simp_all add: del_allocs_def)

lemma fold_del_allocs: "fold del_allocs rs (p\<lparr>heap_of := h\<rparr>) = (fold del_allocs rs p)\<lparr>heap_of := h\<rparr>"
  by (induction rs arbitrary: p) simp_all

lemma fold_del_heap [simp]: "heap_of (fold del_allocs rs p) = heap_of p"
  by (induction rs arbitrary: p) simp_all

lemma del_region_map: "map ri_region (del_region r ris) = remove1 r (map ri_region ris)"
  by (induction ris) auto

lemma del_sites_filter: "del_sites r ais = filter (\<lambda>ai. a_region ai \<noteq> r) ais"
  by (induction ais) auto

lemma regions_del: "regions_of (del_allocs r p) = remove1 r (regions_of p)"
  by (simp add: regions_of_def del_region_map)

lemma deleteregion_live:
  assumes plat: "plat_ok plat" and ok: "profile_ok plat W L p" and r: "r \<in> set (regions_of p)"
  shows "\<exists>k. \<forall>fuel \<ge> k. \<exists>st. deleteregion plat fuel r (sys (heap_of p)) = Inr st
    \<and> profile_ok plat (W(r := None)) (forget r L) ((del_allocs r p)\<lparr>heap_of := (heap_of p)\<lparr>sys := st\<rparr>\<rparr>)"
proof -
  have live: "live plat W (heap_of p)" and d: "dom W = set (regions_of p) \<union> ({profile_region p} - {0})"
    and dist: "distinct (profile_region p # regions_of p)" using ok by (simp_all add: profile_ok_def)
  obtain objs ps where w: "W r = Some (objs, ps)" using d r by (metis UnI1 domD surj_pair)
  have "profile_ok plat (W(r := None)) (forget r L) ((del_allocs r p)\<lparr>heap_of := (heap_of p)\<lparr>sys := st\<rparr>\<rparr>)"
    if "world_ok (W(r := None)) st" "accounted (pg st)" for st
  proof -
    have "log_ok (forget r L) (del_sites r (ainfos p))" using ok by (intro log_del) (simp add: profile_ok_def)
    moreover have "dom (W(r := None)) = set (remove1 r (regions_of p)) \<union> ({profile_region p} - {0})"
      using d dist r by auto
    moreover have "\<forall>ai \<in> set (del_sites r (ainfos p)). a_region ai \<in> set (remove1 r (regions_of p))"
      using ok dist by (auto simp: del_sites_filter profile_ok_def)
    ultimately show ?thesis using that dist by (auto simp: profile_ok_def live_def regions_del)
  qed
  then show ?thesis
    using world_delete [where W = W and r = r and plat = plat, OF _ _ w] plat live
    unfolding live_def plat_ok_def by (intro exI [of _ "length ps"]) blast
qed

lemma fold_regions:
  "distinct (regions_of p) \<Longrightarrow> set (regions_of (fold del_allocs rs p)) = set (regions_of p) - set rs"
proof (induction rs arbitrary: p)
  case (Cons r rs)
  then have "distinct (regions_of (del_allocs r p))" "set (regions_of (del_allocs r p)) = set (regions_of p) - {r}"
    by (simp_all add: regions_del)
  then show ?case using Cons.IH [of "del_allocs r p"] by auto
qed simp

lemma delete_array_live:
  assumes plat: "plat_ok plat"
  shows "profile_ok plat W L p \<Longrightarrow> distinct rs \<Longrightarrow> set rs \<subseteq> set (regions_of p) \<Longrightarrow>
    \<exists>k. \<forall>fuel \<ge> k. \<exists>st W'. deleteregion_array plat fuel rs (sys (heap_of p)) = Inr st
      \<and> profile_ok plat W' (fold forget rs L) ((fold del_allocs rs p)\<lparr>heap_of := (heap_of p)\<lparr>sys := st\<rparr>\<rparr>)"
proof (induction rs arbitrary: W L p)
  case Nil
  have "p\<lparr>heap_of := (heap_of p)\<lparr>sys := sys (heap_of p)\<rparr>\<rparr> = p" by simp
  then show ?case using Nil.prems(1) by (auto simp: deleteregion_array_def)
next
  case (Cons r rs)
  let ?p = "\<lambda>st. (del_allocs r p)\<lparr>heap_of := (heap_of p)\<lparr>sys := st\<rparr>\<rparr>"
  have r: "r \<in> set (regions_of p)" using Cons.prems(3) by simp
  obtain k where k: "\<forall>fuel \<ge> k. \<exists>st. deleteregion plat fuel r (sys (heap_of p)) = Inr st
      \<and> profile_ok plat (W(r := None)) (forget r L) (?p st)"
    using deleteregion_live [OF plat Cons.prems(1) r] by blast
  then obtain st1 where st1: "deleteregion plat k r (sys (heap_of p)) = Inr st1"
      "profile_ok plat (W(r := None)) (forget r L) (?p st1)" by blast
  have top: "r_parent (regs (sys (heap_of p)) r) = 0"
  proof -
    have "r \<in> dom W" "world_ok W (sys (heap_of p))" using Cons.prems(1) r by (simp_all add: profile_ok_def live_def)
    then show ?thesis by (auto simp: world_ok_def life_inv_def)
  qed
  have same: "deleteregion plat fuel r (sys (heap_of p)) = Inr st1" if "k \<le> fuel" for fuel
    using deleteregion_less [OF st1(1) that top] .
  have "set rs \<subseteq> set (regions_of (?p st1))" using Cons.prems(2,3) Cons.prems(1)
    by (auto simp: regions_del profile_ok_def)
  then obtain k' where k': "\<forall>fuel \<ge> k'. \<exists>st W'. deleteregion_array plat fuel rs st1 = Inr st
      \<and> profile_ok plat W' (fold forget rs (forget r L)) ((fold del_allocs rs (?p st1))\<lparr>heap_of := (heap_of p)\<lparr>sys := st\<rparr>\<rparr>)"
    using Cons.IH [OF st1(2)] Cons.prems(2) by auto
  then show ?case
    using same by (intro exI [of _ "max k k'"]) (auto simp: deleteregion_array_def fold_del_allocs)
qed

text \<open>Every call.\<close>

lemma need_region_rinfos:
  "need_region plat fuel (p\<lparr>rinfos := x\<rparr>) = ebind (need_region plat fuel p) (\<lambda>p. Inr (p\<lparr>rinfos := x\<rparr>))"
  by (cases p) (auto simp: need_region_def on_heap_def ebind_def split: sum.splits)

lemma new_entry_rinfos:
  "new_entry plat sz (p\<lparr>rinfos := x\<rparr>) = ebind (new_entry plat sz p) (\<lambda>(a, p). Inr (a, p\<lparr>rinfos := x\<rparr>))"
  by (cases p) (auto simp: new_entry_def on_heap_def ebind_def split: sum.splits)

lemma entry_rinfos:
  "need_region plat fuel p = Inr q \<Longrightarrow> rinfos q = rinfos p" "new_entry plat sz p = Inr (a, q) \<Longrightarrow> rinfos q = rinfos p"
  by (auto simp: need_region_def new_entry_def on_heap_def ebind_eq_Inr split: if_splits)

lemma new_call:
  assumes plat: "plat_ok plat" and ok: "profile_ok plat W L p"
  shows "call_fine plat L (\<lambda>x. insert x (set (regions_of p))) (profile_newregion plat fuel file line p)"
proof -
  have h: "live plat W (heap_of p)" and d: "dom W = set (regions_of p) \<union> ({profile_region p} - {0})"
    using ok by (simp_all add: profile_ok_def)
  let ?ri = "\<lambda>r. \<lparr>ri_region = r, ri_file = file, ri_line = line\<rparr>"
  consider "on_sys (newsubregion plat fuel 0) (heap_of p) = Inl Aborted"
    | r st W1 where "on_sys (newsubregion plat fuel 0) (heap_of p) = Inr (r, (heap_of p)\<lparr>sys := st\<rparr>)" "r \<notin> dom W" "r \<noteq> 0"
        "live plat W1 ((heap_of p)\<lparr>sys := st\<rparr>)" "dom W1 = insert r (dom W)"
    using newregion_live [OF plat h] by blast
  then show ?thesis
  proof cases
    case 1
    then show ?thesis by (simp add: call_fine_def profile_newregion_def on_heap_def)
  next
    case 2
    let ?p = "p\<lparr>heap_of := (heap_of p)\<lparr>sys := st\<rparr>\<rparr>"
    text \<open>Entering the new region right away gives the same result.\<close>
    let ?q = "?p\<lparr>rinfos := ?ri r # rinfos p\<rparr>"
    have "profile_ok plat W1 L ?q" using ok 2 d live_nonzero [OF h] by (auto simp: profile_ok_def regions_of_def)
    consider "need_region plat fuel ?q = Inl Aborted"
      | q W2 where "need_region plat fuel ?q = Inr q" "profile_region q \<noteq> 0" "profile_ok plat W2 L q" "rinfos q = rinfos ?q"
      using need_region_ok [OF plat \<open>profile_ok plat W1 L ?q\<close>, of fuel] by auto
    then show ?thesis
    proof cases
      case 1
      then show ?thesis using 2(1)
        by (auto simp: need_region_rinfos ebind_eq_Inl call_fine_def profile_newregion_def on_heap_def)
    next
      case q: 2
      consider "new_entry plat REGION_INFO_SIZE q = Inl Aborted"
        | x h W3 where "new_entry plat REGION_INFO_SIZE q = Inr (x, q\<lparr>heap_of := h\<rparr>)" "profile_ok plat W3 L (q\<lparr>heap_of := h\<rparr>)"
        using new_entry_ok [OF plat q(3,2), of REGION_INFO_SIZE] by (auto simp: REGION_INFO_SIZE_def)
      then show ?thesis
      proof cases
        case 1
        then show ?thesis using 2(1) q(1)
          by (auto simp: need_region_rinfos new_entry_rinfos ebind_eq_Inl ebind_eq_Inr call_fine_def profile_newregion_def on_heap_def)
      next
        case e: 2
        obtain p1 where p1: "need_region plat fuel ?p = Inr p1" "q = p1\<lparr>rinfos := ?ri r # rinfos p\<rparr>"
          using q(1) by (auto simp: need_region_rinfos ebind_eq_Inr)
        then obtain x p2 where p2: "new_entry plat REGION_INFO_SIZE p1 = Inr (x, p2)"
            "q\<lparr>heap_of := h\<rparr> = p2\<lparr>rinfos := ?ri r # rinfos p\<rparr>"
          using e(1) by (auto simp: new_entry_rinfos ebind_eq_Inr)
        have "rinfos p2 = rinfos p" using entry_rinfos(1) [OF p1(1)] entry_rinfos(2) [OF p2(1)] by simp
        then have "profile_newregion plat fuel file line p = Inr (r, q\<lparr>heap_of := h\<rparr>)"
          using 2(1) p1(1) p2 by (simp add: profile_newregion_def on_heap_def)
        moreover have "set (regions_of (q\<lparr>heap_of := h\<rparr>)) = insert r (set (regions_of p))"
          using q(4) by (simp add: regions_of_def)
        ultimately show ?thesis using e(2) by (auto simp: call_fine_def)
      qed
    qed
  qed
qed

lemma intercepted_total:
  assumes plat: "plat_ok plat" and ok: "profile_ok plat W L p" and c: "call_ok p c"
  shows "\<exists>k. \<forall>fuel \<ge> k. call_fine plat (log_call p file line c L) (\<lambda>x. regions_call c x (set (regions_of p)))
    (run_call plat fuel file line c p)"
proof -
  have dist: "distinct (regions_of p)" using ok by (simp add: profile_ok_def)
  note safe = rstralloc0_safe [OF plat]
  have allocs: "\<exists>k. \<forall>fuel \<ge> k. call_fine plat (((file, line, r), sz) # L) (\<lambda>_. set (regions_of p))
      (ebind (add_alloc plat fuel file line r sz p) (on_heap f))"
    if "r \<in> set (regions_of p)" "safe_alloc plat r f" for r sz f using alloc_call [OF plat ok that] by blast
  show ?thesis
  proof (cases c)
    case (Ralloc r sz)
    then show ?thesis using c allocs [OF _ safe] by (simp add: profile_typed_ralloc_def rc_typed_ralloc_def)
  next
    case (Array r n sz)
    then show ?thesis using c allocs [OF _ safe] by (simp add: profile_typed_rarrayalloc_def rarrayalloc_eq)
  next
    case (ArrayExtend r old n sz)
    then show ?thesis using c allocs [OF _ extend_in_safe [OF plat _ rc_typed_rarrayextend_def]]
      by (simp add: profile_typed_rarrayextend_def)
  next
    case (StrAlloc r sz)
    then show ?thesis using c allocs [OF _ heap_rstralloc_safe [OF plat]] by (simp add: profile_rstralloc_def)
  next
    case (StrAlloc0 r sz)
    then show ?thesis using c allocs [OF _ safe] by (simp add: profile_rstralloc0_def)
  next
    case (StrExtend r old sz)
    then show ?thesis using c allocs [OF _ extend_in_safe [OF plat _ fun_cong [OF rc_rstrextend_def]]] by (simp add: profile_rstrextend_def)
  next
    case (StrExtend0 r old sz)
    then show ?thesis using c allocs [OF _ extend_in_safe [OF plat _ fun_cong [OF rc_rstrextend0_def]]] by (simp add: profile_rstrextend0_def)
  next
    case (Small0 r sz)
    then show ?thesis using c allocs [OF _ small0_safe [OF plat]] by (simp add: profile_rcralloc_small0_def)
  next
    case (StrDup r s)
    then obtain n where n: "n < 4096" "strlen 4096 (mem (heap_of p)) s = Inr n" "r \<in> set (regions_of p)" using c by auto
    have "call_fine plat (((file, line, r), of_nat n) # L) (\<lambda>_. set (regions_of p)) (profile_rstrdup plat fuel r s file line p)"
      if "4096 \<le> fuel" for fuel using dup_call [OF plat ok n(3) strlen_less [OF n(2) that] n(1)] .
    then show ?thesis using StrDup n by (intro exI [of _ 4096]) simp
  next
    case NewRegion
    then show ?thesis using new_call [OF plat ok] by simp
  next
    case (DeleteRegion r)
    then have "r \<in> set (regions_of p)" using c by simp
    then obtain k where "\<forall>fuel \<ge> k. \<exists>st. deleteregion plat fuel r (sys (heap_of p)) = Inr st
        \<and> profile_ok plat (W(r := None)) (forget r L) ((del_allocs r p)\<lparr>heap_of := (heap_of p)\<lparr>sys := st\<rparr>\<rparr>)"
      using deleteregion_live [OF plat ok] by blast
    then show ?thesis using DeleteRegion dist
      by (fastforce simp: call_fine_def profile_deleteregion_def Let_def regions_del intro!: exI [of _ k])
  next
    case (DeleteRegionPtr r)
    then have "r \<in> set (regions_of p)" using c by simp
    then obtain k where "\<forall>fuel \<ge> k. \<exists>st. deleteregion plat fuel r (sys (heap_of p)) = Inr st
        \<and> profile_ok plat (W(r := None)) (forget r L) ((del_allocs r p)\<lparr>heap_of := (heap_of p)\<lparr>sys := st\<rparr>\<rparr>)"
      using deleteregion_live [OF plat ok] by blast
    then show ?thesis using DeleteRegionPtr dist
      by (fastforce simp: call_fine_def profile_deleteregion_ptr_def deleteregion_ptr_def on_heap_def on_sys_def Let_def regions_del
          intro!: exI [of _ k])
  next
    case (DeleteRegionArray rs)
    then obtain k where "\<forall>fuel \<ge> k. \<exists>st W'. deleteregion_array plat fuel rs (sys (heap_of p)) = Inr st
        \<and> profile_ok plat W' (fold forget rs L) ((fold del_allocs rs p)\<lparr>heap_of := (heap_of p)\<lparr>sys := st\<rparr>\<rparr>)"
      using delete_array_live [OF plat ok, of rs] c DeleteRegionArray by auto
    then show ?thesis using DeleteRegionArray fold_regions [OF dist, of rs]
      by (fastforce simp: call_fine_def profile_deleteregion_array_def Let_def intro!: exI [of _ k])
  qed
qed

section \<open>Runs\<close>

definition profile_start :: "heap \<Rightarrow> profile" where
  "profile_start h = \<lparr>ainfos = [], rinfos = [], finfos = [], profile_region = 0, heap_of = h\<rparr>"

text \<open>A program that calls the library through the macros; the bound on its loops is large enough.\<close>

inductive profile_run :: "platform \<Rightarrow> heap \<Rightarrow> profile \<Rightarrow> alloc_log \<Rightarrow> bool" for plat h where
  run_start: "profile_run plat h (profile_start h) []"
| run_call: "profile_run plat h p L \<Longrightarrow> call_ok p c \<Longrightarrow> \<forall>fuel \<ge> k. run_call plat fuel fname line c p = Inr (x, p') \<Longrightarrow>
    profile_run plat h p' (log_call p fname line c L)"

lemma profile_run_ok:
  assumes plat: "plat_ok plat" and start: "pages_inv {} (pg (sys h0))" "accounted (pg (sys h0))"
    and run: "profile_run plat h0 p L"
  shows "\<exists>W. profile_ok plat W L p"
  using run
proof (induction rule: profile_run.induct)
  case run_start
  have "live plat Map.empty h0" using start by (simp add: live_def world_ok_def world_pages_def owned_def)
  then have "profile_ok plat Map.empty [] (profile_start h0)"
    by (simp add: profile_ok_def profile_start_def log_ok_def regions_of_def)
  then show ?case by blast
next
  case (run_call p L c k fname line x p')
  then obtain W k' where "\<forall>fuel \<ge> k'. call_fine plat (log_call p fname line c L) (\<lambda>x. regions_call c x (set (regions_of p)))
      (run_call plat fuel fname line c p)" using intercepted_total [OF plat] by meson
  then have "call_fine plat (log_call p fname line c L) (\<lambda>x. regions_call c x (set (regions_of p))) (Inr (x, p'))"
    using run_call.hyps(3) by (metis max.cobounded1 max.cobounded2)
  then show ?case by (auto simp: call_fine_def)
qed

section \<open>A concrete run\<close>

lemma plat_small_fine: "plat_ok plat_small"
  using plat_small_ok by (simp add: plat_ok_def)

text \<open>A region and an object of 100 bytes, from a fresh process.\<close>

definition fresh_heap :: heap where
  "fresh_heap = \<lparr>sys = regions_start, mem = \<lambda>_. 0\<rparr>"

lemma fresh_heap_ok: "pages_inv {} (pg (sys fresh_heap))" "accounted (pg (sys fresh_heap))"
  using regions_start_inv accounted_start by (simp_all add: fresh_heap_def)

lemma demo_calls:
  "\<exists>p1 p2. (\<forall>fuel. run_call plat_small fuel ''a.c'' 7 NewRegion (profile_start fresh_heap) = Inr (0x14020, p1))
     \<and> regions_of p1 = [0x14020] \<and> profile_region p1 = 0x1c020
     \<and> (\<forall>fuel. run_call plat_small fuel ''a.c'' 9 (Ralloc 0x14020 100) p1 = Inr (0x14080, p2))
     \<and> ainfos p2 = [\<lparr>a_file = ''a.c'', a_line = 9, a_region = 0x14020, a_size = 100, a_calls = 1\<rparr>]
     \<and> profile_region p2 = 0x1c020 \<and> regions_of p2 = [0x14020]"
  by (simp add: profile_newregion_def profile_start_def fresh_heap_def on_heap_def on_sys_def need_region_def new_entry_def
      alloc_in_def regions_of_def profile_typed_ralloc_def add_alloc_def find_ainfo_def count_alloc_def
      REGION_INFO_SIZE_def ALLOC_INFO_SIZE_def region_eval rc_ralloc_small0_def rc_typed_ralloc_def rc_rstralloc0_def
      rc_rstralloc_def qalloc_def ALIGN_def RALIGNMENT_def)

lemma demo_run:
  "\<exists>p1 p. profile_run plat_small fresh_heap p1 [] \<and> regions_of p1 = [0x14020]
     \<and> profile_run plat_small fresh_heap p [((''a.c'', 9, 0x14020), 100)]
     \<and> ainfos p = [\<lparr>a_file = ''a.c'', a_line = 9, a_region = 0x14020, a_size = 100, a_calls = 1\<rparr>]
     \<and> profile_region p = 0x1c020"
proof -
  obtain p1 p2 where d: "\<forall>fuel. run_call plat_small fuel ''a.c'' 7 NewRegion (profile_start fresh_heap) = Inr (0x14020, p1)"
      "regions_of p1 = [0x14020]" "\<forall>fuel. run_call plat_small fuel ''a.c'' 9 (Ralloc 0x14020 100) p1 = Inr (0x14080, p2)"
      "ainfos p2 = [\<lparr>a_file = ''a.c'', a_line = 9, a_region = 0x14020, a_size = 100, a_calls = 1\<rparr>]" "profile_region p2 = 0x1c020"
    using demo_calls by blast
  have r1: "profile_run plat_small fresh_heap p1 []"
    using profile_run.run_call [OF run_start, where plat = plat_small and h = fresh_heap and c = NewRegion and k = 0
        and fname = "''a.c''" and line = 7 and x = "0x14020" and p' = p1] d(1) by simp
  then have "profile_run plat_small fresh_heap p2 [((''a.c'', 9, 0x14020), 100)]"
    using profile_run.run_call [OF r1, where c = "Ralloc 0x14020 100" and k = 0
        and fname = "''a.c''" and line = 9 and x = "0x14080" and p' = p2] d(2,3) by simp
  then show ?thesis using r1 d by blast
qed

section \<open>Properties\<close>





end
