(* ===== verification/Profile_Report.thy ===== *)
theory Profile_Report
  imports Profile_Ok
begin

text \<open>
  The report on a profile: its rows are the sums over the log, per file and per site, the largest
  first as long as the sizes fit in an \<open>int\<close>.
\<close>

section \<open>Sorting\<close>

text \<open>What the C standard says of \<open>qsort\<close>, for comparisons that follow some order.\<close>

definition qsort_ok :: "sort_fun \<Rightarrow> bool" where
  "qsort_ok qsort \<longleftrightarrow> (\<forall>cmp xs (key :: nat \<Rightarrow> int).
     (\<forall>i \<in> set xs. \<forall>j \<in> set xs. sgn (sint (cmp i j)) = sgn (key i - key j)) \<longrightarrow>
     mset (qsort cmp xs) = mset xs \<and> sorted_wrt (\<lambda>i j. sint (cmp i j) \<le> 0) (qsort cmp xs))"

text \<open>The chain after sorting.\<close>

definition sorted_chain :: "sort_fun \<Rightarrow> ('a \<Rightarrow> 'a \<Rightarrow> u32) \<Rightarrow> 'a list \<Rightarrow> 'a list" where
  "sorted_chain qsort cmp l = rev (map ((!) l) (qsort (\<lambda>i j. cmp (l ! i) (l ! j)) [0..<length l]))"

lemma fold_rev: "fold (\<lambda>i xs. f i # xs) is ys = rev (map f is) @ ys"
  by (induction "is" arbitrary: ys) simp_all

lemma sort_list_ok:
  assumes plat: "plat_ok plat" and h: "live plat W h" and len: "length l \<le> 512"
  shows "\<exists>k res. (\<forall>fuel \<ge> k. sort_list plat fuel qsort cmp l h = res)
    \<and> (res = Inl Aborted \<or> (\<exists>h' W'. res = Inr (sorted_chain qsort cmp l, h') \<and> live plat W' h' \<and> dom W' = dom W))"
proof -
  define new where "new = on_sys (newsubregion plat 0 0) h"
  have same: "on_sys (newsubregion plat fuel 0) h = new" for fuel
    by (simp add: new_def on_sys_def newsubregion_def)
  from newregion_live [OF plat h, of 0] consider "new = Inl Aborted"
    | r st W1 where "new = Inr (r, h\<lparr>sys := st\<rparr>)" "r \<notin> dom W" "r \<noteq> 0"
        "live plat W1 (h\<lparr>sys := st\<rparr>)" "dom W1 = insert r (dom W)"
    unfolding new_def by blast
  then show ?thesis
  proof cases
    case 1
    then have "sort_list plat fuel qsort cmp l h = Inl Aborted" for fuel by (simp add: sort_list_def Let_def same)
    then show ?thesis by blast
  next
    case 2
    let ?al = "alloc_in r (of_nat (8 * length l)) (rc_typed_rarrayalloc plat r (of_nat (length l)) 8)"
    have "(of_nat (length l) * 8 :: u64) = of_nat (8 * length l)" by simp
    moreover have "unat (of_nat (8 * length l) :: u64) = 8 * length l"
      using len by (simp only: unat_of_nat) (simp add: take_bit_nat_eq_self)
    ultimately have "unat (of_nat (length l) * 8 :: u64) \<le> 4096" using len by (simp add: mult.commute)
    then have sa: "safe_alloc plat r ?al" unfolding rarrayalloc_eq by (rule rstralloc0_safe [OF plat])
    have "r \<in> dom W1" using 2(5) by simp
    then have "?al (h\<lparr>sys := st\<rparr>) = Inl Aborted
        \<or> (\<exists>x h2 W2. ?al (h\<lparr>sys := st\<rparr>) = Inr (x, h2) \<and> live plat W2 h2 \<and> dom W2 = insert r (dom W))"
      unfolding 2(5) [symmetric] by (rule safe_allocD [OF sa 2(4)])
    then consider "?al (h\<lparr>sys := st\<rparr>) = Inl Aborted"
      | x h2 W2 where "?al (h\<lparr>sys := st\<rparr>) = Inr (x, h2)" "live plat W2 h2" "dom W2 = insert r (dom W)"
      by (elim disjE exE conjE)
    then show ?thesis
    proof cases
      case 1
      then have "sort_list plat fuel qsort cmp l h = Inl Aborted" for fuel
        using 2(1) by (simp add: sort_list_def Let_def same)
      then show ?thesis by blast
    next
      case al: 2
      have "r \<in> dom W2" using al(3) by simp
      then obtain objs ps where w: "W2 r = Some (objs, ps)" by auto
      have f: "fold (\<lambda>i. (#) (l ! i)) (qsort (\<lambda>i j. cmp (l ! i) (l ! j)) [0..<length l]) [] = sorted_chain qsort cmp l"
        using fold_rev [of "(!) l"] by (simp add: sorted_chain_def)
      have ok2: "world_ok W2 (sys h2)" "accounted (pg (sys h2))" and plat': "platform_ok plat"
        using al(2) plat by (simp_all add: live_def plat_ok_def)
      obtain st' where d: "deleteregion plat (length ps) r (sys h2) = Inr st'" "live plat (W2(r := None)) (h2\<lparr>sys := st'\<rparr>)"
        using world_delete [where W = W2 and r = r, OF plat' ok2(1) w le_refl] ok2(2) by (auto simp: live_def)
      have "r_parent (regs (sys h2) r) = 0" using ok2(1) w by (simp add: world_ok_def life_inv_def)
      then have "sort_list plat fuel qsort cmp l h = Inr (sorted_chain qsort cmp l, h2\<lparr>sys := st'\<rparr>)"
        if "length ps \<le> fuel" for fuel
        using 2(1) al(1) deleteregion_less [OF d(1) that] by (simp add: sort_list_def Let_def same f)
      moreover have "dom (W2(r := None)) = dom W" using al(3) 2(2) by auto
      ultimately show ?thesis using d(2) by blast
    qed
  qed
qed

lemma sorted_chain_ok:
  assumes q: "qsort_ok qsort" and key: "\<And>a b. a \<in> set l \<Longrightarrow> b \<in> set l \<Longrightarrow> sgn (sint (cmp a b)) = sgn (key a - (key b :: int))"
  shows "mset (sorted_chain qsort cmp l) = mset l \<and> sorted_wrt (\<lambda>a b. key b \<le> key a) (sorted_chain qsort cmp l)"
proof -
  let ?c = "\<lambda>i j. cmp (l ! i) (l ! j)" and ?xs = "[0..<length l]"
  let ?ys = "qsort ?c ?xs"
  have "\<forall>i \<in> set ?xs. \<forall>j \<in> set ?xs. sgn (sint (?c i j)) = sgn (key (l ! i) - key (l ! j))" using key by simp
  then have "mset ?ys = mset ?xs \<and> sorted_wrt (\<lambda>i j. sint (?c i j) \<le> 0) ?ys"
    using q [unfolded qsort_ok_def, THEN spec [of _ ?c], THEN spec [of _ ?xs], THEN spec [of _ "\<lambda>i. key (l ! i)"]] by blast
  then have s: "mset ?ys = mset ?xs" "sorted_wrt (\<lambda>i j. sint (?c i j) \<le> 0) ?ys" by simp_all
  have "mset (map ((!) l) ?ys) = mset (map ((!) l) ?xs)" using s(1) by simp
  then have "mset (sorted_chain qsort cmp l) = mset l" by (simp add: sorted_chain_def map_nth)
  moreover have "sorted_wrt (\<lambda>i j. key (l ! i) \<le> key (l ! j)) ?ys"
  proof (rule sorted_wrt_mono_rel [OF _ s(2)])
    fix i j assume "i \<in> set ?ys" "j \<in> set ?ys" and le: "sint (?c i j) \<le> 0"
    then have "i < length l" "j < length l" using s(1) by (metis atLeastLessThan_iff set_mset_mset set_upt)+
    then have "sgn (sint (?c i j)) = sgn (key (l ! i) - key (l ! j))" using key by simp
    then show "key (l ! i) \<le> key (l ! j)" using le by (auto simp: sgn_if split: if_splits)
  qed
  ultimately show ?thesis by (simp add: sorted_chain_def sorted_wrt_rev sorted_wrt_map)
qed

text \<open>The comparison of sizes that fit in an \<open>int\<close>.\<close>

lemma cmp_diff: "sint (ucast (a - b :: u64) :: u32) = signed_take_bit 31 (uint a - uint b)"
proof -
  have "sint (ucast (a - b) :: u32) = signed_take_bit 31 (uint (a - b))" by (simp add: signed_ucast_eq)
  then show ?thesis
    using signed_take_bit_take_bit [of 31 64 "uint a - uint b"] by (simp add: uint_word_ariths take_bit_eq_mod)
qed

lemma cmp_small:
  fixes a b :: u64
  assumes "unat a < 2 ^ 31" and "unat b < 2 ^ 31"
  shows "sint (ucast (a - b) :: u32) = int (unat a) - int (unat b)"
proof -
  have "uint a < 2 ^ 31" "uint b < 2 ^ 31"
    using of_nat_less_iff [where 'a = int, THEN iffD2, OF assms(1)] of_nat_less_iff [where 'a = int, THEN iffD2, OF assms(2)]
    by simp_all
  moreover have "0 \<le> uint a" "0 \<le> uint b" by simp_all
  ultimately have "signed_take_bit 31 (uint a - uint b) = uint a - uint b"
    by (intro signed_take_bit_int_eq_self) linarith+
  then show ?thesis by (simp add: cmp_diff)
qed

text \<open>Beyond, the sign is wrong.\<close>

lemma cmp_large:
  fixes a b :: u64
  assumes "2 ^ 31 < unat a - unat b" and "unat a - unat b < 2 ^ 32"
  shows "sint (ucast (a - b) :: u32) < 0" "0 < sint (ucast (b - a) :: u32)"
proof -
  have h: "2 ^ 31 < int (unat a - unat b)" "int (unat a - unat b) < 2 ^ 32"
    using of_nat_less_iff [where 'a = int, THEN iffD2, OF assms(1)] of_nat_less_iff [where 'a = int, THEN iffD2, OF assms(2)]
    by (simp_all only: of_nat_power of_nat_numeral)
  have i: "int (unat a - unat b) = uint a - uint b" using assms(1) by (subst of_nat_diff) simp_all
  note d = h [unfolded i]
  have "signed_take_bit 31 (uint a - uint b) = signed_take_bit 31 (uint a - uint b - 2 ^ 32)"
    by (simp add: signed_take_bit_eq_iff_take_bit_eq take_bit_eq_mod)
  also have "\<dots> = uint a - uint b - 2 ^ 32" by (rule signed_take_bit_int_eq_self) (use d in simp_all)
  finally show "sint (ucast (a - b) :: u32) < 0" using d(2) by (simp add: cmp_diff)
  have "signed_take_bit 31 (uint b - uint a) = signed_take_bit 31 (uint b - uint a + 2 ^ 32)"
    by (simp add: signed_take_bit_eq_iff_take_bit_eq take_bit_eq_mod)
  also have "\<dots> = uint b - uint a + 2 ^ 32" by (rule signed_take_bit_int_eq_self) (use d in simp_all)
  finally show "0 < sint (ucast (b - a) :: u32)" using d(2) by (simp add: cmp_diff)
qed

section \<open>Gathering\<close>

text \<open>The totals per file of a list of sites.\<close>

definition file_sites :: "string \<Rightarrow> alloc_info list \<Rightarrow> alloc_info list" where
  "file_sites f ais = filter (\<lambda>ai. a_file ai = f) ais"

definition files_ok :: "alloc_info list \<Rightarrow> file_info list \<Rightarrow> bool" where
  "files_ok ais fis \<longleftrightarrow> distinct (map f_file fis) \<and> f_file ` set fis = a_file ` set ais
     \<and> (\<forall>fi \<in> set fis. f_size fi = sum_list (map a_size (file_sites (f_file fi) ais))
          \<and> f_calls fi = sum_list (map a_calls (file_sites (f_file fi) ais))
          \<and> f_sites fi = of_nat (length (file_sites (f_file fi) ais)))
     \<and> sum_list (map f_size fis) = sum_list (map a_size ais) \<and> sum_list (map f_calls fis) = sum_list (map a_calls ais)
     \<and> sum_list (map f_sites fis) = of_nat (length ais)"

lemma file_index_Some: "file_index f fis = Some i \<Longrightarrow> i < length fis \<and> f_file (fis ! i) = f"
  by (induction fis arbitrary: i) (auto split: if_splits)

lemma file_index_None: "file_index f fis = None \<Longrightarrow> f \<notin> f_file ` set fis"
  by (induction fis) (auto split: if_splits)

lemma count_site_simps [simp]:
  "f_file (count_site ai fi) = f_file fi" "f_size (count_site ai fi) = f_size fi + a_size ai"
  "f_calls (count_site ai fi) = f_calls fi + a_calls ai" "f_sites (count_site ai fi) = f_sites fi + 1"
  by (simp_all add: count_site_def)

lemma file_sites_snoc [simp]:
  "file_sites f (ais @ [ai]) = (if a_file ai = f then file_sites f ais @ [ai] else file_sites f ais)"
  by (simp add: file_sites_def)

lemma sum_update:
  fixes f :: "'a \<Rightarrow> 'b :: comm_monoid_add"
  assumes "i < length xs" and "f y = f (xs ! i) + d"
  shows "sum_list (map f (xs[i := y])) = sum_list (map f xs) + d"
  using assms by (induction xs arbitrary: i) (auto simp: ac_simps split: nat.splits)

lemma files_old:
  assumes ok: "files_ok ais fis" and i: "i < length fis" "f_file (fis ! i) = a_file ai"
  shows "files_ok (ais @ [ai]) (fis[i := count_site ai (fis ! i)])"
proof -
  let ?fis = "fis[i := count_site ai (fis ! i)]"
  have same: "map f_file ?fis = map f_file fis" by (simp add: map_update list_update_same_conv i(1))
  then have files: "f_file ` set ?fis = f_file ` set fis" by (metis list.set_map)
  have "a_file ai \<in> f_file ` set fis" using i by (metis image_eqI nth_mem)
  then have set: "f_file ` set ?fis = a_file ` set (ais @ [ai])" using files ok by (auto simp: files_ok_def)
  have each: "f_size fi = sum_list (map a_size (file_sites (f_file fi) (ais @ [ai])))
      \<and> f_calls fi = sum_list (map a_calls (file_sites (f_file fi) (ais @ [ai])))
      \<and> f_sites fi = of_nat (length (file_sites (f_file fi) (ais @ [ai])))" if fi: "fi \<in> set ?fis" for fi
  proof -
    obtain j where j: "j < length fis" "fi = ?fis ! j" using fi by (auto simp: in_set_conv_nth)
    have d: "f_size (fis ! j) = sum_list (map a_size (file_sites (f_file (fis ! j)) ais))"
        "f_calls (fis ! j) = sum_list (map a_calls (file_sites (f_file (fis ! j)) ais))"
        "f_sites (fis ! j) = of_nat (length (file_sites (f_file (fis ! j)) ais))"
      using ok j(1) by (simp_all add: files_ok_def)
    show ?thesis
    proof (cases "j = i")
      case True
      then show ?thesis using d i j by simp
    next
      case False
      then have "f_file (fis ! j) \<noteq> a_file ai"
        using ok i j(1) by (metis distinct_conv_nth files_ok_def length_map nth_map)
      then show ?thesis using d j False by auto
    qed
  qed
  have "distinct (map f_file ?fis)" using ok unfolding same by (simp add: files_ok_def)
  moreover have "sum_list (map f_size ?fis) = sum_list (map a_size (ais @ [ai]))"
      "sum_list (map f_calls ?fis) = sum_list (map a_calls (ais @ [ai]))"
      "sum_list (map f_sites ?fis) = of_nat (length (ais @ [ai]))"
    using ok sum_update [OF i(1), of f_size _ "a_size ai"] sum_update [OF i(1), of f_calls _ "a_calls ai"]
      sum_update [OF i(1), of f_sites _ 1] by (simp_all add: files_ok_def)
  ultimately show ?thesis using set each unfolding files_ok_def by blast
qed

lemma files_new:
  assumes ok: "files_ok ais fis" and new: "a_file ai \<notin> f_file ` set fis"
  shows "files_ok (ais @ [ai]) (count_site ai \<lparr>f_file = a_file ai, f_size = 0, f_calls = 0, f_sites = 0\<rparr> # fis)"
proof -
  have "a_file ai \<notin> a_file ` set ais" using ok new by (simp add: files_ok_def)
  then have "a_file x \<noteq> a_file ai" if "x \<in> set ais" for x using that by (metis image_eqI)
  then have "file_sites (a_file ai) ais = []" by (simp add: file_sites_def filter_empty_conv)
  moreover have "f_file fi \<noteq> a_file ai" if "fi \<in> set fis" for fi using that new by (metis image_eqI)
  ultimately show ?thesis using ok new by (auto simp: files_ok_def add.commute)
qed

lemma finfos_ok: "profile_ok plat W L (p\<lparr>finfos := fis\<rparr>) = profile_ok plat W L p"
  by (simp add: profile_ok_def)

lemma gather_site_ok:
  assumes plat: "plat_ok plat" and ok: "profile_ok plat W L p" and pr: "profile_region p \<noteq> 0" and fi: "files_ok ais (finfos p)"
  shows "gather_site plat ai p = Inl Aborted
    \<or> (\<exists>fis h W'. gather_site plat ai p = Inr (p\<lparr>finfos := fis, heap_of := h\<rparr>) \<and> files_ok (ais @ [ai]) fis
        \<and> profile_ok plat W' L (p\<lparr>finfos := fis, heap_of := h\<rparr>))"
proof (cases "file_index (a_file ai) (finfos p)")
  case (Some i)
  note i = file_index_Some [OF Some]
  let ?fis = "(finfos p)[i := count_site ai (finfos p ! i)]"
  have "gather_site plat ai p = Inr (p\<lparr>finfos := ?fis, heap_of := heap_of p\<rparr>)"
    by (simp add: gather_site_def find_finfo_def Some)
  moreover have "profile_ok plat W L (p\<lparr>finfos := ?fis, heap_of := heap_of p\<rparr>)" using ok finfos_ok by simp
  ultimately show ?thesis using files_old [OF fi] i by blast
next
  case None
  let ?fi = "\<lparr>f_file = a_file ai, f_size = 0, f_calls = 0, f_sites = 0\<rparr>"
  consider "new_entry plat FILE_INFO_SIZE p = Inl Aborted"
    | x h W' where "new_entry plat FILE_INFO_SIZE p = Inr (x, p\<lparr>heap_of := h\<rparr>)" "profile_ok plat W' L (p\<lparr>heap_of := h\<rparr>)"
    using new_entry_ok [OF plat ok pr, of FILE_INFO_SIZE] by (auto simp: FILE_INFO_SIZE_def)
  then show ?thesis
  proof cases
    case 1
    then show ?thesis by (simp add: gather_site_def find_finfo_def None)
  next
    case 2
    let ?p = "p\<lparr>finfos := count_site ai ?fi # finfos p, heap_of := h\<rparr>"
    have "p\<lparr>heap_of := h, finfos := x\<rparr> = p\<lparr>finfos := x, heap_of := h\<rparr>" for x by (cases p) simp
    then have "gather_site plat ai p = Inr ?p" using 2(1) by (simp add: gather_site_def find_finfo_def None)
    moreover have "profile_ok plat W' L ?p" using 2(2) by (simp add: profile_ok_def)
    ultimately show ?thesis using files_new [OF fi file_index_None [OF None]] by blast
  qed
qed

lemma gather_ok:
  assumes plat: "plat_ok plat" and ok: "profile_ok plat W L p" and pr: "profile_region p \<noteq> 0"
  shows "gather_finfo plat p = Inl Aborted
    \<or> (\<exists>fis h W'. gather_finfo plat p = Inr (p\<lparr>finfos := fis, heap_of := h\<rparr>) \<and> files_ok (ainfos p) fis
        \<and> profile_ok plat W' L (p\<lparr>finfos := fis, heap_of := h\<rparr>))"
proof -
  have "efold (gather_site plat) bs q = Inl Aborted
    \<or> (\<exists>fis h W'. efold (gather_site plat) bs q = Inr (q\<lparr>finfos := fis, heap_of := h\<rparr>) \<and> files_ok (as @ bs) fis
        \<and> profile_ok plat W' L (q\<lparr>finfos := fis, heap_of := h\<rparr>))"
    if "profile_ok plat W L q" "profile_region q \<noteq> 0" "files_ok as (finfos q)" for W q as bs
    using that
  proof (induction bs arbitrary: W q as)
    case Nil
    then show ?case
      by (intro disjI2 exI [of _ "finfos q"] exI [of _ "heap_of q"] exI [of _ W]) simp
  next
    case (Cons ai bs)
    consider "gather_site plat ai q = Inl Aborted"
      | fis h W' where "gather_site plat ai q = Inr (q\<lparr>finfos := fis, heap_of := h\<rparr>)" "files_ok (as @ [ai]) fis"
          "profile_ok plat W' L (q\<lparr>finfos := fis, heap_of := h\<rparr>)"
      using gather_site_ok [OF plat Cons.prems] by blast
    then show ?case
    proof cases
      case 2
      let ?q = "q\<lparr>finfos := fis, heap_of := h\<rparr>"
      have "?q\<lparr>finfos := x, heap_of := y\<rparr> = q\<lparr>finfos := x, heap_of := y\<rparr>" for x y by (cases q) simp
      then show ?thesis using Cons.IH [OF 2(3), of "as @ [ai]"] Cons.prems(2) 2(1,2) by simp
    qed simp
  qed
  note all = this
  have "(p\<lparr>finfos := []\<rparr>)\<lparr>finfos := x, heap_of := y\<rparr> = p\<lparr>finfos := x, heap_of := y\<rparr>" for x y by (cases p) simp
  moreover have "files_ok [] []" by (simp add: files_ok_def)
  ultimately show ?thesis
    using all [of W "p\<lparr>finfos := []\<rparr>" "[]" "ainfos p"] ok pr finfos_ok by (simp add: gather_finfo_def Let_def)
qed

section \<open>The rows\<close>

definition file_row :: "file_info \<Rightarrow> row" where
  "file_row fi = FileRow (f_size fi) (f_sites fi) (f_calls fi) (f_file fi)"

definition site_row :: "alloc_info \<Rightarrow> row" where
  "site_row ai = SiteRow (a_size ai) (a_calls ai) (a_file ai) (a_line ai) (a_region ai)"

text \<open>The report on chains of files and sites with their totals.\<close>

definition report :: "file_info list \<Rightarrow> alloc_info list \<Rightarrow> region_info list \<Rightarrow> u64 \<Rightarrow> u64 \<Rightarrow> u64 \<Rightarrow> row list" where
  "report fis ais ris sz sites calls =
     [Text ''---------------------------'', Text ''Region Library Memory Usage'',
      Text ''---------------------------'', Text [],
      Text ''        Bytes | Sites |    Calls | File'',
      Text ''  ------------+-------+----------+---------------------''] @ map file_row fis @
     [Text ''  ------------+-------+----------+---------------------'', FileTotal sz sites calls, Text [],
      Text ''        Bytes |    Calls | Site'', Text ''  ------------+----------+---------------------''] @ map site_row ais @
     [Text ''  ------------+----------+---------------------'', SiteTotal sz calls,
      Text [], Text [], Text ''Regions'', Text ''----------------------------------------''] @
     map (\<lambda>ri. RegionRow (ri_region ri) (ri_file ri) (ri_line ri)) ris @ [Text []]"

lemma fold_files:
  "fold (\<lambda>fi (sz, sites, calls, rows). (sz + f_size fi, sites + f_sites fi, calls + f_calls fi,
      rows @ [FileRow (f_size fi) (f_sites fi) (f_calls fi) (f_file fi)])) l (a, b, c, rs)
    = (a + sum_list (map f_size l), b + sum_list (map f_sites l), c + sum_list (map f_calls l), rs @ map file_row l)"
  for l :: "file_info list"
  by (induction l arbitrary: a b c rs) (simp_all add: file_row_def add.assoc)

lemma fold_sites:
  "fold (\<lambda>ai (sz, calls, rows). (sz + a_size ai, calls + a_calls ai,
      rows @ [SiteRow (a_size ai) (a_calls ai) (a_file ai) (a_line ai) (a_region ai)])) l (a, c, rs)
    = (a + sum_list (map a_size l), c + sum_list (map a_calls l), rs @ map site_row l)"
  for l :: "alloc_info list"
  by (induction l arbitrary: a c rs) (simp_all add: site_row_def add.assoc)

lemma sum_mset_eq: "mset xs = mset ys \<Longrightarrow> sum_list (map f xs) = sum_list (map (f :: _ \<Rightarrow> u64) ys)"
  by (metis mset_map sum_mset_sum_list)

text \<open>What the sums over the sites of a file are in the log.\<close>

definition file_log :: "string \<Rightarrow> alloc_log \<Rightarrow> alloc_log" where
  "file_log f L = filter (\<lambda>e. fst (fst e) = f) L"

lemma log_sums:
  assumes "log_ok L ais"
  shows "sum_list (map a_size ais) = bytes_logged L" "sum_list (map a_calls ais) = of_nat (length L)"
proof -
  have m: "map a_size ais = map (\<lambda>s. bytes_logged (entries L s)) (map site_of ais)"
      "map a_calls ais = map (\<lambda>s. of_nat (length (entries L s))) (map site_of ais)" using assms by (simp_all add: log_ok_def)
  have d: "distinct (map site_of ais)" "fst ` set L \<subseteq> set (map site_of ais)" using assms by (simp_all add: log_ok_def)
  show "sum_list (map a_size ais) = bytes_logged L" "sum_list (map a_calls ais) = of_nat (length L)"
    unfolding m by (rule sum_sites [OF d])+
qed

lemma log_file:
  assumes "log_ok L ais"
  shows "log_ok (file_log f L) (file_sites f ais)"
proof -
  have "entries (file_log f L) (site_of ai) = entries L (site_of ai)" if "a_file ai = f" for ai
    using that by (auto simp: entries_def file_log_def site_of_def intro: filter_cong)
  moreover have "fst ` set (file_log f L) = site_of ` set (file_sites f ais)"
  proof -
    have "fst ` set (file_log f L) = {s \<in> fst ` set L. fst s = f}" by (auto simp: file_log_def)
    also have "\<dots> = site_of ` set (file_sites f ais)"
      using assms unfolding log_ok_def file_sites_def by (auto simp: site_of_def)
    finally show ?thesis .
  qed
  ultimately show ?thesis using assms by (auto simp: log_ok_def file_sites_def distinct_map_filter)
qed

lemma bytes_small:
  assumes "sum_list (map (\<lambda>e. unat (snd e)) L) < 2 ^ 31"
  shows "unat (bytes_logged L) = sum_list (map (\<lambda>e. unat (snd e)) L)"
  using assms
proof (induction L)
  case (Cons e L)
  have "unat (scast (snd e) :: u64) = unat (snd e)" using Cons.prems by (intro scast_small) simp
  moreover have "unat (bytes_logged L) = sum_list (map (\<lambda>e. unat (snd e)) L)" using Cons by simp
  ultimately show ?case using Cons.prems by (simp add: unat_plus_if')
qed simp

lemma sum_filter_le: "sum_list (map f (filter P L)) \<le> sum_list (map (f :: _ \<Rightarrow> nat) L)"
  by (induction L) auto

section \<open>The whole report\<close>

lemma print_finfos_eq:
  assumes "sort_list plat fuel qsort finfo_cmp (finfos p) (heap_of p) = Inr (l, h)"
  shows "print_finfos plat fuel qsort p = Inr ([Text ''        Bytes | Sites |    Calls | File'',
      Text ''  ------------+-------+----------+---------------------''] @ map file_row l @
     [Text ''  ------------+-------+----------+---------------------'',
      FileTotal (sum_list (map f_size l)) (sum_list (map f_sites l)) (sum_list (map f_calls l))], p\<lparr>finfos := l, heap_of := h\<rparr>)"
  using assms by (simp add: print_finfos_def Let_def fold_files)

lemma print_ainfos_eq:
  assumes "sort_list plat fuel qsort ainfo_cmp (ainfos p) (heap_of p) = Inr (l, h)"
  shows "print_ainfos plat fuel qsort p = Inr ([Text ''        Bytes |    Calls | Site'',
      Text ''  ------------+----------+---------------------''] @ map site_row l @
     [Text ''  ------------+----------+---------------------'', SiteTotal (sum_list (map a_size l)) (sum_list (map a_calls l))],
     p\<lparr>ainfos := l, heap_of := h\<rparr>)"
  using assms by (simp add: print_ainfos_def Let_def fold_sites)

lemma length_files: "files_ok ais fis \<Longrightarrow> length fis \<le> length ais"
proof -
  assume "files_ok ais fis"
  then have f: "distinct (map f_file fis)" "f_file ` set fis = a_file ` set ais" by (simp_all add: files_ok_def)
  then have "length fis = card (f_file ` set fis)" using distinct_card [OF f(1)] by simp
  then show ?thesis using card_image_le [of "set ais" a_file] card_length [of ais] f(2) by simp
qed

text \<open>The report when both chains are sorted.\<close>

lemma regprofile_ok:
  assumes plat: "plat_ok plat" and ok: "profile_ok plat W L p" and pr: "profile_region p \<noteq> 0" and len: "length (ainfos p) \<le> 512"
    and sites: "mset (sorted_chain qsort ainfo_cmp (ainfos p)) = mset (ainfos p)"
    and files: "\<And>fs. files_ok (ainfos p) fs \<Longrightarrow> mset (sorted_chain qsort finfo_cmp fs) = mset fs"
  shows "\<exists>k. \<forall>fuel \<ge> k. regprofile plat fuel qsort True p = Inl Aborted
    \<or> (\<exists>fs p'. files_ok (ainfos p) fs \<and> regprofile plat fuel qsort True p = Inr (([''Profiling''],
         Some (report (sorted_chain qsort finfo_cmp fs) (sorted_chain qsort ainfo_cmp (ainfos p)) (rinfos p)
           (bytes_logged L) (of_nat (length (ainfos p))) (of_nat (length L)))), p'))"
proof -
  have log: "log_ok L (ainfos p)" using ok by (simp add: profile_ok_def)
  consider "gather_finfo plat p = Inl Aborted"
    | fs h W1 where "gather_finfo plat p = Inr (p\<lparr>finfos := fs, heap_of := h\<rparr>)" "files_ok (ainfos p) fs" "live plat W1 h"
    using gather_ok [OF plat ok pr] by (auto simp: profile_ok_def)
  then show ?thesis
  proof cases
    case 1
    then show ?thesis using pr by (simp add: regprofile_def)
  next
    case 2
    let ?fis = "sorted_chain qsort finfo_cmp fs" and ?ais = "sorted_chain qsort ainfo_cmp (ainfos p)"
    have flen: "length fs \<le> 512" using length_files [OF 2(2)] len by simp
    obtain k res where s1: "\<forall>fuel \<ge> k. sort_list plat fuel qsort finfo_cmp fs h = res"
        "res = Inl Aborted \<or> (\<exists>h' W'. res = Inr (?fis, h') \<and> live plat W' h')"
      using sort_list_ok [OF plat 2(3) flen, of qsort finfo_cmp] by blast
    show ?thesis
    proof (cases "res = Inl Aborted")
      case True
      then show ?thesis using 2(1) pr s1(1)
        by (intro exI [of _ k]) (simp add: regprofile_def print_finfos_def)
    next
      case False
      then obtain h2 W2 where h2: "res = Inr (?fis, h2)" "live plat W2 h2" using s1(2) by blast
      obtain k2 res2 where s2: "\<forall>fuel \<ge> k2. sort_list plat fuel qsort ainfo_cmp (ainfos p) h2 = res2"
          "res2 = Inl Aborted \<or> (\<exists>h' W'. res2 = Inr (?ais, h') \<and> live plat W' h')"
        using sort_list_ok [OF plat h2(2) len, of qsort ainfo_cmp] by blast
      have sums: "sum_list (map f_size ?fis) = bytes_logged L" "sum_list (map f_calls ?fis) = of_nat (length L)"
          "sum_list (map f_sites ?fis) = of_nat (length (ainfos p))" "sum_list (map a_size ?ais) = bytes_logged L"
          "sum_list (map a_calls ?ais) = of_nat (length L)"
        using sum_mset_eq [OF files [OF 2(2)]] sum_mset_eq [OF sites] log_sums [OF log] 2(2) by (simp_all add: files_ok_def)
      have fi: "print_finfos plat fuel qsort (p\<lparr>finfos := fs, heap_of := h\<rparr>) = Inr ([Text ''        Bytes | Sites |    Calls | File'',
            Text ''  ------------+-------+----------+---------------------''] @ map file_row ?fis @
           [Text ''  ------------+-------+----------+---------------------'',
            FileTotal (bytes_logged L) (of_nat (length (ainfos p))) (of_nat (length L))],
           p\<lparr>finfos := fs, heap_of := h, finfos := ?fis, heap_of := h2\<rparr>)" if "k \<le> fuel" for fuel
        using s1(1) that h2(1) sums by (subst print_finfos_eq [where l = ?fis and h = h2]) simp_all
      let ?p = "p\<lparr>finfos := fs, heap_of := h, finfos := ?fis, heap_of := h2\<rparr>"
      show ?thesis
      proof (cases "res2 = Inl Aborted")
        case True
        then show ?thesis using 2(1) pr fi s2(1)
          by (intro exI [of _ "max k k2"]) (simp add: regprofile_def print_ainfos_def)
      next
        case False
        then obtain h3 where h3: "res2 = Inr (?ais, h3)" using s2(2) by blast
        have "print_ainfos plat fuel qsort ?p = Inr ([Text ''        Bytes |    Calls | Site'',
              Text ''  ------------+----------+---------------------''] @ map site_row ?ais @
             [Text ''  ------------+----------+---------------------'', SiteTotal (bytes_logged L) (of_nat (length L))],
             ?p\<lparr>ainfos := ?ais, heap_of := h3\<rparr>)" if "k2 \<le> fuel" for fuel
          using s2(1) that h3 sums by (subst print_ainfos_eq [where l = ?ais and h = h3]) simp_all
        then have "regprofile plat fuel qsort True p = Inr (([''Profiling''], Some (report ?fis ?ais (rinfos p)
            (bytes_logged L) (of_nat (length (ainfos p))) (of_nat (length L)))), ?p\<lparr>ainfos := ?ais, heap_of := h3\<rparr>)"
          if "max k k2 \<le> fuel" for fuel
          using fi that 2(1) pr by (simp add: regprofile_def report_def print_rinfos_def)
        then show ?thesis using 2(2) by blast
      qed
    qed
  qed
qed

section \<open>A sorting function\<close>

primrec insert_by :: "(nat \<Rightarrow> nat \<Rightarrow> u32) \<Rightarrow> nat \<Rightarrow> nat list \<Rightarrow> nat list" where
  "insert_by cmp x [] = [x]"
| "insert_by cmp x (y # ys) = (if sint (cmp x y) \<le> 0 then x # y # ys else y # insert_by cmp x ys)"

definition insertion_sort :: sort_fun where
  "insertion_sort cmp xs = foldr (insert_by cmp) xs []"

lemma insert_by_mset [simp]: "mset (insert_by cmp x ys) = add_mset x (mset ys)"
  by (induction ys) simp_all

lemma insert_by_set [simp]: "set (insert_by cmp x ys) = insert x (set ys)"
  by (induction ys) auto

lemma insertion_sort_ok: "qsort_ok insertion_sort"
  unfolding qsort_ok_def
proof (intro allI impI)
  fix cmp :: "nat \<Rightarrow> nat \<Rightarrow> u32" and xs and key :: "nat \<Rightarrow> int"
  assume k: "\<forall>i \<in> set xs. \<forall>j \<in> set xs. sgn (sint (cmp i j)) = sgn (key i - key j)"
  have le: "sint (cmp i j) \<le> 0 \<longleftrightarrow> key i \<le> key j" if "i \<in> set xs" "j \<in> set xs" for i j
  proof -
    have "sgn (sint (cmp i j)) = sgn (key i - key j)" using k that by blast
    then show ?thesis by (auto simp: sgn_if split: if_splits)
  qed
  have ins: "sorted_wrt (\<lambda>i j. key i \<le> key j) (insert_by cmp x ys)"
    if "sorted_wrt (\<lambda>i j. key i \<le> key j) ys" "x \<in> set xs" "set ys \<subseteq> set xs" for x ys
    using that
  proof (induction ys)
    case (Cons y ys)
    then show ?case using le [of x y] by (cases "sint (cmp x y) \<le> 0") force+
  qed simp
  have s: "sorted_wrt (\<lambda>i j. key i \<le> key j) (foldr (insert_by cmp) ys []) \<and> set (foldr (insert_by cmp) ys []) = set ys"
    if "set ys \<subseteq> set xs" for ys using that by (induction ys) (auto intro: ins)
  have "mset (foldr (insert_by cmp) ys []) = mset ys" for ys by (induction ys) simp_all
  moreover have "sorted_wrt (\<lambda>i j. sint (cmp i j) \<le> 0) (foldr (insert_by cmp) xs [])"
  proof (rule sorted_wrt_mono_rel)
    show "sorted_wrt (\<lambda>i j. key i \<le> key j) (foldr (insert_by cmp) xs [])" using s by blast
    fix i j assume ij: "i \<in> set (foldr (insert_by cmp) xs [])" "j \<in> set (foldr (insert_by cmp) xs [])" "key i \<le> key j"
    have "set (foldr (insert_by cmp) xs []) = set xs" using s by blast
    then show "sint (cmp i j) \<le> 0" using ij le by blast
  qed
  ultimately show "mset (insertion_sort cmp xs) = mset xs \<and> sorted_wrt (\<lambda>i j. sint (cmp i j) \<le> 0) (insertion_sort cmp xs)"
    by (simp add: insertion_sort_def)
qed

section \<open>Properties\<close>

lemma size_order:
  "(\<And>a. a \<in> set l \<Longrightarrow> unat (a_size a) < 2 ^ 31) \<Longrightarrow> qsort_ok qsort \<Longrightarrow>
    mset (sorted_chain qsort ainfo_cmp l) = mset l \<and> sorted_wrt (\<lambda>a b. a_size b \<le> a_size a) (sorted_chain qsort ainfo_cmp l)"
  using sorted_chain_ok [of qsort l ainfo_cmp "\<lambda>ai. int (unat (a_size ai))"]
  by (simp add: ainfo_cmp_def cmp_small word_le_nat_alt del: of_nat_unat)

lemma file_order:
  "(\<And>a. a \<in> set l \<Longrightarrow> unat (f_size a) < 2 ^ 31) \<Longrightarrow> qsort_ok qsort \<Longrightarrow>
    mset (sorted_chain qsort finfo_cmp l) = mset l \<and> sorted_wrt (\<lambda>a b. f_size b \<le> f_size a) (sorted_chain qsort finfo_cmp l)"
  using sorted_chain_ok [of qsort l finfo_cmp "\<lambda>fi. int (unat (f_size fi))"]
  by (simp add: finfo_cmp_def cmp_small word_le_nat_alt del: of_nat_unat)

lemma part_small:
  assumes "sum_list (map (\<lambda>e. unat (snd e)) L) < 2 ^ 31"
  shows "unat (bytes_logged (filter P L)) < 2 ^ 31"
proof -
  have "sum_list (map (\<lambda>e. unat (snd e)) (filter P L)) < 2 ^ 31" using assms sum_filter_le [of "\<lambda>e. unat (snd e)" P L] by simp
  then show ?thesis using bytes_small [of "filter P L"] by simp
qed

lemma files_log:
  assumes "log_ok L ais" and "files_ok ais fis" and "fi \<in> set fis"
  shows "f_size fi = bytes_logged (file_log (f_file fi) L)" "f_calls fi = of_nat (length (file_log (f_file fi) L))"
    "f_sites fi = of_nat (card (fst ` set (file_log (f_file fi) L)))"
proof -
  let ?L = "file_log (f_file fi) L" and ?ais = "file_sites (f_file fi) ais"
  have log: "log_ok ?L ?ais" by (rule log_file [OF assms(1)])
  then show "f_size fi = bytes_logged ?L" "f_calls fi = of_nat (length ?L)"
    using assms(2,3) log_sums [OF log] by (simp_all add: files_ok_def)
  have "length ?ais = card (site_of ` set ?ais)" using log distinct_card [of "map site_of ?ais"] by (simp add: log_ok_def)
  then show "f_sites fi = of_nat (card (fst ` set ?L))" using log assms(2,3) by (simp add: log_ok_def files_ok_def)
qed

definition rows_ok :: "profile \<Rightarrow> alloc_log \<Rightarrow> file_info list \<Rightarrow> alloc_info list \<Rightarrow> bool" where
  "rows_ok p L fis ais \<longleftrightarrow> mset ais = mset (ainfos p) \<and> sorted_wrt (\<lambda>a b. a_size b \<le> a_size a) ais
     \<and> distinct (map f_file fis) \<and> f_file ` set fis = (fst \<circ> fst) ` set L
     \<and> sorted_wrt (\<lambda>a b. f_size b \<le> f_size a) fis
     \<and> (\<forall>fi \<in> set fis. f_size fi = bytes_logged (file_log (f_file fi) L)
          \<and> f_calls fi = of_nat (length (file_log (f_file fi) L))
          \<and> f_sites fi = of_nat (card (fst ` set (file_log (f_file fi) L))))"





end
