(* ===== verification/Stats.thy ===== *)
theory Stats
  imports Runtime_Init
begin

text \<open>
  \<open>src/stats.c\<close>: the figures collected under \<open>ENABLE_STATS\<close> and the two files they are printed to.
  A row is its label with the figure in its column; ruled lines and the widths of the columns are
  left out.  Times are microseconds; a \<open>double\<close> here only ever holds a whole number of them.
\<close>

section \<open>Data\<close>

record pthread_data =
  td_phys_core :: u32
  queue_index :: u32
  pid :: u64
  current_task :: nat
  thread_start_time :: u64
  thread_stop_time :: u64
  thread_sync_start :: u64
  thread_sync_stop :: u64
  start_time :: u64
  stop_time :: u64
  exec_time :: u64
  queue_start :: u64
  queue_stop :: u64
  alloc_start :: u64
  alloc_end :: u64
  deps_start :: u64
  deps_end :: u64
  total_enqueue_time :: u64
  total_dequeue_time :: u64
  total_alloc_time :: u64
  highest_exec_task_time :: u64
  runtime_timer :: u64
  total_dep_analysis_time :: u64
  old_runtime_timer :: u64
  total_runtime_time :: u64
  total_idle_time :: u64
  total_sync_time :: u64
  total_enqueues :: u32
  total_dequeues :: u32
  total_spawned_tasks :: u32
  total_scheduled_tasks :: u32
  total_immediate_executed_tasks :: u32
  total_steals :: u32
  total_steal_attempts :: u32
  total_tasks :: u32
  total_task_descriptors_created :: u32

record stats =
  total_exec_time :: u64
  total_start_time :: u64
  total_stop_time :: u64
  alloc_time_all :: u64
  total_allocated_space :: u64
  total_allocated_task_descriptors :: u32
  enqueue_time_all :: u32
  dequeue_time_all :: u32

text \<open>The columns: \<open>%d\<close> and \<open>%u\<close>, \<open>%lu\<close>, a time divided by 1000.0, and that divided by a count.\<close>

datatype figure = Count u32 | Bytes u64 | Millis u64 | MeanMillis u64 u32

type_synonym stat_row = "string \<times> figure"

text \<open>\<open>gettimeofday\<close> fills in seconds and microseconds.\<close>

definition usecs :: "u64 \<times> u64 \<Rightarrow> u64" where
  "usecs t = fst t * 1000000 + snd t"

section \<open>Printing\<close>

text \<open>\<open>uint32_t += long\<close>, one thread after the other.\<close>

definition add_totals :: "pthread_data list \<Rightarrow> stats \<Rightarrow> stats" where
  "add_totals ts st = fold (\<lambda>t st. st\<lparr>enqueue_time_all := ucast (ucast (enqueue_time_all st) + total_enqueue_time t :: u64),
     dequeue_time_all := ucast (ucast (dequeue_time_all st) + total_dequeue_time t :: u64)\<rparr>) ts st"

definition global_rows :: "u32 \<Rightarrow> stats \<Rightarrow> stat_row list" where
  "global_rows active st =
     [(''Max Threads'', Count MAX_THREADS),
      (''Total Threads'', Count active),
      (''Total Allocated Memory'', Bytes (total_allocated_space st)),
      (''Total Allocated Task Descriptors'', Count (total_allocated_task_descriptors st)),
      (''Total Execution time'', Millis (total_exec_time st)),
      (''Total Allocation time'', Millis (alloc_time_all st)),
      (''Total Enqueue time'', Millis (ucast (enqueue_time_all st))),
      (''Total Dequeue time'', Millis (ucast (dequeue_time_all st)))]"

definition worker_rows :: "pthread_data \<Rightarrow> stat_row list" where
  "worker_rows t =
     [(''Physical_Core'', Count (td_phys_core t)),
      (''PID'', Count (ucast (pid t))),
      (''Queue Size'', Count (of_nat MAX_QUEUE_ENTRIES)),
      (''Thread Enqueues'', Count (total_enqueues t)),
      (''Thread Dequeues'', Count (total_dequeues t)),
      (''Thread Spawned Tasks'', Count (total_spawned_tasks t)),
      (''Thread Scheduled Tasks'', Count (total_scheduled_tasks t)),
      (''Thread Task Descriptors Created'', Count (total_task_descriptors_created t)),
      (''Thread Immediate Completed Tasks'', Count (total_immediate_executed_tasks t)),
      (''Thread Steals'', Count (total_steals t)),
      (''Thread Steal Attempts'', Count (total_steal_attempts t)),
      (''Thread Completed Tasks'', Count (total_tasks t)),
      (''Thread up time'', Millis (thread_stop_time t - thread_start_time t)),
      (''Thread execution time'', Millis (exec_time t)),
      (''Average execution time per task'', MeanMillis (exec_time t) (total_tasks t)),
      (''Thread highest execution time'', Millis (highest_exec_task_time t)),
      (''Thread runtime time'', Millis (total_runtime_time t)),
      (''Thread idle time'', Millis (total_idle_time t)),
      (''Thread dependence analysis time'', Millis (total_dep_analysis_time t)),
      (''Thread synchronization time'', Millis (total_sync_time t)),
      (''Thread enqueue time'', Millis (total_enqueue_time t)),
      (''Average enqueue time'', MeanMillis (total_enqueue_time t) (total_enqueues t)),
      (''Thread dequeue time'', Millis (total_dequeue_time t)),
      (''Average dequeue time'', MeanMillis (total_dequeue_time t) (total_dequeues t)),
      (''Thread allocate time'', Millis (total_alloc_time t))]"

definition csv_global_rows :: "u32 \<Rightarrow> stats \<Rightarrow> stat_row list" where
  "csv_global_rows active st =
     [(''Max Threads'', Count MAX_THREADS),
      (''Total Threads'', Count active),
      (''Total Allocated Memory'', Bytes (total_allocated_space st)),
      (''Total Allocated Task Descriptors'', Count (total_allocated_task_descriptors st)),
      (''Total execution time'', Millis (total_exec_time st)),
      (''Total Allocation time'', Millis (alloc_time_all st)),
      (''Total Enqueue time'', Millis (ucast (enqueue_time_all st))),
      (''Total Dequeue time'', Millis (ucast (dequeue_time_all st)))]"

definition csv_worker_rows :: "pthread_data \<Rightarrow> stat_row list" where
  "csv_worker_rows t =
     [(''Physical_Core'', Count (td_phys_core t)),
      (''PID'', Count (ucast (pid t))),
      (''Queue Size'', Count (of_nat MAX_QUEUE_ENTRIES)),
      (''Thread Enqueues'', Count (total_enqueues t)),
      (''Thread Dequeues'', Count (total_dequeues t)),
      (''Thread Spawned Tasks'', Count (total_spawned_tasks t)),
      (''Thread Scheduled Tasks'', Count (total_scheduled_tasks t)),
      (''Thread Immediate Completed Tasks'', Count (total_immediate_executed_tasks t)),
      (''Thread Steals'', Count (total_steals t)),
      (''Thread Steal Attempts'', Count (total_steal_attempts t)),
      (''Thread Complete Tasks'', Count (total_tasks t)),
      (''Thread up time'', Millis (thread_stop_time t - thread_start_time t)),
      (''Thread execution time'', Millis (exec_time t)),
      (''Average execution time per task'', MeanMillis (exec_time t) (total_tasks t)),
      (''Thread highest execution time'', Millis (highest_exec_task_time t)),
      (''Thread runtime time'', Millis (total_runtime_time t)),
      (''Thread idle time'', Millis (total_idle_time t)),
      (''Thread dependence analysis time'', Millis (total_dep_analysis_time t)),
      (''Thread synchronization time'', Millis (total_sync_time t)),
      (''Thread enqueue time'', Millis (total_enqueue_time t)),
      (''Average enqueue time'', MeanMillis (total_enqueue_time t) (total_enqueues t)),
      (''Thread dequeue time'', Millis (total_dequeue_time t)),
      (''Average dequeue time'', MeanMillis (total_dequeue_time t) (total_dequeues t)),
      (''Thread allocate time'', Millis (total_alloc_time t))]"

text \<open>The report and the csv file: the global rows and those of every worker, under its number.\<close>

definition print_stats :: "pthread_data list \<Rightarrow> stats \<Rightarrow>
    (stat_row list \<times> (nat \<times> stat_row list) list) \<times> (stat_row list \<times> (nat \<times> stat_row list) list) \<times> stats" where
  "print_stats ts st =
     (let st = st\<lparr>total_exec_time := total_stop_time st - total_start_time st\<rparr>;
          st = add_totals ts st;
          active = of_nat (length ts)
      in ((global_rows active st, zip [0..<length ts] (map worker_rows ts)),
          (csv_global_rows active st, zip [0..<length ts] (map csv_worker_rows ts)), st))"

definition reset_threads_stats :: "pthread_data \<Rightarrow> pthread_data" where
  "reset_threads_stats t = t\<lparr>
     total_enqueues := 0,
     total_dequeues := 0,
     total_spawned_tasks := 0,
     total_task_descriptors_created := 0,
     total_immediate_executed_tasks := 0,
     total_steals := 0,
     total_steal_attempts := 0,
     thread_stop_time := 0,
     thread_start_time := 0,
     exec_time := 0,
     total_tasks := 0,
     highest_exec_task_time := 0,
     total_runtime_time := 0,
     total_idle_time := 0,
     total_enqueue_time := 0,
     total_dequeue_time := 0\<rparr>"


section \<open>What is printed\<close>

lemma uint_ucast_add: "uint (ucast (ucast (a :: u32) + (t :: u64) :: u64) :: u32) = (uint a + uint t) mod 2 ^ 32"
proof -
  have "uint (ucast (ucast a + t :: u64) :: u32) = ((uint a + uint t) mod 2 ^ 64) mod 2 ^ 32"
    by (simp add: unsigned_ucast_eq take_bit_eq_mod uint_word_ariths mod_simps)
  then show ?thesis by (simp add: mod_mod_cancel)
qed

text \<open>The two totals are sums of \<open>long\<close> values kept in 32 bits: they are right only up to a
  multiple of \<open>2^32\<close> microseconds.\<close>

lemma add_totals_wrap:
  "uint (enqueue_time_all (add_totals ts st))
     = (uint (enqueue_time_all st) + (\<Sum>t\<leftarrow>ts. uint (total_enqueue_time t))) mod 2 ^ 32 \<and>
   uint (dequeue_time_all (add_totals ts st))
     = (uint (dequeue_time_all st) + (\<Sum>t\<leftarrow>ts. uint (total_dequeue_time t))) mod 2 ^ 32"
proof (induction ts arbitrary: st)
  case Nil
  then show ?case by (simp add: add_totals_def unsigned_less [of "_ :: u32", simplified])
next
  case (Cons t ts)
  let ?st = "st\<lparr>enqueue_time_all := ucast (ucast (enqueue_time_all st) + total_enqueue_time t :: u64),
     dequeue_time_all := ucast (ucast (dequeue_time_all st) + total_dequeue_time t :: u64)\<rparr>"
  have "add_totals (t # ts) st = add_totals ts ?st" by (simp add: add_totals_def)
  then show ?case
    using Cons.IH [of ?st] by (simp add: uint_ucast_add [simplified] mod_simps add.assoc)
qed

text \<open>Nothing resets them: a second report counts the first one again.\<close>

lemma totals_carry_over:
  "let st = snd (snd (print_stats ts st0)); st' = snd (snd (print_stats ts st)) in
     uint (enqueue_time_all st')
       = (uint (enqueue_time_all st0) + 2 * (\<Sum>t\<leftarrow>ts. uint (total_enqueue_time t))) mod 2 ^ 32"
  by (simp add: print_stats_def Let_def add_totals_wrap mod_simps algebra_simps)

text \<open>The csv file has the figures of the report but for one row of each worker.\<close>

definition figures :: "stat_row list \<Rightarrow> figure list" where
  "figures rows = map snd rows"

lemma csv_figures:
  "figures (csv_global_rows active st) = figures (global_rows active st)"
  "figures (csv_worker_rows t) = figures (filter (\<lambda>r. fst r \<noteq> ''Thread Task Descriptors Created'') (worker_rows t))"
  by (simp_all add: figures_def csv_global_rows_def global_rows_def csv_worker_rows_def worker_rows_def)

lemma csv_agrees:
  "let (report, csv, st') = print_stats ts st in
     figures (fst csv) = figures (fst report) \<and>
     map (\<lambda>(i, rows). (i, figures rows)) (snd csv)
       = map (\<lambda>(i, rows). (i, figures (filter (\<lambda>r. fst r \<noteq> ''Thread Task Descriptors Created'') rows))) (snd report)"
  by (simp add: print_stats_def Let_def csv_figures zip_map2 split_def)

section \<open>The log of allocation sites\<close>

record sizerec =
  rc_file :: u64
  rc_line :: u32
  rc_bytes :: u64

record sizerecs =
  sizerec_n :: nat
  sizerec_allocs :: "sizerec list"

definition DRN :: nat where "DRN = 100"

definition sizerecs_start :: sizerecs where
  "sizerecs_start = \<lparr>sizerec_n = 0, sizerec_allocs = replicate DRN \<lparr>rc_file = 0, rc_line = 0, rc_bytes = 0\<rparr>\<rparr>"

text \<open>The names of files are compared as pointers.\<close>

definition record_alloc :: "u64 \<times> u32 \<Rightarrow> u64 \<Rightarrow> sizerecs \<Rightarrow> sizerecs res" where
  "record_alloc site nbytes a =
     (case List.find (\<lambda>i. rc_line (sizerec_allocs a ! i) = snd site \<and> rc_file (sizerec_allocs a ! i) = fst site)
            [0..<sizerec_n a] of
        Some i \<Rightarrow> Inr (a\<lparr>sizerec_allocs := (sizerec_allocs a)[i := (sizerec_allocs a ! i)\<lparr>rc_bytes := rc_bytes (sizerec_allocs a ! i) + nbytes\<rparr>]\<rparr>)
      | None \<Rightarrow>
          ebind (c_assert (sizerec_n a < DRN)) (\<lambda>_.
          ebind (c_store (sizerec_allocs a) (int (sizerec_n a)) \<lparr>rc_file = fst site, rc_line = snd site, rc_bytes = nbytes\<rparr>) (\<lambda>as.
          Inr (a\<lparr>sizerec_allocs := as, sizerec_n := sizerec_n a + 1\<rparr>))))"

definition memusage :: "sizerecs \<Rightarrow> ((u64 \<times> u32) \<times> u64) list" where
  "memusage a = map (\<lambda>i. let r = sizerec_allocs a ! i in ((rc_file r, rc_line r), rc_bytes r)) [0..<sizerec_n a]"

definition record_allocs :: "((u64 \<times> u32) \<times> u64) list \<Rightarrow> sizerecs res" where
  "record_allocs log = efold (\<lambda>(site, n). record_alloc site n) log sizerecs_start"

text \<open>The rows that the log should give: every site once, in the order of its first allocation.\<close>

definition first_sites :: "((u64 \<times> u32) \<times> u64) list \<Rightarrow> (u64 \<times> u32) list" where
  "first_sites log = rev (remdups (rev (map fst log)))"

definition site_bytes :: "((u64 \<times> u32) \<times> u64) list \<Rightarrow> u64 \<times> u32 \<Rightarrow> u64" where
  "site_bytes log site = sum_list (map snd (filter (\<lambda>e. fst e = site) log))"

definition log_rows :: "((u64 \<times> u32) \<times> u64) list \<Rightarrow> ((u64 \<times> u32) \<times> u64) list" where
  "log_rows log = map (\<lambda>s. (s, site_bytes log s)) (first_sites log)"

definition sizerecs_ok :: "sizerecs \<Rightarrow> bool" where
  "sizerecs_ok a \<longleftrightarrow> length (sizerec_allocs a) = DRN \<and> sizerec_n a \<le> DRN \<and> distinct (map fst (memusage a))"

lemma memusage_length [simp]: "length (memusage a) = sizerec_n a"
  by (simp add: memusage_def)

lemma memusage_nth:
  "i < sizerec_n a \<Longrightarrow> memusage a ! i = ((rc_file (sizerec_allocs a ! i), rc_line (sizerec_allocs a ! i)), rc_bytes (sizerec_allocs a ! i))"
  by (simp add: memusage_def Let_def)

lemma record_alloc_known:
  assumes ok: "sizerecs_ok a" and i: "i < sizerec_n a" and site: "fst (memusage a ! i) = site"
  obtains a' where "record_alloc site n a = Inr a'" "sizerecs_ok a'"
    "memusage a' = (memusage a)[i := (site, snd (memusage a ! i) + n)]"
proof -
  have dist: "j = i" if "j < sizerec_n a" "fst (memusage a ! j) = site" for j
    using ok site that i by (auto simp: sizerecs_ok_def distinct_conv_nth)
  have find: "List.find (\<lambda>j. rc_line (sizerec_allocs a ! j) = snd site \<and> rc_file (sizerec_allocs a ! j) = fst site)
            [0..<sizerec_n a] = Some i"
    unfolding find_Some_iff
  proof (intro exI [of _ i] conjI allI impI)
    have at: "fst (memusage a ! j) = (rc_file (sizerec_allocs a ! j), rc_line (sizerec_allocs a ! j))"
      if "j < sizerec_n a" for j using that by (simp add: memusage_nth)
    show "rc_line (sizerec_allocs a ! ([0..<sizerec_n a] ! i)) = snd site"
      "rc_file (sizerec_allocs a ! ([0..<sizerec_n a] ! i)) = fst site"
      using i site at [OF i] by auto
    fix j assume j: "j < i"
    then have lt: "j < sizerec_n a" using i by simp
    then have "fst (memusage a ! j) \<noteq> site" using dist [of j] j by blast
    then show "\<not> (rc_line (sizerec_allocs a ! ([0..<sizerec_n a] ! j)) = snd site \<and>
      rc_file (sizerec_allocs a ! ([0..<sizerec_n a] ! j)) = fst site)"
      using at [OF lt] lt by (auto simp: prod_eq_iff)
  qed (use i in simp_all)
  let ?a = "a\<lparr>sizerec_allocs := (sizerec_allocs a)[i := (sizerec_allocs a ! i)\<lparr>rc_bytes := rc_bytes (sizerec_allocs a ! i) + n\<rparr>]\<rparr>"
  have len: "i < length (sizerec_allocs a)" using i ok by (simp add: sizerecs_ok_def)
  have rows: "memusage ?a = (memusage a)[i := (site, snd (memusage a ! i) + n)]"
    using len i site by (intro nth_equalityI) (auto simp: memusage_nth nth_list_update)
  have "map fst (memusage ?a) = (map fst (memusage a))[i := map fst (memusage a) ! i]"
    unfolding rows using i site by (simp add: map_update)
  then have "map fst (memusage ?a) = map fst (memusage a)" by (simp only: list_update_id)
  then have "sizerecs_ok ?a" using ok unfolding sizerecs_ok_def by simp
  then show thesis using rows find by (intro that) (simp_all add: record_alloc_def)
qed

lemma record_alloc_new:
  assumes ok: "sizerecs_ok a" and new: "site \<notin> fst ` set (memusage a)"
  shows "if sizerec_n a < DRN
         then \<exists>a'. record_alloc site n a = Inr a' \<and> sizerecs_ok a' \<and> memusage a' = memusage a @ [(site, n)]
         else record_alloc site n a = Inl AssertFailed"
proof -
  have "List.find (\<lambda>j. rc_line (sizerec_allocs a ! j) = snd site \<and> rc_file (sizerec_allocs a ! j) = fst site)
            [0..<sizerec_n a] = None"
    using new by (force simp: find_None_iff memusage_def Let_def image_iff prod_eq_iff)
  note rec = this
  let ?a = "a\<lparr>sizerec_allocs := (sizerec_allocs a)[sizerec_n a := \<lparr>rc_file = fst site, rc_line = snd site, rc_bytes = n\<rparr>],
              sizerec_n := sizerec_n a + 1\<rparr>"
  show ?thesis
  proof (cases "sizerec_n a < DRN")
    case True
    then have rows: "memusage ?a = memusage a @ [(site, n)]"
      using ok by (simp add: memusage_def sizerecs_ok_def Let_def)
    then have "sizerecs_ok ?a" using ok new True by (simp add: sizerecs_ok_def)
    moreover have "record_alloc site n a = Inr ?a"
      using True ok by (simp add: record_alloc_def rec c_assert_def c_store_def sizerecs_ok_def)
    ultimately show ?thesis using True rows by auto
  next
    case False
    then show ?thesis by (simp add: record_alloc_def rec c_assert_def ebind_def)
  qed
qed

lemma first_sites_snoc:
  "first_sites (log @ [e]) = (if fst e \<in> set (map fst log) then first_sites log else first_sites log @ [fst e])"
  by (simp add: first_sites_def)

lemma first_sites_set [simp]: "set (first_sites log) = set (map fst log)" "distinct (first_sites log)"
  by (simp_all add: first_sites_def)

lemma site_bytes_snoc:
  "site_bytes (log @ [(s', n)]) s = (if s = s' then site_bytes log s + n else site_bytes log s)"
  by (auto simp: site_bytes_def)

lemma log_rows_snoc_new:
  assumes "s \<notin> set (map fst log)"
  shows "log_rows (log @ [(s, n)]) = log_rows log @ [(s, n)]"
proof -
  have "site_bytes log s = 0" 
  proof -
    have "filter (\<lambda>e. fst e = s) log = []" using assms by (auto simp: filter_empty_conv)
    then show ?thesis by (simp add: site_bytes_def)
  qed
  moreover have "s \<notin> set (first_sites log)" using assms by simp
  ultimately show ?thesis
    using assms by (auto simp: log_rows_def first_sites_snoc site_bytes_snoc simp del: first_sites_set)
qed

lemma log_rows_snoc_known:
  assumes i: "i < length (first_sites log)" and s: "first_sites log ! i = s"
  shows "log_rows (log @ [(s, n)]) = (log_rows log)[i := (s, site_bytes log s + n)]"
proof -
  have "s \<in> set (map fst log)" using assms first_sites_set(1) nth_mem by blast
  moreover have "first_sites log ! j = s \<longleftrightarrow> j = i" if "j < length (first_sites log)" for j
    using that i s first_sites_set(2) nth_eq_iff_index_eq by metis
  ultimately show ?thesis
    using i s by (intro nth_equalityI; simp add: log_rows_def first_sites_snoc site_bytes_snoc nth_list_update; metis)
qed

text \<open>The log is exact for up to 100 sites and stops at the 101st.\<close>

lemma record_allocs_log:
  "if length (first_sites log) \<le> DRN
   then \<exists>a. record_allocs log = Inr a \<and> sizerecs_ok a \<and> memusage a = log_rows log
   else record_allocs log = Inl AssertFailed"
proof (induction log rule: rev_induct)
  case Nil
  show ?case by (simp add: record_allocs_def first_sites_def log_rows_def sizerecs_start_def memusage_def sizerecs_ok_def)
next
  case (snoc e log)
  obtain s n where e: "e = (s, n)" by (cases e)
  have step: "record_allocs (log @ [e]) = ebind (record_allocs log) (record_alloc s n)"
    by (cases "efold (\<lambda>(site, n). record_alloc site n) log sizerecs_start")
      (simp_all add: record_allocs_def efold_append e ebind_def split: sum.split)
  have grow: "length (first_sites log) \<le> length (first_sites (log @ [e]))"
    by (simp add: first_sites_snoc)
  show ?case
  proof (cases "length (first_sites log) \<le> DRN")
    case False
    then show ?thesis using snoc step grow by (auto simp: ebind_def)
  next
    case True
    then obtain a where a: "record_allocs log = Inr a" "sizerecs_ok a" "memusage a = log_rows log"
      using snoc by auto
    have n: "sizerec_n a = length (first_sites log)" using a(3) memusage_length [of a] by (simp add: log_rows_def)
    show ?thesis
    proof (cases "s \<in> set (map fst log)")
      case known: True
      then obtain i where i: "i < length (first_sites log)" "first_sites log ! i = s"
        using first_sites_set(1) by (metis in_set_conv_nth)
      then have at: "memusage a ! i = (s, site_bytes log s)" using a(3) by (simp add: log_rows_def)
      obtain a' where "record_alloc s n a = Inr a'" "sizerecs_ok a'"
        "memusage a' = (memusage a)[i := (s, snd (memusage a ! i) + n)]"
        using record_alloc_known [OF a(2), of i s n thesis] i n at by simp
      moreover have "first_sites (log @ [e]) = first_sites log" using known e by (simp add: first_sites_snoc)
      ultimately show ?thesis
        using step a at log_rows_snoc_known [OF i, of n] True e by simp
    next
      case new: False
      then have "s \<notin> fst ` set (memusage a)" using a(3) by (simp add: log_rows_def image_image)
      note rec = record_alloc_new [OF a(2) this, of n]
      have len: "length (first_sites (log @ [e])) = length (first_sites log) + 1"
        using new e by (simp add: first_sites_snoc)
      show ?thesis
        using rec step a len n e log_rows_snoc_new [OF new, of n] by (auto simp: split: if_splits)
    qed
  qed
qed

end
