(* ===== verification/Spec2Isabelle.thy ===== *)
theory Spec2Isabelle
  imports Deque_Conc Deps_Sound Join Release Runtime_Total Serialize_Ok Profile_Report Stats
begin

text \<open>
  A verification library for PARTEE, a task runtime in C: a program calls functions as tasks, the
  runtime finds from the blocks of memory their arguments cover which tasks have to wait for which,
  and workers execute the tasks that are ready from work-stealing queues.

  \<^bold>\<open>The program.\<close>  \<open>tpc_call\<close> (\<open>src/runtime.c\<close>) hands a task to \<open>create_dependencies\<close>
  (\<open>src/deps.c\<close>).  For every block of every argument that looks up the last access in the table of
  the parent task (\<open>src/trie.c\<close>), pushes the new task on the notification stack
  (\<open>src/stack.c\<close>) of each task it has to wait for, and enters itself as a reader
  (\<open>src/list.c\<close>) or writer.  A task that waits for nobody goes to \<open>schedule_task\<close>, into the deque of the
  worker (\<open>src/queue.c\<close>) or, when that is full, straight to \<open>execute_task\<close>.  When a task and its
  children are done, \<open>release_task\<close> locks its stack and lets \<open>fire_dependencies\<close> count down the tasks
  found there.  Task data comes from the grid (\<open>src/balloc.c\<close>), descriptors and tables from
  regions (\<open>src/regions.c\<close>, \<open>src/alloc.c\<close>, \<open>src/pages.c\<close>).

  \<^bold>\<open>Conventions.\<close>  \<open>Prelude\<close>: C integers are words of their width, a fallible operation returns a
  value of \<open>'a res\<close>, whose left side names what went wrong (a failed assertion, a
  null pointer, an index out of bounds, a call of \<open>abort\<close> or \<open>exit\<close>, an endless wait); \<open>ebind\<close>
  sequences such operations and \<open>efold\<close> is a \<open>for\<close> loop.  Pointers to descriptors and metadata are
  natural numbers into a store, pointers into memory whose arithmetic matters are 64-bit words.
  The configuration is that of the Makefiles: 64 bit, regions, \<open>NDEBUG\<close>, \<open>NMEMDEBUG\<close>, no
  debug output, with \<open>REGION_PROFILE\<close>, \<open>ENABLE_STATS\<close> and \<open>DEBUG_RALLOC\<close> only in the theories on those
  files.  Memory is sequentially consistent.

  \<^bold>\<open>Components.\<close>
  \<^item> \<open>Deque_Spec\<close>, \<open>Deque\<close>, \<open>Deque_Conc\<close>: \<open>src/queue.c\<close>.  The locale \<open>bounded_deque\<close> states the
    contract of a deque of bounded capacity; \<open>Deque\<close> interprets it with the code, byte counters and
    all, so that every run equals the run on a list.  \<open>Deque_Conc\<close> has one transition per memory access
    of owner and thieves: no task is lost or duplicated unless a thief is overtaken by 256 steals, and
    with that one is.
  \<^item> \<open>NotifyStack\<close>: \<open>src/stack.c\<close>, the atomic operations and the pointer-level steps that refine
    them.  \<open>Atomics\<close>: the spinlock of \<open>src/atomic.c\<close>.  \<open>ReaderList\<close>: \<open>src/list.c\<close>.  \<open>Trie\<close>:
    \<open>src/trie.c\<close>, as an array over block numbers.  \<open>Balloc\<close>: \<open>src/balloc.c\<close>, \<open>tpc_malloc\<close> and the
    block numbers of objects.
  \<^item> \<open>Deps\<close>: \<open>src/deps.c\<close>, whole.  \<open>Deps_Edges\<close>, \<open>Deps_Blocks\<close>, \<open>Deps_Args\<close>: what one wait, one block, one
    argument and one task add, each as a lemma about the step below; the result is that
    \<open>waitfor\<close> counts exactly the pushes.  \<open>Deps_Gaps\<close>: three programs for which the analysis loses an
    ordering.  \<open>Deps_Sound\<close>: every other program is ordered correctly.
  \<^item> \<open>Join\<close>: the end of \<open>create_dependencies\<close> against \<open>fire_dependencies\<close>, and \<open>Release\<close>: the
    counter of children against the end of the parent, both memory access by memory access, with
    an invariant of the reachable states.
  \<^item> \<open>Runtime\<close>: the scheduler of \<open>src/runtime.c\<close> as one worker runs it; \<open>Runtime_Init\<close>: start, end,
    descriptors and the placement of the workers.  The functions call each other
    through \<open>schedule_task\<close>, so \<open>execute_task\<close> has a bound on its nesting.  \<open>Runtime_Quiet\<close>: the analysis does not
    touch what the scheduler relies on.  \<open>Runtime_Inv\<close>: the invariant.  \<open>Runtime_Ok\<close>: the locale
    \<open>executor\<close>, what the clients of \<open>execute_task\<close> need of it, and whole programs.
    \<open>Runtime_Fuel\<close>: the locale \<open>deeper\<close>, by which the bound never changes a result.  \<open>Runtime_Calm\<close>:
    programs of independent tasks, a task that waits always leaves another one in the queue;
    \<open>Runtime_Total\<close>: they return, with their whole tree of tasks executed.
  \<^item> \<open>Pages\<close>, \<open>Page_Spec\<close>, \<open>Pages_Inv\<close>, \<open>Pages_Room\<close>: \<open>src/pages.c\<close>, page lists threaded through the pages; the locale
    \<open>page_pool\<close> is the contract, interpreted with the code for single pages.  For units of several
    pages the contract fails, which is shown by two runs.
  \<^item> \<open>Region_Map\<close>: the table from addresses to regions, as one function; the loop of
    \<open>set_region_range\<close> never ends.  \<open>Regions\<close>, \<open>Regions_Ok\<close>:
    \<open>src/alloc.c\<close> and \<open>src/regions.c\<close>, allocation inside a region, the tree of regions and its deletion.
    \<open>Region_World\<close>: any number of regions at once, whose objects and pages never meet.
    \<open>Region_Alloc\<close>: the specialised allocation functions against the general one.
    \<open>Region_Data\<close>: the bytes of objects, their copies, and the search for references.
  \<^item> \<open>Serialize\<close>, \<open>Serialize_Ok\<close>: \<open>src/serialize.c\<close>, regions written to files and read back at other
    addresses: the same pages and bytes, and a table that translates every address; and why the
    region that was read back must not be allocated in.
  \<^item> \<open>Profile\<close>: \<open>src/profile.c\<close>, the log of allocations, itself kept in a region.  \<open>Profile_Ok\<close>:
    runs of the intercepted calls; the profile is the log of the allocations in live regions.
    \<open>Profile_Report\<close>: gathering by file, sorting and printing.  \<open>qsort\<close> is a parameter, the
    hypothesis \<open>qsort_ok\<close> is its contract: a permutation, in order if the comparison is one.
  \<^item> \<open>Stats\<close>: the report of \<open>src/stats.c\<close> and its csv copy, and the log of allocation sites of
    \<open>src/stats_regions.c\<close>, exact for up to 100 sites.

  \<^bold>\<open>Bounds.\<close>  Loops that end on their own are structural recursions.  The waits of the
  page allocator, \<open>unlink_region\<close> and the mutual recursion of the scheduler take a bound.
  For the first two the theorems state that the bounds used suffice; for the scheduler that a
  run which completes does so under every larger bound and that, for independent tasks, some
  bound is enough.

  \<^bold>\<open>Not modelled.\<close>  The wrapper functions of tasks, which are
  compiled from the user's program and appear as the list of runtime calls they make; weak memory;
  several threads inside one region; the exhaustion handler of the allocator; system calls other
  than by their result.  Code that the build leaves out: debug output, the operations of
  \<open>src/list.c\<close> under \<open>#if 0\<close>, the tracing of call chains in \<open>src/profile.c\<close>, the processor ticks of
  \<open>src/stats_regions.c\<close>, and the places where \<open>ENABLE_STATS\<close> takes its times.
\<close>

end
